(* ===== verification/Prelude.thy ===== *)
theory Prelude
  imports Main "HOL-Library.AList"
begin

text \<open>
  What every component theory shares: the types that stand for Go's own types and for
  streams of values supplied from outside, association lists as Go maps together with the
  order in which a \<open>range\<close> loop visits them, the string functions of the standard library
  the code calls, and the fact collections \<open>go_defs\<close> and \<open>map_facts\<close> used by the proofs of
  the components.
\<close>

named_theorems go_defs "definitions a component proof unfolds"
named_theorems map_facts "how the operations of a component act on the abstract map"

section \<open>Multiple return values and external sources\<close>

text \<open>
  A Go function with an error result returns a pair of a value and an error that may be
  nil; both components are always there, which the code uses (a storage conflict returns a
  path and an error together).
\<close>

type_synonym ('a, 'e) ret = "'a \<times> 'e option"

text \<open>
  A source is the sequence of values an external generator (random numbers, uuids) will
  deliver; \<open>next_src\<close> takes the next one.
\<close>

type_synonym 'a src = "nat \<Rightarrow> 'a"

definition next_src :: "'a src \<Rightarrow> 'a \<times> 'a src" where
  "next_src g = (g 0, \<lambda>i. g (Suc i))"

section \<open>Go maps as association lists\<close>

text \<open>
  A Go map is an association list with distinct keys. The position of an entry stands for
  the turn at which one \<open>range\<close> loop visits it; Go leaves that order open, so results of
  loops are stated for every list with the same content.
\<close>

definition keys_distinct :: "('k \<times> 'v) list \<Rightarrow> bool" where
  "keys_distinct al \<longleftrightarrow> distinct (map fst al)"

lemma keys_distinct_Nil [simp]: "keys_distinct []"
  by (simp add: keys_distinct_def)

lemma keys_distinct_update [simp]: "keys_distinct al \<Longrightarrow> keys_distinct (AList.update k v al)"
  by (simp add: keys_distinct_def distinct_update)

lemma map_of_update [simp]: "map_of (AList.update k v al) = (map_of al)(k \<mapsto> v)"
  by (rule update_conv')

lemma keys_distinct_Cons [simp]:
  "keys_distinct (p # al) \<longleftrightarrow> map_of al (fst p) = None \<and> keys_distinct al"
  by (auto simp: keys_distinct_def map_of_eq_None_iff)

lemma map_of_in_set: "keys_distinct al \<Longrightarrow> map_of al k = Some v \<longleftrightarrow> (k, v) \<in> set al"
  by (simp add: keys_distinct_def)

lemma same_map_same_set:
  assumes "keys_distinct al" and "keys_distinct bl" and "map_of al = map_of bl"
  shows "set al = set bl"
proof -
  have "(k, v) \<in> set al \<longleftrightarrow> (k, v) \<in> set bl" for k v
    using assms map_of_in_set by metis
  then show ?thesis by (metis surj_pair subsetI subset_antisym)
qed

lemma same_map_same_length:
  assumes "keys_distinct al" and "keys_distinct bl" and "map_of al = map_of bl"
  shows "length al = length bl"
  using same_map_same_set [OF assms] assms(1,2)
  by (metis distinct_card distinct_map keys_distinct_def)

lemma keys_distinct_distinct: "keys_distinct al \<Longrightarrow> distinct al"
  by (simp add: keys_distinct_def distinct_map)

section \<open>Strings\<close>

text \<open>
  A Go string is a sequence of bytes; \<^typ>\<open>string\<close> is a list of eight-bit characters, so
  indexing and length agree. \<open>Split\<close> and \<open>TrimLeft\<close> are \<open>strings.Split\<close> for a separator of
  one byte and \<open>strings.TrimLeft\<close> for a cutset of one byte.
\<close>

fun Split :: "string \<Rightarrow> char \<Rightarrow> string list" where
  "Split [] c = [[]]"
| "Split (x # xs) c =
     (if x = c then [] # Split xs c
      else (case Split xs c of [] \<Rightarrow> [[x]] | w # ws \<Rightarrow> (x # w) # ws))"

definition TrimLeft :: "string \<Rightarrow> char \<Rightarrow> string" where
  "TrimLeft s c = dropWhile (\<lambda>x. x = c) s"

lemma Split_not_Nil [simp]: "Split s c \<noteq> []"
  by (induction s) (auto split: list.splits)

lemma Split_no_sep: "w \<in> set (Split s c) \<Longrightarrow> c \<notin> set w"
  by (induction s arbitrary: w) (auto split: if_splits list.splits)

fun is_prefix :: "string \<Rightarrow> string \<Rightarrow> bool" where
  "is_prefix [] s = True"
| "is_prefix (p # ps) [] = False"
| "is_prefix (p # ps) (x # xs) = (p = x \<and> is_prefix ps xs)"

text \<open>\<open>strings.Contains\<close>.\<close>

fun contains_str :: "string \<Rightarrow> string \<Rightarrow> bool" where
  "contains_str [] p = is_prefix p []"
| "contains_str (x # xs) p = (is_prefix p (x # xs) \<or> contains_str xs p)"

lemma is_prefix_append [simp]: "is_prefix p (p @ s)"
  by (induction p) auto

lemma is_prefix_iff: "is_prefix p s \<longleftrightarrow> (\<exists>t. s = p @ t)"
  by (induction p s rule: is_prefix.induct) auto

lemma contains_str_iff: "contains_str s p \<longleftrightarrow> (\<exists>a b. s = a @ p @ b)"
proof (induction s)
  case Nil
  then show ?case by (auto simp: is_prefix_iff)
next
  case (Cons x xs)
  have "(\<exists>a b. x # xs = a @ p @ b) \<longleftrightarrow> (\<exists>t. x # xs = p @ t) \<or> (\<exists>a b. xs = a @ p @ b)"
    by (metis append_Cons append_self_conv2 list.sel(3) neq_Nil_conv tl_append2)
  with Cons show ?case by (auto simp: is_prefix_iff)
qed

section \<open>Lists\<close>

lemma take_Suc_last: "i < length xs \<Longrightarrow> take (Suc i) xs = take i xs @ [xs ! i]"
  by (rule take_Suc_conv_app_nth)

lemma concat_snoc [simp]: "concat (xss @ [xs]) = concat xss @ xs"
  by simp

end
