(* ===== verification/Goerr.thy ===== *)
theory Goerr
  imports Prelude
begin

text \<open>
  Go errors as values: the sentinel errors the packages declare, wrapping with
  \<open>fmt.Errorf("...: %w", err)\<close>, joining with \<open>errors.Join\<close>, and the inspection functions
  \<open>errors.Is\<close> and \<open>errors.As\<close>. An error value that is nil is the missing error of a
  \<^typ>\<open>('a, 'e) ret\<close>.
\<close>

text \<open>
  The sentinels: the storage errors of \<open>internal/model/model.go\<close>, the service errors of
  the resolver, shortener and status packages, and the ones of the libraries the code
  compares with (\<open>io.EOF\<close>, \<open>pgx.ErrNoRows\<close>).
\<close>

datatype sentinel =
    ErrNotFound | ErrAlreadyExists | ErrConflict | ErrDeleted
  | ErrInvalidPath | ErrResolverStorage
  | ErrInvalidURL | ErrUnsupportedURLScheme | ErrStorageError | ErrUnauthorized
  | ErrDelete | ErrEmptyBatch
  | ErrStatusStorage
  | IoEOF | PgxErrNoRows | MigrateErrNoChange

text \<open>
  \<open>Errmsg\<close> is an error made on the spot (\<open>errors.New\<close>, \<open>fmt.Errorf\<close> without \<open>%w\<close>, or an
  error of a library), \<open>PgError\<close> a \<open>*pgconn.PgError\<close> with its code and constraint name.
  Go compares error values by identity; the code only ever compares with a sentinel, for
  which structural equality is identity.
\<close>

datatype gerr =
    Sentinel sentinel
  | Errmsg string
  | PgError string string
  | Wrap string gerr
  | Join "gerr list"

type_synonym 'a gret = "('a, gerr) ret"

text \<open>\<open>errors.Is err target\<close>: the error itself or any error below it is the target.\<close>

fun errors_is :: "gerr \<Rightarrow> gerr \<Rightarrow> bool" where
  "errors_is (Wrap m e) t = (Wrap m e = t \<or> errors_is e t)"
| "errors_is (Join es) t = (Join es = t \<or> list_ex (\<lambda>e. errors_is e t) es)"
| "errors_is e t = (e = t)"

text \<open>\<open>errors.As\<close> with a \<open>*pgconn.PgError\<close> target: code and constraint of the first one.\<close>

fun errors_as_pg :: "gerr \<Rightarrow> (string \<times> string) option" where
  "errors_as_pg (PgError c k) = Some (c, k)"
| "errors_as_pg (Wrap m e) = errors_as_pg e"
| "errors_as_pg (Join es) =
     fold (\<lambda>e r. case r of Some p \<Rightarrow> Some p | None \<Rightarrow> errors_as_pg e) es None"
| "errors_as_pg e = None"

text \<open>\<open>errors.Join\<close> drops nil errors and returns nil when none is left.\<close>

definition errors_join :: "gerr option list \<Rightarrow> gerr option" where
  "errors_join es = (case List.map_filter id es of [] \<Rightarrow> None | e # r \<Rightarrow> Some (Join (e # r)))"

text \<open>The text of a sentinel and \<open>err.Error()\<close>.\<close>

fun sentinel_text :: "sentinel \<Rightarrow> string" where
  "sentinel_text ErrNotFound = ''not found''"
| "sentinel_text ErrAlreadyExists = ''already exists''"
| "sentinel_text ErrConflict = ''conflict''"
| "sentinel_text ErrDeleted = ''deleted''"
| "sentinel_text ErrInvalidPath = ''invalid path''"
| "sentinel_text ErrResolverStorage = ''storage error''"
| "sentinel_text ErrInvalidURL = ''invalid url''"
| "sentinel_text ErrUnsupportedURLScheme = ''unsupported scheme''"
| "sentinel_text ErrStorageError = ''storage error''"
| "sentinel_text ErrUnauthorized = ''unauthorized''"
| "sentinel_text ErrDelete = ''cannot queue url for deletion''"
| "sentinel_text ErrEmptyBatch = ''empty batch''"
| "sentinel_text ErrStatusStorage = ''storage error''"
| "sentinel_text IoEOF = ''EOF''"
| "sentinel_text PgxErrNoRows = ''no rows in result set''"
| "sentinel_text MigrateErrNoChange = ''no change''"

text \<open>
  An error of a library is foreign to the application: the application's sentinels are
  not found in it (a library cannot wrap an error variable it does not know).
\<close>

definition app_sentinel :: "sentinel \<Rightarrow> bool" where
  "app_sentinel s \<longleftrightarrow> s \<noteq> IoEOF \<and> s \<noteq> PgxErrNoRows \<and> s \<noteq> MigrateErrNoChange"

definition foreign_err :: "gerr \<Rightarrow> bool" where
  "foreign_err e \<longleftrightarrow> (\<forall>s. app_sentinel s \<longrightarrow> \<not> errors_is e (Sentinel s))"

text \<open>A call that may panic (an index out of range) instead of returning.\<close>

datatype 'a outcome = Ret 'a | Panic

section \<open>Facts\<close>

lemma errors_is_refl [simp]: "errors_is e e"
  by (cases e) auto

lemma errors_is_Sentinel [simp]: "errors_is (Sentinel a) t \<longleftrightarrow> t = Sentinel a"
  by auto

lemma errors_is_Join2 [simp]:
  "errors_is (Join [a, b]) (Sentinel s) \<longleftrightarrow> errors_is a (Sentinel s) \<or> errors_is b (Sentinel s)"
  by simp

lemma errors_is_Wrap_Sentinel [simp]:
  "errors_is (Wrap m e) (Sentinel s) \<longleftrightarrow> errors_is e (Sentinel s)"
  by simp

lemma errors_join_Some2 [simp]: "errors_join [Some a, Some b] = Some (Join [a, b])"
  by (simp add: errors_join_def List.map_filter_def)

text \<open>
  A sentinel on the left of \<open>errors.Is\<close> is found in an error only if it is that error:
  the call with its arguments swapped does not look below a join or a wrapper.
\<close>

lemma errors_is_swapped:
  "errors_is (Sentinel s) (Join es) = False" "errors_is (Sentinel s) (Wrap m e) = False"
  by auto

lemma foreign_errD:
  "foreign_err e \<Longrightarrow> app_sentinel s \<Longrightarrow> \<not> errors_is e (Sentinel s)"
  by (simp add: foreign_err_def)

lemma foreign_err_simps [simp]:
  "foreign_err (Errmsg m)" "foreign_err (PgError c k)" "foreign_err (Wrap m e) = foreign_err e"
  by (simp_all add: foreign_err_def)

lemma app_sentinel_simps [simp]:
  "app_sentinel ErrNotFound" "app_sentinel ErrAlreadyExists" "app_sentinel ErrConflict"
  "app_sentinel ErrDeleted" "app_sentinel ErrInvalidPath" "app_sentinel ErrInvalidURL"
  "app_sentinel ErrUnsupportedURLScheme" "app_sentinel ErrUnauthorized"
  "app_sentinel ErrEmptyBatch" "app_sentinel ErrStorageError" "app_sentinel ErrResolverStorage"
  "app_sentinel ErrDelete" "app_sentinel ErrStatusStorage"
  by (simp_all add: app_sentinel_def)

text \<open>A generator whose failures are foreign errors.\<close>

definition src_ok :: "(gerr + 'a) src \<Rightarrow> bool" where
  "src_ok g \<longleftrightarrow> (\<forall>i e. g i = Inl e \<longrightarrow> foreign_err e)"

lemma src_ok_next [simp]: "src_ok g \<Longrightarrow> src_ok (snd (next_src g))"
  by (simp add: src_ok_def next_src_def)

lemma src_okD: "src_ok g \<Longrightarrow> fst (next_src g) = Inl e \<Longrightarrow> foreign_err e"
  by (simp add: src_ok_def next_src_def)

lemma src_ok_const [simp]: "src_ok (\<lambda>_. Inr x)"
  by (simp add: src_ok_def)

end
