(* ===== verification/Model.thy ===== *)
theory Model
  imports Goerr
begin

text \<open>
  The shared data: \<open>internal/model/model.go\<close> (the url entity and the statistics),
  \<open>internal/user/user.go\<close> (the user, its id from a uuid, base64) and
  \<open>internal/session/session.go\<close> (what a request context carries).
\<close>

section \<open>Entities\<close>

record URL =
  Short :: string
  Orig :: string
  UserID :: string
  TS :: int

record Stats =
  URLs :: int
  Users :: int

record user =
  ID :: string
  is_new :: bool

text \<open>
  What the code uses of a parsed url: its scheme, its host and \<open>u.String()\<close>. The parser
  (\<open>url.Parse\<close>) is a parameter wherever it is called.
\<close>

record purl =
  Scheme :: string
  url_Host :: string
  url_String :: string

definition IsNew :: "user \<Rightarrow> bool" where
  "IsNew u = is_new u"

definition NewWithID :: "string \<Rightarrow> user" where
  "NewWithID i = \<lparr>ID = i, is_new = False\<rparr>"

section \<open>base64 without padding, url alphabet\<close>

text \<open>
  \<open>base64.RawURLEncoding\<close> on bytes (numbers below 256): the digit of a sextet, the value
  of a digit, and the two conversions. Decoding skips carriage returns and newlines and
  ignores the spare bits of the last digit, as the package does outside strict mode.
\<close>

definition b64digit :: "nat \<Rightarrow> char" where
  "b64digit n = char_of (if n < 26 then n + 65 else if n < 52 then n + 71
     else if n < 62 then n - 4 else if n = 62 then 45 else (95 :: nat))"

definition b64value :: "char \<Rightarrow> nat option" where
  "b64value c = (let n = of_char c :: nat in
     if 65 \<le> n \<and> n \<le> 90 then Some (n - 65)
     else if 97 \<le> n \<and> n \<le> 122 then Some (n - 71)
     else if 48 \<le> n \<and> n \<le> 57 then Some (n + 4)
     else if n = 45 then Some 62
     else if n = 95 then Some 63
     else None)"

fun b64_encode :: "nat list \<Rightarrow> string" where
  "b64_encode [] = []"
| "b64_encode [a] = [b64digit (a div 4), b64digit (a mod 4 * 16)]"
| "b64_encode [a, b] =
     [b64digit (a div 4), b64digit (a mod 4 * 16 + b div 16), b64digit (b mod 16 * 4)]"
| "b64_encode (a # b # c # r) =
     b64digit (a div 4) # b64digit (a mod 4 * 16 + b div 16) #
     b64digit (b mod 16 * 4 + c div 64) # b64digit (c mod 64) # b64_encode r"

fun b64_quads :: "nat list \<Rightarrow> nat list option" where
  "b64_quads [] = Some []"
| "b64_quads [_] = None"
| "b64_quads [a, b] = Some [a * 4 + b div 16]"
| "b64_quads [a, b, c] = Some [a * 4 + b div 16, b mod 16 * 16 + c div 4]"
| "b64_quads (a # b # c # d # r) =
     map_option (\<lambda>bs. (a * 4 + b div 16) # (b mod 16 * 16 + c div 4) # (c mod 4 * 64 + d) # bs)
       (b64_quads r)"

fun b64_values :: "string \<Rightarrow> nat list option" where
  "b64_values [] = Some []"
| "b64_values (x # xs) =
     (if of_char x = (10 :: nat) \<or> of_char x = (13 :: nat) then b64_values xs
      else case b64value x of None \<Rightarrow> None | Some v \<Rightarrow> map_option (Cons v) (b64_values xs))"

definition b64_decode :: "string \<Rightarrow> nat list option" where
  "b64_decode s = Option.bind (b64_values s) b64_quads"

lemma b64value_digit [simp]: "n < 64 \<Longrightarrow> b64value (b64digit n) = Some n"
  by (auto simp: b64value_def b64digit_def Let_def)

lemma of_char_b64digit: "n < 64 \<Longrightarrow>
  of_char (b64digit n) \<noteq> (10 :: nat) \<and> of_char (b64digit n) \<noteq> (13 :: nat)"
  by (auto simp: b64digit_def)

lemma b64_values_Cons [simp]:
  "n < 64 \<Longrightarrow> b64_values (b64digit n # s) = map_option (Cons n) (b64_values s)"
  using of_char_b64digit [of n] by auto

declare b64_values.simps(2) [simp del]

text \<open>What decoding gets back from the digits of a byte string.\<close>

lemma sextets_lt:
  "a < (256 :: nat) \<Longrightarrow> a div 4 < 64" "b < 256 \<Longrightarrow> a mod 4 * 16 + b div 16 < (64 :: nat)"
  "c < 256 \<Longrightarrow> b mod 16 * 4 + c div 64 < (64 :: nat)" "c mod 64 < (64 :: nat)"
proof -
  have m: "a mod 4 \<le> 3" "b mod 16 \<le> 15" by (simp_all flip: less_Suc_eq_le)
  show "a < 256 \<Longrightarrow> a div 4 < 64" "c mod 64 < (64 :: nat)" by simp_all
  show "a mod 4 * 16 + b div 16 < 64" if "b < 256"
  proof -
    from that have "b div 16 < 16" by (simp add: less_mult_imp_div_less)
    with m(1) show ?thesis by linarith
  qed
  show "b mod 16 * 4 + c div 64 < 64" if "c < 256"
  proof -
    from that have "c div 64 < 4" by (simp add: less_mult_imp_div_less)
    with m(2) show ?thesis by linarith
  qed
qed

lemma glue_bits: "y < (m :: nat) \<Longrightarrow> (x * m + y) div m = x" "y < m \<Longrightarrow> (x * m + y) mod m = y"
  by simp_all

lemma quad_bytes:
  assumes "b < (256 :: nat)" "c < 256"
  shows "a div 4 * 4 + (a mod 4 * 16 + b div 16) div 16 = a"
    and "(a mod 4 * 16 + b div 16) mod 16 * 16 + (b mod 16 * 4 + c div 64) div 4 = b"
    and "(b mod 16 * 4 + c div 64) mod 4 * 64 + c mod 64 = c"
proof -
  have lt: "b div 16 < 16" "c div 64 < 4"
    using assms by (simp_all add: less_mult_imp_div_less)
  show "a div 4 * 4 + (a mod 4 * 16 + b div 16) div 16 = a"
    "(a mod 4 * 16 + b div 16) mod 16 * 16 + (b mod 16 * 4 + c div 64) div 4 = b"
    "(b mod 16 * 4 + c div 64) mod 4 * 64 + c mod 64 = c"
    by (simp_all only: glue_bits [OF lt(1)] glue_bits [OF lt(2)] div_mult_mod_eq)
qed

lemma b64_decode_encode:
  "\<forall>x \<in> set bs. x < 256 \<Longrightarrow> b64_decode (b64_encode bs) = Some bs"
proof (induction bs rule: b64_encode.induct)
  case 1
  then show ?case by (simp add: b64_decode_def)
next
  case (2 a)
  then have "a div 4 < 64" by simp
  moreover have "a mod 4 * 16 < 64" by presburger
  ultimately show ?case using quad_bytes(1) [of 0 0 a] by (simp add: b64_decode_def)
next
  case (3 a b)
  then have "a < 256" "b < 256" by simp_all
  moreover have "b mod 16 * 4 < 64" by presburger
  ultimately show ?case using quad_bytes(1,2) [of b 0 a] sextets_lt(1) [of a] sextets_lt(2) [of b a]
    by (simp add: b64_decode_def)
next
  case (4 a b c r)
  then have lt: "a < 256" "b < 256" "c < 256" by simp_all
  from 4 obtain vs where "b64_values (b64_encode r) = Some vs" "b64_quads vs = Some r"
    by (auto simp: b64_decode_def bind_eq_Some_conv)
  with quad_bytes(1,2) [OF lt(2,3), of a] quad_bytes(3) [OF lt(2,3)] sextets_lt(1) [OF lt(1)] sextets_lt(2) [OF lt(2), of a]
    sextets_lt(3) [OF lt(3), of b] sextets_lt(4) [of c]
  show ?case by (simp add: b64_decode_def)
qed

section \<open>Users\<close>

text \<open>
  The uuid package is a parameter: a source of the results of \<open>uuid.NewV4()\<close> (the bytes of
  the uuid or an error) and \<open>uuid.FromBytes\<close> (the error it returns, if any).
\<close>

definition user_New :: "(gerr + nat list) src \<Rightarrow> (user option) gret \<times> (gerr + nat list) src" where
  "user_New g = (let (u, g') = next_src g in
     case u of
       Inl e \<Rightarrow> ((None, Some (Wrap ''cannot generate new uuid'' e)), g')
     | Inr bs \<Rightarrow> ((Some \<lparr>ID = b64_encode bs, is_new = True\<rparr>, None), g'))"

definition NewFromUserID :: "(nat list \<Rightarrow> gerr option) \<Rightarrow> string \<Rightarrow> (user option) gret" where
  "NewFromUserID uuidFromBytes userID =
     (case b64_decode userID of
        None \<Rightarrow> (None, Some (Wrap ''cannot base64-decode user id'' (Errmsg ''illegal base64 data'')))
      | Some b \<Rightarrow>
          (case uuidFromBytes b of
             Some e \<Rightarrow> (None, Some (Wrap ''cannot uuidv4-decode user id'' e))
           | None \<Rightarrow> (Some (NewWithID userID), None)))"

section \<open>Session values in the request context\<close>

text \<open>
  A context is the chain of \<open>context.WithValue\<close> entries, the newest first; \<open>Value\<close> looks
  the chain up, and the type assertion of each getter accepts one kind of value.
\<close>

datatype ctxKey = ctxKeyUserID | ctxKeyReqID

datatype ctxVal = UserVal user | StringVal string

type_synonym gctx = "(ctxKey \<times> ctxVal) list"

definition SetUserContext :: "gctx \<Rightarrow> user \<Rightarrow> gctx" where
  "SetUserContext parent u = (ctxKeyUserID, UserVal u) # parent"

definition GetUserFromContext :: "gctx \<Rightarrow> user option" where
  "GetUserFromContext ctx =
     (case map_of ctx ctxKeyUserID of Some (UserVal u) \<Rightarrow> Some u | _ \<Rightarrow> None)"

definition SetRequestID :: "gctx \<Rightarrow> string \<Rightarrow> gctx" where
  "SetRequestID parent reqID = (ctxKeyReqID, StringVal reqID) # parent"

definition GetRequestID :: "gctx \<Rightarrow> string option" where
  "GetRequestID ctx =
     (case map_of ctx ctxKeyReqID of Some (StringVal r) \<Rightarrow> Some r | _ \<Rightarrow> None)"

definition GetUserAndReqID :: "gctx \<Rightarrow> gerr + user \<times> string" where
  "GetUserAndReqID ctx =
     (case GetUserFromContext ctx of
        None \<Rightarrow> Inl (Errmsg ''user was not provided in context'')
      | Some u \<Rightarrow>
          (case GetRequestID ctx of
             None \<Rightarrow> Inl (Errmsg ''request id was not provided in context'')
           | Some r \<Rightarrow> Inr (u, r)))"

lemma GetUser_simps [simp]:
  "GetUserFromContext (SetUserContext ctx u) = Some u"
  "GetUserFromContext (SetRequestID ctx r) = GetUserFromContext ctx"
  "GetUserFromContext [] = None"
  by (simp_all add: GetUserFromContext_def SetUserContext_def SetRequestID_def)

lemma GetRequestID_simps [simp]:
  "GetRequestID (SetRequestID ctx r) = Some r"
  "GetRequestID (SetUserContext ctx u) = GetRequestID ctx"
  "GetRequestID [] = None"
  by (simp_all add: GetRequestID_def SetUserContext_def SetRequestID_def)

section \<open>Properties\<close>

text \<open>The id of every user made by \<open>user.New\<close> is accepted by \<open>user.NewFromUserID\<close>, and
  gives back a user with the same id that is no longer new: for every uuid whose bytes
  \<open>uuid.FromBytes\<close> accepts.\<close>

theorem user_id_roundtrip:
  assumes "user_New g = ((Some u, None), g')" and "g 0 = Inr bs"
    and "\<forall>x \<in> set bs. x < 256" and "uuidFromBytes bs = None"
  shows "NewFromUserID uuidFromBytes (ID u) = (Some \<lparr>ID = ID u, is_new = False\<rparr>, None)"
  using assms by (auto simp: user_New_def next_src_def NewFromUserID_def b64_decode_encode NewWithID_def)

definition sample_uuid :: "nat list" where
  "sample_uuid = [18, 62, 69, 103, 232, 155, 66, 211, 164, 86, 66, 102, 20, 23, 64, 255]"

theorem user_id_roundtrip_witness:
  "\<exists>u g'. user_New (\<lambda>_. Inr sample_uuid) = ((Some u, None), g') \<and>
     NewFromUserID (\<lambda>b. if length b = 16 then None else Some (Errmsg ''length'')) (ID u)
       = (Some \<lparr>ID = ID u, is_new = False\<rparr>, None)"
proof -
  let ?g = "\<lambda>_::nat. Inr sample_uuid :: gerr + nat list"
  let ?f = "\<lambda>b. if length b = 16 then None else Some (Errmsg ''length'')"
  have u: "user_New ?g = ((Some \<lparr>ID = b64_encode sample_uuid, is_new = True\<rparr>, None), ?g)"
    by (simp add: user_New_def next_src_def)
  have "NewFromUserID ?f (ID \<lparr>ID = b64_encode sample_uuid, is_new = True\<rparr>)
      = (Some \<lparr>ID = ID \<lparr>ID = b64_encode sample_uuid, is_new = True\<rparr>, is_new = False\<rparr>, None)"
    by (rule user_id_roundtrip [OF u, where bs = sample_uuid]) (simp_all add: sample_uuid_def)
  with u show ?thesis by blast
qed

end
