(* ===== verification/Storage_If.thy ===== *)
theory Storage_If
  imports Model
begin

text \<open>
  The storage interface the services are written against (\<open>Storage\<close> in
  \<open>internal/app/app.go\<close>, whose parts the shortener, resolver and status packages declare
  again): a record of methods over the storage's own state, and the contract the services
  rely on, stated over an abstract map from short paths to entries.
\<close>

section \<open>The interface value\<close>

text \<open>
  Go's \<open>nil\<close> pointer result of \<open>Stats\<close> is \<^const>\<open>None\<close>.
\<close>

record 's Storage =
  st_Get :: "'s \<Rightarrow> string \<Rightarrow> string gret \<times> 's"
  st_Store :: "'s \<Rightarrow> URL \<Rightarrow> bool \<Rightarrow> string gret \<times> 's"
  st_StoreBatch :: "'s \<Rightarrow> URL list \<Rightarrow> gerr option \<times> 's"
  st_ListUserURLs :: "'s \<Rightarrow> string \<Rightarrow> URL list gret \<times> 's"
  st_DeleteUserURLs :: "'s \<Rightarrow> URL list \<Rightarrow> int gret \<times> 's"
  st_Ping :: "'s \<Rightarrow> gerr option \<times> 's"
  st_Stats :: "'s \<Rightarrow> Stats option gret \<times> 's"

section \<open>The abstract state of a storage\<close>

record entry =
  e_orig :: string
  e_user :: string
  e_deleted :: bool

definition url_entry :: "URL \<Rightarrow> entry" where
  "url_entry u = \<lparr>e_orig = Orig u, e_user = UserID u, e_deleted = False\<rparr>"

lemma url_entry_simps [simp]:
  "e_orig (url_entry u) = Orig u" "e_user (url_entry u) = UserID u"
  "e_deleted (url_entry u) = False"
  by (simp_all add: url_entry_def)

text \<open>What \<open>Get\<close> answers for an entry, and when a path is taken.\<close>

definition get_result :: "entry option \<Rightarrow> string gret" where
  "get_result e = (case e of
     None \<Rightarrow> ([], Some (Sentinel ErrNotFound))
   | Some en \<Rightarrow> (if e_deleted en then ([], Some (Sentinel ErrDeleted)) else (e_orig en, None)))"

definition live :: "entry option \<Rightarrow> bool" where
  "live e \<longleftrightarrow> (case e of None \<Rightarrow> False | Some en \<Rightarrow> \<not> e_deleted en)"

lemma get_result_simps [simp]:
  "get_result None = ([], Some (Sentinel ErrNotFound))"
  "\<not> e_deleted en \<Longrightarrow> get_result (Some en) = (e_orig en, None)"
  "e_deleted en \<Longrightarrow> get_result (Some en) = ([], Some (Sentinel ErrDeleted))"
  by (simp_all add: get_result_def)

lemma live_simps [simp]: "\<not> live None" "live (Some en) \<longleftrightarrow> \<not> e_deleted en"
  by (simp_all add: live_def)

text \<open>The map after a batch of inserts, and one that a delete request may have produced.\<close>

definition insert_all :: "URL list \<Rightarrow> (string \<rightharpoonup> entry) \<Rightarrow> (string \<rightharpoonup> entry)" where
  "insert_all urls m = fold (\<lambda>u m. m(Short u \<mapsto> url_entry u)) urls m"

definition requested :: "URL list \<Rightarrow> string \<Rightarrow> string \<Rightarrow> bool" where
  "requested urls k uid \<longleftrightarrow> (\<exists>u \<in> set urls. Short u = k \<and> UserID u = uid)"

definition deletes_only :: "URL list \<Rightarrow> (string \<rightharpoonup> entry) \<Rightarrow> (string \<rightharpoonup> entry) \<Rightarrow> bool" where
  "deletes_only urls m m' \<longleftrightarrow> (\<forall>k. m' k = m k \<or>
     (\<exists>en. m k = Some en \<and> requested urls k (e_user en) \<and> m' k = Some (en\<lparr>e_deleted := True\<rparr>)))"

lemma insert_all_simps [simp]:
  "insert_all [] m = m"
  "insert_all (u # us) m = insert_all us (m(Short u \<mapsto> url_entry u))"
  by (simp_all add: insert_all_def)

lemma insert_all_other: "k \<notin> Short ` set us \<Longrightarrow> insert_all us m k = m k"
  by (induction us arbitrary: m) auto

lemma insert_all_distinct:
  "distinct (map Short us) \<Longrightarrow> u \<in> set us \<Longrightarrow> insert_all us m (Short u) = Some (url_entry u)"
proof (induction us arbitrary: m)
  case Nil
  then show ?case by simp
next
  case (Cons v us)
  then show ?case
    by (cases "u = v") (auto simp: insert_all_other image_iff)
qed

lemma deletes_only_refl [simp]: "deletes_only urls m m"
  by (simp add: deletes_only_def)

lemma deletes_only_other:
  assumes "deletes_only urls m m'" and "m k = Some en" and "\<not> requested urls k (e_user en)"
  shows "m' k = Some en"
  using assms unfolding deletes_only_def by (metis option.inject)

lemma deletes_only_fields:
  assumes "deletes_only urls m m'" and "m' k = Some en'"
  obtains en where "m k = Some en" "e_orig en' = e_orig en" "e_user en' = e_user en"
    "e_deleted en \<Longrightarrow> e_deleted en'"
proof -
  from assms consider "m k = Some en'"
    | en where "m k = Some en" "m' k = Some (en\<lparr>e_deleted := True\<rparr>)"
    unfolding deletes_only_def by metis
  then show ?thesis using assms(2) by cases (auto intro: that)
qed

lemma deletes_only_dom: "deletes_only urls m m' \<Longrightarrow> m k \<noteq> None \<Longrightarrow> m' k \<noteq> None"
  unfolding deletes_only_def by (metis option.distinct(1))

lemma insert_all_dom: "m k \<noteq> None \<Longrightarrow> insert_all us m k \<noteq> None"
  by (induction us arbitrary: m) auto

lemma deletes_only_trans:
  assumes "deletes_only us m m1" and "deletes_only vs m1 m2"
  shows "deletes_only (us @ vs) m m2"
proof -
  have "m2 k = m k \<or> (\<exists>en. m k = Some en \<and> requested (us @ vs) k (e_user en) \<and>
     m2 k = Some (en\<lparr>e_deleted := True\<rparr>))" for k
  proof -
    consider "m1 k = m k" | en where "m k = Some en" "requested us k (e_user en)"
        "m1 k = Some (en\<lparr>e_deleted := True\<rparr>)"
      using assms(1) unfolding deletes_only_def by metis
    then show ?thesis
    proof cases
      case 1
      then show ?thesis using assms(2) unfolding deletes_only_def requested_def
        by (metis UnCI set_append)
    next
      case (2 en)
      with assms(2) [unfolded deletes_only_def, rule_format, of k]
      have "m2 k = Some (en\<lparr>e_deleted := True\<rparr>)" by auto
      with 2 show ?thesis by (auto simp: requested_def)
    qed
  qed
  then show ?thesis by (auto simp: deletes_only_def)
qed

section \<open>The contract\<close>

text \<open>
  \<open>view\<close> is the abstract map a storage state stands for, \<open>ok\<close> the states in which the
  storage keeps its contract (for the database: the connection answers).
\<close>

locale url_storage =
  fixes st :: "'s Storage"
    and view :: "'s \<Rightarrow> string \<rightharpoonup> entry"
    and ok :: "'s \<Rightarrow> bool"
  assumes get_law: "ok s \<Longrightarrow> st_Get st s k = (r, s') \<Longrightarrow>
      ok s' \<and> view s' = view s \<and> r = get_result (view s k)"
    and store_law: "ok s \<Longrightarrow> st_Store st s u False = ((p, None), s') \<Longrightarrow>
      ok s' \<and> \<not> live (view s (Short u)) \<and> view s' = (view s)(Short u \<mapsto> url_entry u)"
    and store_err_law: "ok s \<Longrightarrow> st_Store st s u False = ((p, Some e), s') \<Longrightarrow>
      ok s' \<and> view s' = view s"
    and conflict_law: "ok s \<Longrightarrow> st_Store st s u False = ((p, Some e), s') \<Longrightarrow>
      errors_is e (Sentinel ErrConflict) \<Longrightarrow>
      e = Sentinel ErrConflict \<and> get_result (view s p) = (Orig u, None)"
    and batch_law: "ok s \<Longrightarrow> st_StoreBatch st s us = (None, s') \<Longrightarrow>
      ok s' \<and> (\<forall>u \<in> set us. \<not> live (view s (Short u))) \<and> view s' = insert_all us (view s)"
    and batch_err_law: "ok s \<Longrightarrow> st_StoreBatch st s us = (Some e, s') \<Longrightarrow>
      ok s' \<and> view s' = view s"
    and list_law: "ok s \<Longrightarrow> st_ListUserURLs st s uid = ((us, None), s') \<Longrightarrow> u \<in> set us \<Longrightarrow>
      \<exists>en. view s (Short u) = Some en \<and> e_user en = uid \<and> e_orig en = Orig u"
    and list_state_law: "ok s \<Longrightarrow> st_ListUserURLs st s uid = (lr, s') \<Longrightarrow> ok s' \<and> view s' = view s"
    and delete_law: "ok s \<Longrightarrow> st_DeleteUserURLs st s us = (dr, s') \<Longrightarrow>
      ok s' \<and> deletes_only us (view s) (view s')"
    and ping_law: "ok s \<Longrightarrow> st_Ping st s = (pr, s') \<Longrightarrow> ok s' \<and> view s' = view s"
    and stats_law: "ok s \<Longrightarrow> st_Stats st s = (sr, s') \<Longrightarrow> ok s' \<and> view s' = view s"
begin

lemma get_live:
  assumes "ok s" and "st_Get st s k = ((orig, None), s')"
  shows "\<exists>en. view s k = Some en \<and> \<not> e_deleted en \<and> e_orig en = orig"
  using get_law [OF assms] by (auto simp: get_result_def split: option.splits if_splits)

lemma get_after_store:
  assumes "ok s" and "st_Store st s u False = ((p, None), s1)"
  shows "fst (st_Get st s1 (Short u)) = (Orig u, None)"
proof -
  obtain r s2 where g: "st_Get st s1 (Short u) = (r, s2)" by (cases "st_Get st s1 (Short u)")
  from store_law [OF assms] have "ok s1" "view s1 (Short u) = Some (url_entry u)" by auto
  with get_law [OF _ g] g show ?thesis by simp
qed

text \<open>A store that succeeds or fails never changes what another live path resolves to.\<close>

lemma store_preserves_live:
  assumes "ok s" and "st_Store st s u False = (r, s')" and "live (view s k)"
  shows "view s' k = view s k"
proof (cases "snd r")
  case None
  then obtain p where "r = (p, None)" by (cases r) auto
  with store_law [of s u p s'] assms show ?thesis by (auto simp: fun_upd_def)
next
  case (Some e)
  then obtain p where "r = (p, Some e)" by (cases r) auto
  with store_err_law [of s u p e s'] assms show ?thesis by auto
qed

text \<open>A delete request never touches an entry of a user it does not name.\<close>

lemma delete_other_user:
  assumes "ok s" and "st_DeleteUserURLs st s us = (r, s')"
    and "view s k = Some en" and "\<forall>u \<in> set us. UserID u \<noteq> e_user en"
  shows "view s' k = Some en"
  using delete_law [OF assms(1,2)] assms(3,4) deletes_only_other [of us "view s" "view s'" k en]
  by (auto simp: requested_def)

end

text \<open>
  A storage that also takes no batch in which two urls have the same path, and gives no path out
  twice, not even one whose url was deleted, as the primary key of a table sees to.
\<close>

locale batch_storage = url_storage +
  assumes batch_distinct_law: "ok s \<Longrightarrow> st_StoreBatch st s us = (None, s') \<Longrightarrow> distinct (map Short us)"
    and store_new_law: "ok s \<Longrightarrow> st_Store st s u False = ((p, None), s') \<Longrightarrow> view s (Short u) = None"
    and batch_new_law: "ok s \<Longrightarrow> st_StoreBatch st s us = (None, s') \<Longrightarrow> u \<in> set us \<Longrightarrow> view s (Short u) = None"
begin

lemma batch_stored:
  assumes "ok s" and "st_StoreBatch st s us = (None, s')" and "u \<in> set us"
  shows "ok s' \<and> view s' (Short u) = Some (url_entry u)"
  using batch_law [OF assms(1,2)] insert_all_distinct [OF batch_distinct_law [OF assms(1,2)] assms(3)] by simp

end

end
