(* ===== verification/MemStore.thy ===== *)
theory MemStore
  imports Storage_If
begin

text \<open>
  The in-memory storage: the record map of \<open>internal/storage/memory/db/db.go\<close> and the
  operations of \<open>internal/storage/memory/simple.go\<close>. Every method but \<open>Stats\<close> holds the
  mutex for its whole body, so a method call is one step on the state.
\<close>

section \<open>db.go\<close>

record Record =
  UUID :: string
  ShortURL :: string
  OriginalURL :: string
  RUserID :: string
  Deleted :: bool

type_synonym DB = "(string \<times> Record) list"

definition NewDB :: DB where
  "NewDB = []"

definition DB_Map :: "DB \<Rightarrow> (string \<times> string) list" where
  "DB_Map db = fold (\<lambda>(k, v) kv. AList.update k (OriginalURL v) kv) db []"

text \<open>
  The loop of \<open>DB.Stats\<close>: \<open>users\<close> holds the keys the map \<open>users\<close> sends to true.
\<close>

fun stats_loop :: "DB \<Rightarrow> string list \<Rightarrow> int \<Rightarrow> int" where
  "stats_loop [] users userCtr = userCtr"
| "stats_loop ((k, rec) # db) users userCtr =
     (if RUserID rec \<notin> set users then
        (if \<not> Deleted rec then stats_loop db (RUserID rec # users) (userCtr + 1)
         else stats_loop db users userCtr)
      else stats_loop db users userCtr)"

definition DB_Stats :: "DB \<Rightarrow> Stats" where
  "DB_Stats db = \<lparr>URLs = int (length db), Users = stats_loop db [] 0\<rparr>"

section \<open>simple.go\<close>

text \<open>
  \<open>gen\<close> is the uuid generator of the library: the strings (or errors) its next calls
  return.
\<close>

record Memory =
  DB :: DB
  gen :: "(gerr + string) src"

definition Memory_New :: "(gerr + string) src \<Rightarrow> Memory" where
  "Memory_New g = \<lparr>DB = NewDB, gen = g\<rparr>"

definition Memory_Get :: "Memory \<Rightarrow> string \<Rightarrow> string gret" where
  "Memory_Get m key = (case map_of (DB m) key of
     None \<Rightarrow> ([], Some (Sentinel ErrNotFound))
   | Some record \<Rightarrow>
       (if Deleted record then ([], Some (Sentinel ErrDeleted)) else (OriginalURL record, None)))"

definition taken :: "DB \<Rightarrow> string \<Rightarrow> bool" where
  "taken db k = (case map_of db k of None \<Rightarrow> False | Some u \<Rightarrow> \<not> Deleted u)"

definition mk_record :: "string \<Rightarrow> URL \<Rightarrow> Record" where
  "mk_record i u = \<lparr>UUID = i, ShortURL = Short u, OriginalURL = Orig u, RUserID = UserID u,
     Deleted = False\<rparr>"

definition Memory_Store :: "Memory \<Rightarrow> URL \<Rightarrow> bool \<Rightarrow> string gret \<times> Memory" where
  "Memory_Store m url overwrite =
     (if \<not> overwrite \<and> taken (DB m) (Short url)
      then (([], Some (Sentinel ErrAlreadyExists)), m)
      else (let (u, g') = next_src (gen m) in
        case u of
          Inl e \<Rightarrow> (([], Some (Wrap ''cannot generate key uuid'' e)), m\<lparr>gen := g'\<rparr>)
        | Inr i \<Rightarrow> (([], None),
            m\<lparr>DB := AList.update (Short url) (mk_record i url) (DB m), gen := g'\<rparr>)))"

definition Memory_ListUserURLs :: "Memory \<Rightarrow> string \<Rightarrow> URL list gret" where
  "Memory_ListUserURLs m userID =
     (map (\<lambda>(k, r). \<lparr>Short = ShortURL r, Orig = OriginalURL r, UserID = userID, TS = 0\<rparr>)
        (filter (\<lambda>(k, r). RUserID r = userID) (DB m)), None)"

fun delete_loop :: "URL list \<Rightarrow> DB \<Rightarrow> int \<Rightarrow> int \<times> DB" where
  "delete_loop [] db num = (num, db)"
| "delete_loop (url # urls) db num =
     (case map_of db (Short url) of
        Some record \<Rightarrow>
          (if RUserID record = UserID url
           then delete_loop urls (AList.update (Short url) (record\<lparr>Deleted := True\<rparr>) db) (num + 1)
           else delete_loop urls db num)
      | None \<Rightarrow> delete_loop urls db num)"

definition Memory_DeleteUserURLs :: "Memory \<Rightarrow> URL list \<Rightarrow> int gret \<times> Memory" where
  "Memory_DeleteUserURLs m urls =
     (let (num, db) = delete_loop urls (DB m) 0 in ((num, None), m\<lparr>DB := db\<rparr>))"

text \<open>The two loops of \<open>StoreBatch\<close>: check every url and draw its uuid, then write.\<close>

fun batch_ids :: "DB \<Rightarrow> URL list \<Rightarrow> (gerr + string) src \<Rightarrow> (gerr + string list) \<times> (gerr + string) src" where
  "batch_ids db [] g = (Inr [], g)"
| "batch_ids db (url # urls) g =
     (if taken db (Short url) then (Inl (Sentinel ErrAlreadyExists), g)
      else (let (u, g') = next_src g in
        case u of
          Inl e \<Rightarrow> (Inl (Wrap ''cannot generate key uuid'' e), g')
        | Inr i \<Rightarrow> (case batch_ids db urls g' of
              (Inl e, g'') \<Rightarrow> (Inl e, g'')
            | (Inr is, g'') \<Rightarrow> (Inr (i # is), g''))))"

fun batch_write :: "DB \<Rightarrow> URL list \<Rightarrow> string list \<Rightarrow> DB" where
  "batch_write db (url # urls) (i # is) =
     batch_write (AList.update (Short url) (mk_record i url) db) urls is"
| "batch_write db _ _ = db"

definition Memory_StoreBatch :: "Memory \<Rightarrow> URL list \<Rightarrow> gerr option \<times> Memory" where
  "Memory_StoreBatch m urls =
     (case batch_ids (DB m) urls (gen m) of
        (Inl e, g') \<Rightarrow> (Some e, m\<lparr>gen := g'\<rparr>)
      | (Inr IDs, g') \<Rightarrow> (None, m\<lparr>DB := batch_write (DB m) urls IDs, gen := g'\<rparr>))"

definition Memory_Dump :: "Memory \<Rightarrow> DB" where
  "Memory_Dump m = DB m"

definition Memory_Ping :: "Memory \<Rightarrow> gerr option" where
  "Memory_Ping m = None"

definition Memory_Stats :: "Memory \<Rightarrow> Stats option gret" where
  "Memory_Stats m = (Some (DB_Stats (DB m)), None)"

text \<open>The memory storage as a value of the storage interface.\<close>

definition memory_storage :: "Memory Storage" where
  "memory_storage = \<lparr>
     st_Get = (\<lambda>m k. (Memory_Get m k, m)),
     st_Store = Memory_Store,
     st_StoreBatch = Memory_StoreBatch,
     st_ListUserURLs = (\<lambda>m uid. (Memory_ListUserURLs m uid, m)),
     st_DeleteUserURLs = Memory_DeleteUserURLs,
     st_Ping = (\<lambda>m. (Memory_Ping m, m)),
     st_Stats = (\<lambda>m. (Memory_Stats m, m))\<rparr>"

section \<open>Statistics\<close>

definition live_users :: "DB \<Rightarrow> string set" where
  "live_users db = {RUserID r | k r. (k, r) \<in> set db \<and> \<not> Deleted r}"

lemma live_users_Cons [simp]: "live_users ((k, r) # db) =
   (if Deleted r then live_users db else insert (RUserID r) (live_users db))"
  by (auto simp: live_users_def)

lemma finite_live_users [simp]: "finite (live_users db)"
  by (induction db) (auto simp: live_users_def [of "[]"])

lemma stats_loop_users:
  "stats_loop db users c = c + int (card (live_users db - set users))"
proof (induction db users c rule: stats_loop.induct)
  case (1 users c)
  then show ?case by (simp add: live_users_def)
next
  case (2 k rec db users c)
  show ?case
  proof (cases "RUserID rec \<notin> set users \<and> \<not> Deleted rec")
    case True
    have "insert (RUserID rec) (live_users db) - set users
        = insert (RUserID rec) (live_users db - set (RUserID rec # users))"
      using True by auto
    then have "card (insert (RUserID rec) (live_users db) - set users)
        = Suc (card (live_users db - set (RUserID rec # users)))" by simp
    with True 2 show ?thesis by simp
  next
    case False
    with 2 show ?thesis by (auto simp: insert_absorb Diff_insert_absorb insert_Diff_if)
  qed
qed

lemma DB_Stats_eq:
  "DB_Stats db = \<lparr>URLs = int (length db), Users = int (card (live_users db))\<rparr>"
  by (simp add: DB_Stats_def stats_loop_users)

section \<open>The abstract map and the invariant\<close>

text \<open>
  Every key of the map is the short path of its record: \<open>Store\<close> and \<open>StoreBatch\<close> write it
  so, and the file storage reads it back so.
\<close>

definition rec_entry :: "Record \<Rightarrow> entry" where
  "rec_entry r = \<lparr>e_orig = OriginalURL r, e_user = RUserID r, e_deleted = Deleted r\<rparr>"

definition db_view :: "DB \<Rightarrow> string \<rightharpoonup> entry" where
  "db_view db k = map_option rec_entry (map_of db k)"

definition mem_view :: "Memory \<Rightarrow> string \<rightharpoonup> entry" where
  "mem_view m = db_view (DB m)"

definition db_inv :: "DB \<Rightarrow> bool" where
  "db_inv db \<longleftrightarrow> keys_distinct db \<and> (\<forall>k r. map_of db k = Some r \<longrightarrow> ShortURL r = k)"

definition mem_inv :: "Memory \<Rightarrow> bool" where
  "mem_inv m \<longleftrightarrow> db_inv (DB m) \<and> src_ok (gen m)"

lemma rec_entry_simps [simp]:
  "e_orig (rec_entry r) = OriginalURL r" "e_user (rec_entry r) = RUserID r"
  "e_deleted (rec_entry r) = Deleted r"
  "rec_entry (mk_record i u) = url_entry u"
  "rec_entry (r\<lparr>Deleted := b\<rparr>) = (rec_entry r)\<lparr>e_deleted := b\<rparr>"
  by (simp_all add: rec_entry_def mk_record_def url_entry_def)

lemma db_view_update [simp]:
  "db_view (AList.update k r db) = (db_view db)(k \<mapsto> rec_entry r)"
  by (auto simp: db_view_def)

lemma taken_live: "taken db k \<longleftrightarrow> live (db_view db k)"
  by (auto simp: taken_def live_def db_view_def split: option.splits)

lemma db_inv_Nil [simp]: "db_inv []"
  by (simp add: db_inv_def)

lemma db_inv_update [simp]: "db_inv db \<Longrightarrow> ShortURL r = k \<Longrightarrow> db_inv (AList.update k r db)"
  by (auto simp: db_inv_def)

lemma ShortURL_mk_record [simp]: "ShortURL (mk_record i u) = Short u"
  by (simp add: mk_record_def)

lemma Memory_Get_view: "Memory_Get m k = get_result (mem_view m k)"
  by (auto simp: Memory_Get_def get_result_def mem_view_def db_view_def split: option.splits)

lemma delete_loop_view:
  "delete_loop us db n = (n', db') \<Longrightarrow> db_inv db \<Longrightarrow> db_inv db' \<and> deletes_only us (db_view db) (db_view db')"
proof (induction us db n arbitrary: n' db' rule: delete_loop.induct)
  case (1 db n)
  then show ?case by simp
next
  case (2 u us db n)
  have mono: "deletes_only us m m' \<Longrightarrow> deletes_only (u # us) m m'" for m m'
    by (auto simp: deletes_only_def requested_def)
  show ?case
  proof (cases "\<exists>r. map_of db (Short u) = Some r \<and> RUserID r = UserID u")
    case False
    then have "delete_loop us db n = (n', db')" using "2.prems"(1) by (auto split: option.splits)
    with False 2 mono show ?thesis by (auto split: option.splits)
  next
    case True
    then obtain r where r: "map_of db (Short u) = Some r" "RUserID r = UserID u" by blast
    let ?db = "AList.update (Short u) (r\<lparr>Deleted := True\<rparr>) db"
    have "db_inv ?db" using r "2.prems"(2) by (auto simp: db_inv_def)
    moreover have "delete_loop us ?db (n + 1) = (n', db')" using r "2.prems"(1) by simp
    ultimately have "db_inv db'" "deletes_only us (db_view ?db) (db_view db')"
      using "2.IH"(2) [OF r] by blast+
    moreover have "deletes_only [u] (db_view db) (db_view ?db)"
      using r by (auto simp: deletes_only_def requested_def db_view_def)
    ultimately show ?thesis using deletes_only_trans by fastforce
  qed
qed

lemma batch_ids_ok:
  "batch_ids db us g = (Inr is, g') \<Longrightarrow>
     length is = length us \<and> (\<forall>u \<in> set us. \<not> live (db_view db (Short u)))"
  by (induction db us g arbitrary: "is" g' rule: batch_ids.induct)
    (auto simp: taken_live Let_def split: if_splits prod.splits sum.splits)

lemma batch_ids_src:
  "src_ok g \<Longrightarrow> batch_ids db us g = (r, g') \<Longrightarrow> src_ok g'"
proof (induction us arbitrary: g r g')
  case Nil
  then show ?case by simp
next
  case (Cons u us)
  obtain x g1 where x: "next_src g = (x, g1)" by (cases "next_src g")
  then have g1: "src_ok g1" using Cons.prems(1) src_ok_next [of g] by simp
  obtain r2 g2 where r2: "batch_ids db us g1 = (r2, g2)" by (cases "batch_ids db us g1")
  have "g' = g \<or> g' = g1 \<or> g' = g2"
    using Cons.prems(2) x r2 by (auto split: if_splits sum.splits)
  then show ?case using Cons.prems(1) g1 Cons.IH [OF g1 r2] by blast
qed

lemma batch_write_view:
  "length is = length us \<Longrightarrow> db_inv db \<Longrightarrow>
     db_inv (batch_write db us is) \<and> db_view (batch_write db us is) = insert_all us (db_view db)"
  by (induction db us "is" rule: batch_write.induct) auto

lemma Memory_Store_cases:
  assumes "Memory_Store m u ow = (r, m')" and "mem_inv m"
  obtains (taken) "\<not> ow" "live (mem_view m (Short u))" "r = ([], Some (Sentinel ErrAlreadyExists))" "m' = m"
  | (nouuid) e where "foreign_err e" "r = ([], Some (Wrap ''cannot generate key uuid'' e))"
      "mem_inv m'" "mem_view m' = mem_view m"
  | (stored) "ow \<or> \<not> live (mem_view m (Short u))" "r = ([], None)" "mem_inv m'"
      "mem_view m' = (mem_view m)(Short u \<mapsto> url_entry u)"
proof (cases "\<not> ow \<and> taken (DB m) (Short u)")
  case True
  then have "\<not> ow" "live (mem_view m (Short u))"
      "r = ([], Some (Sentinel ErrAlreadyExists))" "m' = m"
    using assms(1) by (simp_all add: Memory_Store_def taken_live mem_view_def)
  then show ?thesis by (rule taken)
next
  case False
  obtain x g' where x: "next_src (gen m) = (x, g')" by (cases "next_src (gen m)")
  then have g': "src_ok g'" using assms(2) src_ok_next [of "gen m"] by (simp add: mem_inv_def)
  show ?thesis
  proof (cases x)
    case (Inl e)
    then have "foreign_err e" using x assms(2) src_okD [of "gen m"] by (simp add: mem_inv_def)
    moreover have "r = ([], Some (Wrap ''cannot generate key uuid'' e))" "mem_inv m'"
        "mem_view m' = mem_view m"
      using False x Inl g' assms by (auto simp: Memory_Store_def mem_inv_def mem_view_def)
    ultimately show ?thesis by (rule nouuid)
  next
    case (Inr i)
    then have "r = ([], None)" "mem_inv m'" "mem_view m' = (mem_view m)(Short u \<mapsto> url_entry u)"
      using False x g' assms by (auto simp: Memory_Store_def mem_inv_def mem_view_def)
    moreover have "ow \<or> \<not> live (mem_view m (Short u))"
      using False by (auto simp: taken_live mem_view_def)
    ultimately show ?thesis by (intro stored)
  qed
qed

interpretation mem: url_storage memory_storage mem_view mem_inv
proof (unfold_locales, goal_cases)
  case (1 s k r s')
  then show ?case by (auto simp: memory_storage_def Memory_Get_view)
next
  case (2 s u p s')
  then show ?case by (auto simp: memory_storage_def elim!: Memory_Store_cases)
next
  case (3 s u p e s')
  then show ?case by (auto simp: memory_storage_def elim!: Memory_Store_cases)
next
  case (4 s u p e s')
  then show ?case
    by (auto simp: memory_storage_def foreign_errD elim!: Memory_Store_cases)
next
  case (5 s us s')
  then show ?case
    by (auto simp: memory_storage_def Memory_StoreBatch_def mem_inv_def mem_view_def batch_write_view
        dest: batch_ids_ok batch_ids_src split: prod.splits sum.splits)
next
  case (6 s us e s')
  then show ?case
    by (auto simp: memory_storage_def Memory_StoreBatch_def mem_inv_def mem_view_def
        dest: batch_ids_src split: prod.splits sum.splits)
next
  case (7 s uid us s' u)
  then show ?case
    by (auto simp: memory_storage_def Memory_ListUserURLs_def mem_inv_def db_inv_def mem_view_def
        db_view_def simp flip: map_of_in_set)
next
  case (8 s uid lr s')
  then show ?case by (auto simp: memory_storage_def)
next
  case (9 s us r s')
  then show ?case
    by (auto simp: memory_storage_def Memory_DeleteUserURLs_def mem_inv_def mem_view_def
        dest: delete_loop_view split: prod.splits)
qed (auto simp: memory_storage_def)

end
