(* ===== verification/FileStore.thy ===== *)
theory FileStore
  imports MemStore
begin

text \<open>
  The in-memory storage with persistence in a file: \<open>internal/storage/file/file.go\<close> and
  the record parser \<open>NewURLRecordFromBytes\<close> of \<open>internal/storage/memory/db/db.go\<close>.
\<close>

section \<open>Libraries\<close>

text \<open>
  Parameters: \<open>json.Marshal\<close> and \<open>json.Unmarshal\<close> for a record (unmarshalling the json text
  \<open>null\<close> leaves a nil pointer, \<open>Inr None\<close>), \<open>uuid.FromString\<close>, \<open>uuid.FromBytes\<close> and
  \<open>url.Parse\<close>.
\<close>

record libs =
  marshal :: "Record \<Rightarrow> gerr + string"
  unmarshal :: "string \<Rightarrow> gerr + Record option"
  uuidFromString :: "string \<Rightarrow> gerr option"
  uuidFromBytes :: "nat list \<Rightarrow> gerr option"
  urlParse :: "string \<Rightarrow> gerr + purl"

section \<open>Reading the file\<close>

definition NewURLRecordFromBytes :: "libs \<Rightarrow> string \<Rightarrow> (gerr + Record) outcome" where
  "NewURLRecordFromBytes L data = (case unmarshal L data of
     Inl e \<Rightarrow> Ret (Inl (Wrap ''malformed json data'' e))
   | Inr None \<Rightarrow> Panic
   | Inr (Some record) \<Rightarrow> Ret
      (case uuidFromString L (UUID record) of
         Some e \<Rightarrow> Inl (Wrap ''malformed uuid'' e)
       | None \<Rightarrow>
      (case urlParse L (OriginalURL record) of
         Inl e \<Rightarrow> Inl (Wrap (''malformed url for '' @ UUID record) e)
       | Inr _ \<Rightarrow>
      (case NewFromUserID (uuidFromBytes L) (RUserID record) of
         (_, Some e) \<Rightarrow> Inl (Wrap (''malformed user id for '' @ RUserID record) e)
       | (_, None) \<Rightarrow> Inr record))))"

text \<open>
  A \<open>bufio.Reader\<close> over a file: the bytes left and the error at their end (\<open>io.EOF\<close>, or an
  error of the disk). \<open>ReadBytes\<close> returns the bytes up to and including the newline, or
  what is left together with the error.
\<close>

record reader =
  r_data :: string
  r_err :: gerr

abbreviation nl :: char where
  "nl \<equiv> CHR 0x0A"

definition ReadBytes :: "reader \<Rightarrow> string gret \<times> reader" where
  "ReadBytes r =
     (if nl \<in> set (r_data r)
      then ((takeWhile (\<lambda>c. c \<noteq> nl) (r_data r) @ [nl], None),
            r\<lparr>r_data := drop 1 (dropWhile (\<lambda>c. c \<noteq> nl) (r_data r))\<rparr>)
      else ((r_data r, Some (r_err r)), r\<lparr>r_data := []\<rparr>))"

text \<open>
  \<open>data[:len(data)-1]\<close> drops the last byte, be it the newline or, at the end of a file
  without a final newline, the last byte of the record.
\<close>

definition readURLFromLine :: "libs \<Rightarrow> reader \<Rightarrow> (gerr + Record) outcome \<times> reader" where
  "readURLFromLine L r = (case ReadBytes r of
     ((data, err), r') \<Rightarrow>
       (case err of
          Some e \<Rightarrow>
            if \<not> errors_is e (Sentinel IoEOF) \<or> data = []
            then (Ret (Inl (Wrap ''error while reading url from filestore'' e)), r')
            else (case NewURLRecordFromBytes L (butlast data) of
                Panic \<Rightarrow> (Panic, r')
              | Ret (Inl e) \<Rightarrow> (Ret (Inl (Wrap ''cannot parse url record'' e)), r')
              | Ret (Inr record) \<Rightarrow> (Ret (Inr record), r'))
        | None \<Rightarrow>
            (case NewURLRecordFromBytes L (butlast data) of
                Panic \<Rightarrow> (Panic, r')
              | Ret (Inl e) \<Rightarrow> (Ret (Inl (Wrap ''cannot parse url record'' e)), r')
              | Ret (Inr record) \<Rightarrow> (Ret (Inr record), r'))))"

lemma ReadBytes_shrinks:
  "ReadBytes r = ((data, e), r') \<Longrightarrow> length (r_data r') \<le> length (r_data r) - 1"
  by (auto simp: ReadBytes_def split: if_splits intro!: diff_le_mono length_dropWhile_le)

lemma readURLFromLine_shrinks:
  assumes "readURLFromLine L r = (Ret (Inr record), r')"
  shows "length (r_data r') < length (r_data r)"
proof -
  obtain data e r1 where rb: "ReadBytes r = ((data, e), r1)" by (metis surj_pair)
  have "r_data r \<noteq> []"
  proof
    assume "r_data r = []"
    then have "ReadBytes r = (([], Some (r_err r)), r\<lparr>r_data := []\<rparr>)"
      by (simp add: ReadBytes_def)
    with assms show False by (simp add: readURLFromLine_def split: if_splits)
  qed
  moreover have "r1 = r'"
    using assms rb by (auto simp: readURLFromLine_def split: option.splits if_splits outcome.splits sum.splits)
  ultimately show ?thesis using ReadBytes_shrinks [OF rb] by (cases "r_data r") auto
qed

function read_loop :: "libs \<Rightarrow> reader \<Rightarrow> DB \<Rightarrow> (gerr + DB) outcome" where
  "read_loop L r urlDB = (case readURLFromLine L r of
     (Panic, _) \<Rightarrow> Panic
   | (Ret (Inl e), _) \<Rightarrow> if errors_is e (Sentinel IoEOF) then Ret (Inr urlDB) else Ret (Inl e)
   | (Ret (Inr record), r') \<Rightarrow> read_loop L r' (AList.update (ShortURL record) record urlDB))"
  by pat_completeness auto
termination
  by (relation "measure (\<lambda>(L, r, db). length (r_data r))") 
    (simp_all, metis readURLFromLine_shrinks)

declare read_loop.simps [simp del]

text \<open>\<open>readURLsFromFile\<close>: the result of opening the file is its content or an error.\<close>

definition readURLsFromFile :: "libs \<Rightarrow> gerr + reader \<Rightarrow> (gerr + DB) outcome" where
  "readURLsFromFile L opened = (case opened of
     Inl e \<Rightarrow> Ret (Inl (Wrap ''cannot open file'' e))
   | Inr r \<Rightarrow> read_loop L r NewDB)"

section \<open>Writing the file\<close>

text \<open>
  The disk of one dump: whether the file opens, and how many bytes it can take (\<^const>\<open>None\<close>
  for no limit) before a write fails.
\<close>

record disk =
  open_err :: "gerr option"
  room :: "nat option"
  write_err :: gerr

definition f_Write :: "disk \<Rightarrow> string \<Rightarrow> string \<Rightarrow> gerr option \<times> string" where
  "f_Write d content p = (case room d of
     None \<Rightarrow> (None, content @ p)
   | Some n \<Rightarrow> if length content + length p \<le> n then (None, content @ p)
        else (Some (write_err d), content @ take (n - length content) p))"

text \<open>The \<open>bufio.Writer\<close>: its buffer, the file behind it and its sticky error.\<close>

definition fileBufferSize :: nat where
  "fileBufferSize = 100000"

record bufw =
  w_buf :: string
  w_file :: string
  w_err :: "gerr option"

definition bw_Flush :: "disk \<Rightarrow> bufw \<Rightarrow> bufw" where
  "bw_Flush d w =
     (if w_err w \<noteq> None \<or> w_buf w = [] then w
      else (case f_Write d (w_file w) (w_buf w) of
          (None, c) \<Rightarrow> w\<lparr>w_buf := [], w_file := c\<rparr>
        | (Some e, c) \<Rightarrow> w\<lparr>w_buf := drop (length c - length (w_file w)) (w_buf w), w_file := c,
             w_err := Some e\<rparr>))"

function bw_Write :: "disk \<Rightarrow> bufw \<Rightarrow> string \<Rightarrow> bufw" where
  "bw_Write d w p =
     (if w_err w \<noteq> None then w
      else if length p \<le> fileBufferSize - length (w_buf w) then w\<lparr>w_buf := w_buf w @ p\<rparr>
      else if w_buf w = [] then
        (case f_Write d (w_file w) p of (e, c) \<Rightarrow> w\<lparr>w_file := c, w_err := e\<rparr>)
      else (let n = fileBufferSize - length (w_buf w)
            in bw_Write d (bw_Flush d (w\<lparr>w_buf := w_buf w @ take n p\<rparr>)) (drop n p)))"
  by pat_completeness auto
termination
proof (relation "measure (\<lambda>(d, w, p). 2 * length p + (if w_err w = None \<and> w_buf w \<noteq> [] then 1 else 0))",
    goal_cases)
  case 1
  then show ?case by simp
next
  case (2 d w p x)
  let ?w = "w\<lparr>w_buf := w_buf w @ take x p\<rparr>"
  have "w_err (bw_Flush d ?w) = None \<longrightarrow> w_buf (bw_Flush d ?w) = []"
    using 2(1,3) by (auto simp: bw_Flush_def split: prod.splits option.splits)
  then show ?case using 2 by auto
qed

declare bw_Write.simps [simp del]

text \<open>
  The loop of \<open>dumpDB2File\<close> over the copied map, and the deferred flush, whose error is
  dropped. The result is the error and the content of the file afterwards.
\<close>

fun dump_loop :: "libs \<Rightarrow> disk \<Rightarrow> DB \<Rightarrow> bufw \<Rightarrow> gerr option \<times> bufw" where
  "dump_loop L d [] w = (None, w)"
| "dump_loop L d ((k, record) # db) w = (case marshal L record of
     Inl e \<Rightarrow> (Some (Wrap ''cannot marshal to json'' e), w)
   | Inr data \<Rightarrow> (let w' = bw_Write d w (data @ [nl]) in
       case w_err w' of
         Some e \<Rightarrow> (Some (Wrap ''cannot write to file'' e), w')
       | None \<Rightarrow> dump_loop L d db w'))"

definition dumpDB2File :: "libs \<Rightarrow> disk \<Rightarrow> DB \<Rightarrow> string \<Rightarrow> gerr option \<times> string" where
  "dumpDB2File L d db old = (case open_err d of
     Some e \<Rightarrow> (Some (Wrap ''cannot open file'' e), old)
   | None \<Rightarrow> (case dump_loop L d db \<lparr>w_buf = [], w_file = [], w_err = None\<rparr> of
       (err, w) \<Rightarrow> (err, w_file (bw_Flush d w))))"

section \<open>The storage\<close>

record File =
  mem :: Memory
  changed :: bool
  fshutdown :: bool
  fcontent :: string

definition File_New :: "libs \<Rightarrow> (gerr + string) src \<Rightarrow> gerr + reader \<Rightarrow> (gerr + File) outcome" where
  "File_New L g opened = (case readURLsFromFile L opened of
     Panic \<Rightarrow> Panic
   | Ret (Inl e) \<Rightarrow> Ret (Inl e)
   | Ret (Inr db) \<Rightarrow> Ret (Inr \<lparr>mem = (Memory_New g)\<lparr>DB := db\<rparr>, changed = False, fshutdown = False,
       fcontent = (case opened of Inl _ \<Rightarrow> [] | Inr r \<Rightarrow> r_data r)\<rparr>))"

definition shutting_down :: gerr where
  "shutting_down = Errmsg ''storage is shutting down''"

definition File_Store :: "File \<Rightarrow> URL \<Rightarrow> bool \<Rightarrow> string gret \<times> File" where
  "File_Store s url overwrite =
     (if fshutdown s then (([], Some shutting_down), s)
      else (case Memory_Store (mem s) url overwrite of
          ((_, Some e), m) \<Rightarrow> (([], Some (Wrap ''memory storage error'' e)), s\<lparr>mem := m\<rparr>)
        | ((_, None), m) \<Rightarrow> (([], None), s\<lparr>mem := m, changed := True\<rparr>)))"

definition File_StoreBatch :: "File \<Rightarrow> URL list \<Rightarrow> gerr option \<times> File" where
  "File_StoreBatch s urls =
     (if fshutdown s then (Some shutting_down, s)
      else (case Memory_StoreBatch (mem s) urls of
          (Some e, m) \<Rightarrow> (Some (Wrap ''memory storage error'' e), s\<lparr>mem := m\<rparr>)
        | (None, m) \<Rightarrow> (None, s\<lparr>mem := m, changed := True\<rparr>)))"

definition File_DeleteUserURLs :: "File \<Rightarrow> URL list \<Rightarrow> int gret \<times> File" where
  "File_DeleteUserURLs s urls =
     (if fshutdown s then ((0, Some shutting_down), s)
      else (case Memory_DeleteUserURLs (mem s) urls of
          ((_, Some e), m) \<Rightarrow> ((0, Some (Wrap ''memory storage error'' e)), s\<lparr>mem := m\<rparr>)
        | ((affected, None), m) \<Rightarrow> ((affected, None), s\<lparr>mem := m, changed := True\<rparr>)))"

definition persist :: "libs \<Rightarrow> disk \<Rightarrow> File \<Rightarrow> File" where
  "persist L d s =
     (if \<not> changed s then s
      else (case dumpDB2File L d (Memory_Dump (mem s)) (fcontent s) of
          (Some e, c) \<Rightarrow> s\<lparr>fcontent := c\<rparr>
        | (None, c) \<Rightarrow> s\<lparr>fcontent := c, changed := False\<rparr>))"

text \<open>
  The two ways out of the select of \<open>maintainPersistence\<close>: the timer, and \<open>Close\<close> or the end
  of the context, after which the loop ends.
\<close>

definition persist_tick :: "libs \<Rightarrow> disk \<Rightarrow> File \<Rightarrow> File" where
  "persist_tick L d s = persist L d s"

definition persist_stop :: "libs \<Rightarrow> disk \<Rightarrow> File \<Rightarrow> File" where
  "persist_stop L d s = persist L d (s\<lparr>fshutdown := True\<rparr>)"

definition file_storage :: "File Storage" where
  "file_storage = \<lparr>
     st_Get = (\<lambda>s k. (Memory_Get (mem s) k, s)),
     st_Store = File_Store,
     st_StoreBatch = File_StoreBatch,
     st_ListUserURLs = (\<lambda>s uid. (Memory_ListUserURLs (mem s) uid, s)),
     st_DeleteUserURLs = File_DeleteUserURLs,
     st_Ping = (\<lambda>s. (Memory_Ping (mem s), s)),
     st_Stats = (\<lambda>s. (Memory_Stats (mem s), s))\<rparr>"

section \<open>Reading back what was written\<close>

text \<open>
  What a record must satisfy to survive the file: its json text has no newline and
  decodes to it (\<open>json_ok\<close>), and the checks of \<open>NewURLRecordFromBytes\<close> accept it
  (\<open>record_check\<close> is the error they give).
\<close>

definition json_ok :: "libs \<Rightarrow> Record \<Rightarrow> bool" where
  "json_ok L r \<longleftrightarrow> (case marshal L r of Inl e \<Rightarrow> False
     | Inr d \<Rightarrow> nl \<notin> set d \<and> unmarshal L d = Inr (Some r))"

definition record_check :: "libs \<Rightarrow> Record \<Rightarrow> gerr option" where
  "record_check L r = (case uuidFromString L (UUID r) of
     Some e \<Rightarrow> Some (Wrap ''malformed uuid'' e)
   | None \<Rightarrow> (case urlParse L (OriginalURL r) of
       Inl e \<Rightarrow> Some (Wrap (''malformed url for '' @ UUID r) e)
     | Inr _ \<Rightarrow> map_option (Wrap (''malformed user id for '' @ RUserID r))
         (snd (NewFromUserID (uuidFromBytes L) (RUserID r)))))"

definition line_of :: "libs \<Rightarrow> Record \<Rightarrow> string" where
  "line_of L r = (case marshal L r of Inl e \<Rightarrow> [] | Inr d \<Rightarrow> d @ [nl])"

definition lines_of :: "libs \<Rightarrow> DB \<Rightarrow> string" where
  "lines_of L db = concat (map (\<lambda>(k, r). line_of L r) db)"

lemma lines_of_simps [simp]:
  "lines_of L [] = []" "lines_of L ((k, r) # db) = line_of L r @ lines_of L db"
  by (simp_all add: lines_of_def)

lemma NewURLRecordFromBytes_json:
  "unmarshal L d = Inr (Some r) \<Longrightarrow> NewURLRecordFromBytes L d =
     Ret (case record_check L r of Some e \<Rightarrow> Inl e | None \<Rightarrow> Inr r)"
  by (auto simp: NewURLRecordFromBytes_def record_check_def split: option.splits sum.splits prod.splits)

lemma ReadBytes_line:
  "nl \<notin> set d \<Longrightarrow> ReadBytes \<lparr>r_data = d @ nl # rest, r_err = e\<rparr> =
     ((d @ [nl], None), \<lparr>r_data = rest, r_err = e\<rparr>)"
  by (auto simp: ReadBytes_def takeWhile_append dropWhile_append)

lemma readURLFromLine_line:
  assumes "json_ok L r"
  shows "readURLFromLine L \<lparr>r_data = line_of L r @ rest, r_err = e\<rparr> =
     (Ret (case record_check L r of Some x \<Rightarrow> Inl (Wrap ''cannot parse url record'' x) | None \<Rightarrow> Inr r),
      \<lparr>r_data = rest, r_err = e\<rparr>)"
proof -
  obtain d where d: "marshal L r = Inr d" "nl \<notin> set d" "unmarshal L d = Inr (Some r)"
    using assms by (auto simp: json_ok_def split: sum.splits)
  then show ?thesis
    using ReadBytes_line [OF d(2), of rest e] NewURLRecordFromBytes_json [OF d(3)]
    by (auto simp: readURLFromLine_def line_of_def split: option.splits)
qed

lemma readURLFromLine_end:
  "readURLFromLine L \<lparr>r_data = [], r_err = e\<rparr> =
     (Ret (Inl (Wrap ''error while reading url from filestore'' e)), \<lparr>r_data = [], r_err = e\<rparr>)"
  by (simp add: readURLFromLine_def ReadBytes_def)

definition load :: "DB \<Rightarrow> DB \<Rightarrow> DB" where
  "load db acc = fold (\<lambda>(k, r). AList.update (ShortURL r) r) db acc"

lemma read_loop_lines:
  "\<forall>(k, r) \<in> set db. json_ok L r \<and> record_check L r = None \<Longrightarrow>
     read_loop L \<lparr>r_data = lines_of L db, r_err = Sentinel IoEOF\<rparr> acc = Ret (Inr (load db acc))"
proof (induction db arbitrary: acc)
  case Nil
  then show ?case by (simp add: read_loop.simps [of _ "\<lparr>r_data = [], r_err = _\<rparr>"] readURLFromLine_end load_def)
next
  case (Cons p db)
  obtain k r where p: "p = (k, r)" by (cases p)
  with Cons.prems have r: "json_ok L r" "record_check L r = None" by auto
  have "read_loop L \<lparr>r_data = line_of L r @ lines_of L db, r_err = Sentinel IoEOF\<rparr> acc =
      read_loop L \<lparr>r_data = lines_of L db, r_err = Sentinel IoEOF\<rparr> (AList.update (ShortURL r) r acc)"
    by (subst read_loop.simps) (simp add: readURLFromLine_line [OF r(1)] r(2))
  with Cons p show ?case by (simp add: load_def)
qed

text \<open>One bad record makes the whole file unreadable.\<close>

lemma read_loop_bad_record:
  assumes "\<forall>(k, r) \<in> set db. json_ok L r \<and>
      (\<forall>e. record_check L r = Some e \<longrightarrow> \<not> errors_is e (Sentinel IoEOF))"
    and "(k0, r0) \<in> set db" and "record_check L r0 \<noteq> None"
  shows "\<exists>e. read_loop L \<lparr>r_data = lines_of L db, r_err = Sentinel IoEOF\<rparr> acc = Ret (Inl e)"
  using assms
proof (induction db arbitrary: acc)
  case Nil
  then show ?case by simp
next
  case (Cons p db)
  obtain k r where p: "p = (k, r)" by (cases p)
  with Cons.prems have r: "json_ok L r" by auto
  show ?case
  proof (cases "record_check L r")
    case (Some e)
    with Cons.prems(1) p show ?thesis
      by (subst read_loop.simps) (auto simp: readURLFromLine_line [OF r])
  next
    case None
    with Cons.prems p have "(k0, r0) \<in> set db" by auto
    moreover from None have "read_loop L \<lparr>r_data = lines_of L (p # db), r_err = Sentinel IoEOF\<rparr> acc =
        read_loop L \<lparr>r_data = lines_of L db, r_err = Sentinel IoEOF\<rparr> (AList.update (ShortURL r) r acc)"
      by (subst read_loop.simps) (simp add: p readURLFromLine_line [OF r])
    ultimately show ?thesis using Cons by auto
  qed
qed

lemma map_of_load:
  "\<forall>(k, r) \<in> set db. ShortURL r = k \<Longrightarrow> keys_distinct db \<Longrightarrow> map_of (load db acc) = map_of acc ++ map_of db"
proof (induction db arbitrary: acc)
  case Nil
  then show ?case by (simp add: load_def)
next
  case (Cons p db)
  obtain k r where p: "p = (k, r)" by (cases p)
  then have "load (p # db) acc = load db (AList.update k r acc)"
    using Cons.prems by (simp add: load_def)
  with Cons p have "map_of (load (p # db) acc) = (map_of acc)(k \<mapsto> r) ++ map_of db" by simp
  moreover have "map_of db k = None" using Cons.prems p by simp
  ultimately show ?case using p
    by (auto simp: map_add_def fun_eq_iff split: option.splits)
qed

lemma load_inv: "db_inv acc \<Longrightarrow> db_inv (load db acc)"
proof (induction db arbitrary: acc)
  case Nil
  then show ?case by (simp add: load_def)
next
  case (Cons p db)
  then show ?case by (cases p) (simp add: load_def)
qed

section \<open>What a dump writes\<close>

lemma bw_Write_unlimited:
  "room d = None \<Longrightarrow> w_err w = None \<Longrightarrow>
     w_err (bw_Write d w p) = None \<and> w_file (bw_Write d w p) @ w_buf (bw_Write d w p) = w_file w @ w_buf w @ p"
proof (induction d w p rule: bw_Write.induct)
  case (1 d w p)
  let ?n = "fileBufferSize - length (w_buf w)"
  let ?w = "bw_Flush d (w\<lparr>w_buf := w_buf w @ take ?n p\<rparr>)"
  show ?case
  proof (cases "\<not> length p \<le> ?n \<and> w_buf w \<noteq> []")
    case True
    then have rec: "bw_Write d w p = bw_Write d ?w (drop ?n p)"
      using 1(3) by (subst bw_Write.simps) (simp add: Let_def)
    have w: "w_err ?w = None" "w_file ?w = w_file w @ w_buf w @ take ?n p" "w_buf ?w = []"
      using 1(2,3) True by (simp_all add: bw_Flush_def f_Write_def)
    then have "w_err (bw_Write d ?w (drop ?n p)) = None \<and>
        w_file (bw_Write d ?w (drop ?n p)) @ w_buf (bw_Write d ?w (drop ?n p))
          = w_file ?w @ w_buf ?w @ drop ?n p"
      using 1(1) [of ?n] True 1(2,3) by simp
    with w rec show ?thesis by simp
  next
    case False
    then show ?thesis using 1(2,3) by (subst (1 2 3) bw_Write.simps) (auto simp: f_Write_def)
  qed
qed

lemma dump_loop_unlimited:
  "\<forall>(k, r) \<in> set db. json_ok L r \<Longrightarrow> room d = None \<Longrightarrow> w_err w = None \<Longrightarrow>
     dump_loop L d db w = (e, w') \<Longrightarrow>
     e = None \<and> w_err w' = None \<and> w_file w' @ w_buf w' = w_file w @ w_buf w @ lines_of L db"
proof (induction db arbitrary: w)
  case Nil
  then show ?case by simp
next
  case (Cons p db)
  obtain k r where p: "p = (k, r)" by (cases p)
  with Cons.prems(1) obtain j where j: "marshal L r = Inr j"
    by (auto simp: json_ok_def split: sum.splits)
  from bw_Write_unlimited [OF Cons.prems(2,3), of "j @ [nl]"]
  have "w_err (bw_Write d w (j @ [nl])) = None"
      "w_file (bw_Write d w (j @ [nl])) @ w_buf (bw_Write d w (j @ [nl])) = w_file w @ w_buf w @ j @ [nl]"
    by simp_all
  with Cons p j show ?case by (simp add: line_of_def Let_def)
qed

lemma dump_unlimited:
  assumes "\<forall>(k, r) \<in> set db. json_ok L r" and "room d = None" and "open_err d = None"
  shows "dumpDB2File L d db old = (None, lines_of L db)"
proof -
  let ?w0 = "\<lparr>w_buf = [], w_file = [], w_err = None\<rparr>"
  obtain e w where w: "dump_loop L d db ?w0 = (e, w)" by (metis surj_pair)
  from dump_loop_unlimited [OF assms(1,2) _ w] have "e = None" "w_err w = None"
      "w_file w @ w_buf w = lines_of L db" by simp_all
  with w assms show ?thesis
    by (cases "w_buf w = []") (auto simp: dumpDB2File_def bw_Flush_def f_Write_def)
qed

section \<open>The contract\<close>

definition file_view :: "File \<Rightarrow> string \<rightharpoonup> entry" where
  "file_view s = mem_view (mem s)"

definition file_ok :: "File \<Rightarrow> bool" where
  "file_ok s \<longleftrightarrow> mem_inv (mem s)"

lemma shutting_down_foreign [simp]: "foreign_err shutting_down"
  by (simp add: shutting_down_def)

text \<open>
  The file storage passes every call to the memory storage, whose contract it inherits; a
  refused call during shutdown changes nothing.
\<close>

interpretation fil: url_storage file_storage file_view file_ok
proof (unfold_locales, goal_cases)
  case (1 s k r s')
  then show ?case
    by (auto simp: file_storage_def file_ok_def file_view_def Memory_Get_view)
next
  case (2 s u p s')
  then show ?case
    by (auto simp: file_storage_def file_ok_def file_view_def File_Store_def
        split: if_splits prod.splits option.splits elim!: Memory_Store_cases)
next
  case (3 s u p e s')
  then show ?case
    by (auto simp: file_storage_def file_ok_def file_view_def File_Store_def
        split: if_splits prod.splits option.splits elim!: Memory_Store_cases)
next
  case (4 s u p e s')
  then have "e = shutting_down \<or> (\<exists>x. e = Wrap ''memory storage error'' x \<and>
      (x = Sentinel ErrAlreadyExists \<or> foreign_err x))"
    by (auto simp: file_storage_def file_ok_def File_Store_def
        split: if_splits prod.splits option.splits elim!: Memory_Store_cases)
  then have "\<not> errors_is e (Sentinel ErrConflict)"
    using foreign_errD [of shutting_down ErrConflict] foreign_errD [of _ ErrConflict] by auto
  with 4 show ?case by simp
next
  case (5 s us s')
  then show ?case using mem.batch_law [of "mem s" us]
    by (auto simp: file_storage_def file_ok_def file_view_def File_StoreBatch_def memory_storage_def
        split: if_splits prod.splits option.splits)
next
  case (6 s us e s')
  then show ?case using mem.batch_err_law [of "mem s" us]
    by (auto simp: file_storage_def file_ok_def file_view_def File_StoreBatch_def memory_storage_def
        split: if_splits prod.splits option.splits)
next
  case (7 s uid us s' u)
  then show ?case using mem.list_law [of "mem s" uid us "mem s" u]
    by (auto simp: file_storage_def file_ok_def file_view_def memory_storage_def)
next
  case (8 s uid lr s')
  then show ?case by (auto simp: file_storage_def)
next
  case (9 s us r s')
  then show ?case using mem.delete_law [of "mem s" us]
    by (auto simp: file_storage_def file_ok_def file_view_def File_DeleteUserURLs_def memory_storage_def
        split: if_splits prod.splits option.splits)
qed (auto simp: file_storage_def)

section \<open>The file and the map\<close>

text \<open>
  The file holds the map: reading it gives the same lookups. The invariant of the storage,
  one operation at a time: unless \<open>changed\<close> is set, the file holds the map.
\<close>

definition synced :: "libs \<Rightarrow> File \<Rightarrow> bool" where
  "synced L s \<longleftrightarrow> (\<exists>db. readURLsFromFile L (Inr \<lparr>r_data = fcontent s, r_err = Sentinel IoEOF\<rparr>) = Ret (Inr db)
     \<and> db_inv db \<and> map_of db = map_of (DB (mem s)))"

definition file_inv :: "libs \<Rightarrow> File \<Rightarrow> bool" where
  "file_inv L s \<longleftrightarrow> mem_inv (mem s) \<and> (\<not> changed s \<longrightarrow> synced L s)"

definition healthy :: "disk \<Rightarrow> bool" where
  "healthy d \<longleftrightarrow> open_err d = None \<and> room d = None"

definition storable :: "libs \<Rightarrow> DB \<Rightarrow> bool" where
  "storable L db \<longleftrightarrow> (\<forall>(k, r) \<in> set db. json_ok L r \<and> record_check L r = None)"

lemma readURLs_lines:
  assumes "storable L db" and "db_inv db"
  shows "\<exists>db'. readURLsFromFile L (Inr \<lparr>r_data = lines_of L db, r_err = Sentinel IoEOF\<rparr>) = Ret (Inr db')
     \<and> db_inv db' \<and> map_of db' = map_of db"
proof -
  have "\<forall>(k, r) \<in> set db. ShortURL r = k"
    using assms(2) by (auto simp: db_inv_def map_of_in_set)
  then have "map_of (load db NewDB) = map_of db"
    using map_of_load [of db "[]"] assms(2) by (simp add: NewDB_def db_inv_def)
  moreover have "db_inv (load db NewDB)" by (simp add: load_inv NewDB_def)
  moreover have "read_loop L \<lparr>r_data = lines_of L db, r_err = Sentinel IoEOF\<rparr> NewDB = Ret (Inr (load db NewDB))"
    using assms(1) by (intro read_loop_lines) (simp add: storable_def)
  ultimately show ?thesis by (simp add: readURLsFromFile_def)
qed

lemma persist_healthy:
  assumes "file_inv L s" and "healthy d" and "storable L (DB (mem s))"
  shows "synced L (persist L d s) \<and> \<not> changed (persist L d s) \<and> mem (persist L d s) = mem s"
proof (cases "changed s")
  case False
  with assms(1) show ?thesis by (simp add: persist_def file_inv_def)
next
  case True
  have "dumpDB2File L d (DB (mem s)) (fcontent s) = (None, lines_of L (DB (mem s)))"
    using assms(2,3) by (intro dump_unlimited) (auto simp: healthy_def storable_def)
  with True have "persist L d s = s\<lparr>fcontent := lines_of L (DB (mem s)), changed := False\<rparr>"
    by (simp add: persist_def Memory_Dump_def)
  moreover have "db_inv (DB (mem s))" using assms(1) by (simp add: file_inv_def mem_inv_def)
  ultimately show ?thesis using readURLs_lines [OF assms(3)] by (simp add: synced_def)
qed

lemma persist_shutdown [simp]: "fshutdown (persist L d s) = fshutdown s"
  by (auto simp: persist_def split: prod.splits option.splits)

lemma File_Store_inv:
  assumes "file_inv L s" and "File_Store s u ow = (r, s')"
  shows "file_inv L s'"
proof (cases "fshutdown s")
  case True
  with assms show ?thesis by (simp add: File_Store_def)
next
  case False
  obtain mr m where m: "Memory_Store (mem s) u ow = (mr, m)" by (cases "Memory_Store (mem s) u ow")
  have inv: "mem_inv (mem s)" using assms(1) by (simp add: file_inv_def)
  show ?thesis
  proof (cases "snd mr")
    case None
    then have "s' = s\<lparr>mem := m, changed := True\<rparr>" using assms(2) m False
      by (auto simp: File_Store_def split: prod.splits option.splits)
    moreover have "mem_inv m" using m inv None by (auto elim!: Memory_Store_cases)
    ultimately show ?thesis by (simp add: file_inv_def)
  next
    case (Some e)
    then have "s' = s\<lparr>mem := m\<rparr>" using assms(2) m False
      by (auto simp: File_Store_def split: prod.splits option.splits)
    moreover have "mem_inv m" using m inv by (auto elim!: Memory_Store_cases)
    moreover have "DB m = DB (mem s)" using m Some
      by (auto simp: Memory_Store_def Let_def split: if_splits prod.splits sum.splits)
    ultimately show ?thesis using assms(1) by (simp add: file_inv_def synced_def)
  qed
qed

lemma File_StoreBatch_inv:
  assumes "file_inv L s" and "File_StoreBatch s us = (r, s')"
  shows "file_inv L s'"
proof (cases "fshutdown s")
  case True
  with assms show ?thesis by (simp add: File_StoreBatch_def)
next
  case False
  obtain e m where m: "Memory_StoreBatch (mem s) us = (e, m)" by (cases "Memory_StoreBatch (mem s) us")
  have inv: "mem_inv (mem s)" using assms(1) by (simp add: file_inv_def)
  then have "mem_inv m"
    using m mem.batch_law [of "mem s" us m] mem.batch_err_law [of "mem s" us _ m]
    by (cases e) (auto simp: memory_storage_def)
  moreover have "e \<noteq> None \<Longrightarrow> DB m = DB (mem s)" using m
    by (auto simp: Memory_StoreBatch_def split: prod.splits sum.splits)
  ultimately show ?thesis using assms m False
    by (auto simp: file_inv_def synced_def File_StoreBatch_def split: option.splits)
qed

lemma File_Delete_inv:
  assumes "file_inv L s" and "File_DeleteUserURLs s us = (r, s')"
  shows "file_inv L s'"
  using assms mem.delete_law [of "mem s" us]
  by (auto simp: file_inv_def File_DeleteUserURLs_def memory_storage_def Memory_DeleteUserURLs_def
      synced_def split: if_splits prod.splits)

section \<open>A disk that runs full\<close>

lemma bw_Write_buffered:
  "w_err w = None \<Longrightarrow> length (w_buf w) + length p \<le> fileBufferSize \<Longrightarrow>
     bw_Write d w p = w\<lparr>w_buf := w_buf w @ p\<rparr>"
  by (subst bw_Write.simps) simp

lemma dump_loop_buffered:
  "\<forall>(k, r) \<in> set db. json_ok L r \<Longrightarrow> w_err w = None \<Longrightarrow>
     length (w_buf w) + length (lines_of L db) \<le> fileBufferSize \<Longrightarrow>
     dump_loop L d db w = (None, w\<lparr>w_buf := w_buf w @ lines_of L db\<rparr>)"
proof (induction db arbitrary: w)
  case Nil
  then show ?case by simp
next
  case (Cons p db)
  obtain k r where p: "p = (k, r)" by (cases p)
  with Cons.prems(1) obtain j where j: "marshal L r = Inr j"
    by (auto simp: json_ok_def split: sum.splits)
  let ?w = "w\<lparr>w_buf := w_buf w @ j @ [nl]\<rparr>"
  have len: "length (w_buf w) + length (j @ [nl]) + length (lines_of L db) \<le> fileBufferSize"
    using Cons.prems(3) p j by (simp add: line_of_def)
  then have "bw_Write d w (j @ [nl]) = ?w" using Cons.prems(2) by (simp add: bw_Write_buffered)
  moreover have "dump_loop L d db ?w = (None, ?w\<lparr>w_buf := w_buf ?w @ lines_of L db\<rparr>)"
    using Cons.prems(1,2) len p by (intro Cons.IH) auto
  ultimately show ?case using Cons.prems(2) p j by (simp add: line_of_def Let_def)
qed

section \<open>Sample parameters\<close>

text \<open>
  Concrete libraries for the witnesses: the json text of a sample record is its short path;
  every uuid and every url but the empty one parses, and a user id has 16 bytes.
\<close>

definition sample_user :: string where
  "sample_user = b64_encode sample_uuid"

definition sample_record :: "string \<Rightarrow> Record" where
  "sample_record p = \<lparr>UUID = ''0001'', ShortURL = p, OriginalURL = ''http://a.b'', RUserID = sample_user,
     Deleted = False\<rparr>"

definition sample_libs :: libs where
  "sample_libs = \<lparr>
     marshal = (\<lambda>r. if r = sample_record (ShortURL r) then Inr (ShortURL r) else Inl (Errmsg ''sample'')),
     unmarshal = (\<lambda>d. if d = ''null'' then Inr None else Inr (Some (sample_record d))),
     uuidFromString = (\<lambda>_. None),
     uuidFromBytes = (\<lambda>b. if length b = 16 then None else Some (Errmsg ''length'')),
     urlParse = (\<lambda>u. if u = [] then Inl (Errmsg ''empty url'')
       else Inr \<lparr>Scheme = ''http'', url_Host = ''a.b'', url_String = u\<rparr>)\<rparr>"

lemma sample_record_ok:
  "nl \<notin> set p \<Longrightarrow> p \<noteq> ''null'' \<Longrightarrow> json_ok sample_libs (sample_record p) \<and>
     record_check sample_libs (sample_record p) = None"
proof -
  have "b64_decode sample_user = Some sample_uuid" unfolding sample_user_def
    by (rule b64_decode_encode) (simp add: sample_uuid_def)
  then have "snd (NewFromUserID (uuidFromBytes sample_libs) (RUserID (sample_record p))) = None"
    by (simp add: NewFromUserID_def sample_record_def sample_libs_def) (simp add: sample_uuid_def)
  then show "nl \<notin> set p \<Longrightarrow> p \<noteq> ''null'' \<Longrightarrow> json_ok sample_libs (sample_record p) \<and>
     record_check sample_libs (sample_record p) = None"
    by (simp add: json_ok_def record_check_def sample_libs_def) (simp add: sample_record_def)
qed

definition sample_url :: "string \<Rightarrow> URL" where
  "sample_url p = \<lparr>Short = p, Orig = ''http://a.b'', UserID = sample_user, TS = 0\<rparr>"

definition sample_file :: "bool \<Rightarrow> File" where
  "sample_file b = \<lparr>mem = \<lparr>DB = [(''ab'', sample_record ''ab'')], gen = (\<lambda>_. Inr ''0001'')\<rparr>,
     changed = b, fshutdown = False, fcontent = []\<rparr>"

definition sample_disk :: disk where
  "sample_disk = \<lparr>open_err = None, room = None, write_err = Errmsg ''no space''\<rparr>"

lemma sample_file_ok:
  "mem_inv (mem (sample_file b))" "file_inv sample_libs (sample_file True)"
  "storable sample_libs (DB (mem (sample_file b)))" "healthy sample_disk"
  using sample_record_ok [of "''ab''"]
  by (auto simp: sample_file_def mem_inv_def db_inv_def file_inv_def storable_def sample_disk_def healthy_def
      sample_record_def)

text \<open>Stopping on a healthy disk and opening the file again gives back the map.\<close>

lemma restart_mem:
  assumes "file_inv L s" and "healthy d" and "storable L (DB (mem s))" and "src_ok g"
  shows "\<exists>s'. File_New L g (Inr \<lparr>r_data = fcontent (persist_stop L d s), r_err = Sentinel IoEOF\<rparr>) = Ret (Inr s')
    \<and> file_view s' = file_view s \<and> file_inv L s' \<and> \<not> fshutdown s' \<and>
    map_of (DB (mem s')) = map_of (DB (mem s)) \<and> gen (mem s') = g"
proof -
  let ?s = "persist_stop L d s"
  have "file_inv L (s\<lparr>fshutdown := True\<rparr>)"
    using assms(1) by (simp add: file_inv_def synced_def)
  from persist_healthy [OF this assms(2)] assms(3)
  have "synced L ?s" "mem ?s = mem s" by (simp_all add: persist_stop_def)
  then obtain db where db: "db_inv db" "map_of db = map_of (DB (mem s))"
      "readURLsFromFile L (Inr \<lparr>r_data = fcontent ?s, r_err = Sentinel IoEOF\<rparr>) = Ret (Inr db)"
    by (auto simp: synced_def)
  let ?s' = "\<lparr>mem = (Memory_New g)\<lparr>DB := db\<rparr>, changed = False, fshutdown = False, fcontent = fcontent ?s\<rparr>"
  have "File_New L g (Inr \<lparr>r_data = fcontent ?s, r_err = Sentinel IoEOF\<rparr>) = Ret (Inr ?s')"
    by (simp add: File_New_def db(3))
  moreover have "file_view ?s' = file_view s"
    by (simp add: file_view_def mem_view_def db_view_def db(2) fun_eq_iff)
  moreover have "file_inv L ?s'"
    using db assms(4) by (auto simp: file_inv_def synced_def mem_inv_def Memory_New_def)
  moreover have "map_of (DB (mem ?s')) = map_of (DB (mem s))" "gen (mem ?s') = g" "\<not> fshutdown ?s'"
    by (simp_all add: db(2) Memory_New_def)
  ultimately show ?thesis by blast
qed

lemma restart_view:
  assumes "file_inv L s" and "healthy d" and "storable L (DB (mem s))" and "src_ok g"
  shows "\<exists>s'. File_New L g (Inr \<lparr>r_data = fcontent (persist_stop L d s), r_err = Sentinel IoEOF\<rparr>) = Ret (Inr s')
    \<and> file_view s' = file_view s \<and> file_inv L s' \<and> \<not> fshutdown s'"
  using restart_mem [OF assms] by blast

section \<open>Properties\<close>

text \<open>Restart round trip: when the storage is stopped on a healthy disk (by \<open>Close\<close>, or the end
  of its context) and its records can be stored, opening the file again gives a storage in which
  every path has the entry it had, and which again satisfies the storage invariant.\<close>

theorem file_restart_roundtrip:
  assumes "file_inv L s" and "healthy d" and "storable L (DB (mem s))" and "src_ok g"
  shows "\<exists>s'. File_New L g (Inr \<lparr>r_data = fcontent (persist_stop L d s), r_err = Sentinel IoEOF\<rparr>) = Ret (Inr s')
    \<and> file_view s' = file_view s \<and> file_inv L s' \<and> \<not> fshutdown s'"
  by (rule restart_view [OF assms])

theorem file_restart_roundtrip_witness:
  "\<exists>s'. File_New sample_libs (\<lambda>_. Inr ''0001'')
      (Inr \<lparr>r_data = fcontent (persist_stop sample_libs sample_disk (sample_file True)), r_err = Sentinel IoEOF\<rparr>)
      = Ret (Inr s') \<and> file_view s' = file_view (sample_file True) \<and> file_inv sample_libs s' \<and> \<not> fshutdown s'"
  by (rule file_restart_roundtrip) (simp_all add: sample_file_ok)

text \<open>C15. The invariant of the file storage, that the map in memory is well-formed and, unless \<open>changed\<close> is
  set, the file reads back to it, is kept by every store, batch and deletion, whatever is stored. A round of the
  persistence loop and its last round at a stop keep it on a healthy disk when the records in memory can be
  written and read back (without that, a saved file may not read back at all). Operations run one at a time.\<close>

theorem file_invariant:
  assumes "file_inv L s"
  shows "file_inv L (snd (File_Store s u ow)) \<and> file_inv L (snd (File_StoreBatch s us)) \<and>
    file_inv L (snd (File_DeleteUserURLs s us)) \<and>
    (healthy d \<and> storable L (DB (mem s)) \<longrightarrow> file_inv L (persist_tick L d s) \<and> file_inv L (persist_stop L d s))"
proof (intro conjI impI)
  show "file_inv L (snd (File_Store s u ow))" by (rule File_Store_inv [OF assms prod.collapse [symmetric]])
  show "file_inv L (snd (File_StoreBatch s us))" by (rule File_StoreBatch_inv [OF assms prod.collapse [symmetric]])
  show "file_inv L (snd (File_DeleteUserURLs s us))" by (rule File_Delete_inv [OF assms prod.collapse [symmetric]])
  assume h: "healthy d \<and> storable L (DB (mem s))"
  have inv: "mem_inv (mem s)" using assms by (simp add: file_inv_def)
  show "file_inv L (persist_tick L d s)"
    using persist_healthy [OF assms] h inv by (simp add: file_inv_def persist_tick_def)
  have "file_inv L (s\<lparr>fshutdown := True\<rparr>)" using assms by (simp add: file_inv_def synced_def)
  from persist_healthy [OF this, of d] h inv show "file_inv L (persist_stop L d s)"
    by (simp add: file_inv_def persist_stop_def)
qed

theorem file_invariant_witness:
  "file_inv sample_libs (snd (File_Store (sample_file True) (sample_url ''cd'') False)) \<and>
   file_inv sample_libs (persist_tick sample_libs sample_disk (sample_file True))"
  using file_invariant [of sample_libs "sample_file True" "sample_url ''cd''" False "[]" sample_disk]
    sample_file_ok by simp

text \<open>C36. A full disk goes unnoticed: when the whole dump fits the write buffer but not the disk, the
  error of the deferred flush is dropped. The storage takes the file for saved (\<open>changed\<close> is
  cleared) although the file holds only the bytes there was room for.\<close>

theorem file_full_disk_unnoticed:
  assumes "changed s" and "\<forall>(k, r) \<in> set (DB (mem s)). json_ok L r" and "open_err d = None"
    and "room d = Some n" and "n < length (lines_of L (DB (mem s)))"
    and "length (lines_of L (DB (mem s))) \<le> fileBufferSize"
  shows "\<not> changed (persist L d s) \<and> fcontent (persist L d s) = take n (lines_of L (DB (mem s))) \<and>
    fcontent (persist L d s) \<noteq> lines_of L (DB (mem s))"
proof -
  let ?l = "lines_of L (DB (mem s))"
  have "dump_loop L d (DB (mem s)) \<lparr>w_buf = [], w_file = [], w_err = None\<rparr> =
      (None, \<lparr>w_buf = ?l, w_file = [], w_err = None\<rparr>)"
    using dump_loop_buffered [OF assms(2), of "\<lparr>w_buf = [], w_file = [], w_err = None\<rparr>" d] assms(6)
    by simp
  moreover have "?l \<noteq> []" using assms(5) by auto
  ultimately have "dumpDB2File L d (DB (mem s)) (fcontent s) = (None, take n ?l)"
    using assms(3-5) by (simp add: dumpDB2File_def bw_Flush_def f_Write_def)
  moreover have "take n ?l \<noteq> ?l" using assms(5) by (auto dest: arg_cong [of _ _ length])
  ultimately show ?thesis using assms(1) by (simp add: persist_def Memory_Dump_def)
qed

theorem file_full_disk_unnoticed_witness:
  "\<not> changed (persist sample_libs (sample_disk\<lparr>room := Some 1\<rparr>) (sample_file True)) \<and>
   fcontent (persist sample_libs (sample_disk\<lparr>room := Some 1\<rparr>) (sample_file True)) = ''a''"
proof -
  have l: "lines_of sample_libs (DB (mem (sample_file True))) = ''ab'' @ [nl]"
    by (simp add: sample_file_def line_of_def sample_libs_def) (simp add: sample_record_def)
  have "json_ok sample_libs (sample_record ''ab'')" using sample_record_ok [of "''ab''"] by simp
  then show ?thesis
    using file_full_disk_unnoticed [of "sample_file True" sample_libs "sample_disk\<lparr>room := Some 1\<rparr>" 1] l
    by (simp add: fileBufferSize_def sample_disk_def) (simp add: sample_file_def)
qed

text \<open>One record that the parser rejects makes the whole storage fail to start: whatever else the
  file holds, and wherever the record stands in it.\<close>

theorem file_poisoned_record:
  assumes "\<forall>(k, r) \<in> set db. json_ok L r \<and>
      (\<forall>e. record_check L r = Some e \<longrightarrow> \<not> errors_is e (Sentinel IoEOF))"
    and "(k0, r0) \<in> set db" and "record_check L r0 \<noteq> None"
  shows "\<exists>e. File_New L g (Inr \<lparr>r_data = lines_of L db, r_err = Sentinel IoEOF\<rparr>) = Ret (Inl e)"
  using read_loop_bad_record [OF assms, of NewDB] by (auto simp: File_New_def readURLsFromFile_def)

definition broken_libs :: libs where
  "broken_libs = sample_libs\<lparr>urlParse := (\<lambda>_. Inl (Errmsg ''bad url''))\<rparr>"

theorem file_poisoned_record_witness:
  "\<exists>e. File_New broken_libs (\<lambda>_. Inr ''0001'') (Inr \<lparr>r_data = lines_of broken_libs [(''ab'', sample_record ''ab'')],
     r_err = Sentinel IoEOF\<rparr>) = Ret (Inl e)"
proof (rule file_poisoned_record [where ?k0.0 = "''ab''" and ?r0.0 = "sample_record ''ab''"])
  have "record_check broken_libs (sample_record ''ab'') = Some (Wrap (''malformed url for '' @ UUID (sample_record ''ab'')) (Errmsg ''bad url''))"
    by (simp add: record_check_def broken_libs_def sample_libs_def)
  moreover have "json_ok broken_libs (sample_record ''ab'')"
    using sample_record_ok [of "''ab''"]
    by (simp add: json_ok_def broken_libs_def split: sum.splits)
  ultimately show "\<forall>(k, r) \<in> set [(''ab'', sample_record ''ab'')]. json_ok broken_libs r \<and>
      (\<forall>e. record_check broken_libs r = Some e \<longrightarrow> \<not> errors_is e (Sentinel IoEOF))"
    "record_check broken_libs (sample_record ''ab'') \<noteq> None" by simp_all
qed simp

end
