(* ===== verification/FileRace.thy ===== *)
theory FileRace
  imports FileStore
begin

text \<open>
  The goroutines around the file storage of \<open>internal/storage/file/file.go\<close>: callers of
  \<open>Store\<close> and the persistence loop, with the atomic flags \<open>shutdown\<close> and \<open>changed\<close> read and
  written in steps of their own, as the code does outside the mutex.
\<close>

section \<open>Steps\<close>

text \<open>
  A caller has read \<open>shutdown\<close> as false, then has stored in memory, then sets \<open>changed\<close>. The
  persistence loop waits in its select, is about to read \<open>changed\<close>, to dump, or to clear
  \<open>changed\<close>; the flag of these states says whether it is the last round. \<open>Ended\<close> is after
  the loop.
\<close>

datatype wpc = WIdle | WChecked URL bool | WStored

datatype ppc = PSelect | PCheck bool | PDump bool | PClear bool | Ended

record fsystem =
  fstate :: File
  wpcs :: "nat \<Rightarrow> wpc"
  ppc :: ppc

datatype pevent = WCall nat URL bool | WMem nat | WFlag nat | PTick | PStop | PLoad | PWrite disk | PReset

definition after_round :: "bool \<Rightarrow> ppc" where
  "after_round final = (if final then Ended else PSelect)"

inductive pstep :: "libs \<Rightarrow> fsystem \<Rightarrow> pevent \<Rightarrow> fsystem \<Rightarrow> bool" for L where
  wcall_refused: "wpcs s i = WIdle \<Longrightarrow> fshutdown (fstate s) \<Longrightarrow> pstep L s (WCall i u ow) s"
| wcall: "wpcs s i = WIdle \<Longrightarrow> \<not> fshutdown (fstate s) \<Longrightarrow>
    pstep L s (WCall i u ow) (s\<lparr>wpcs := (wpcs s)(i := WChecked u ow)\<rparr>)"
| wmem_err: "wpcs s i = WChecked u ow \<Longrightarrow> Memory_Store (mem (fstate s)) u ow = ((p, Some e), m) \<Longrightarrow>
    pstep L s (WMem i) (s\<lparr>fstate := (fstate s)\<lparr>mem := m\<rparr>, wpcs := (wpcs s)(i := WIdle)\<rparr>)"
| wmem: "wpcs s i = WChecked u ow \<Longrightarrow> Memory_Store (mem (fstate s)) u ow = ((p, None), m) \<Longrightarrow>
    pstep L s (WMem i) (s\<lparr>fstate := (fstate s)\<lparr>mem := m\<rparr>, wpcs := (wpcs s)(i := WStored)\<rparr>)"
| wflag: "wpcs s i = WStored \<Longrightarrow>
    pstep L s (WFlag i) (s\<lparr>fstate := (fstate s)\<lparr>changed := True\<rparr>, wpcs := (wpcs s)(i := WIdle)\<rparr>)"
| ptick: "ppc s = PSelect \<Longrightarrow> pstep L s PTick (s\<lparr>ppc := PCheck False\<rparr>)"
| pstop: "ppc s = PSelect \<Longrightarrow>
    pstep L s PStop (s\<lparr>fstate := (fstate s)\<lparr>fshutdown := True\<rparr>, ppc := PCheck True\<rparr>)"
| pload_clean: "ppc s = PCheck b \<Longrightarrow> \<not> changed (fstate s) \<Longrightarrow> pstep L s PLoad (s\<lparr>ppc := after_round b\<rparr>)"
| pload: "ppc s = PCheck b \<Longrightarrow> changed (fstate s) \<Longrightarrow> pstep L s PLoad (s\<lparr>ppc := PDump b\<rparr>)"
| pwrite_err: "ppc s = PDump b \<Longrightarrow>
    dumpDB2File L d (Memory_Dump (mem (fstate s))) (fcontent (fstate s)) = (Some e, c) \<Longrightarrow>
    pstep L s (PWrite d) (s\<lparr>fstate := (fstate s)\<lparr>fcontent := c\<rparr>, ppc := after_round b\<rparr>)"
| pwrite: "ppc s = PDump b \<Longrightarrow>
    dumpDB2File L d (Memory_Dump (mem (fstate s))) (fcontent (fstate s)) = (None, c) \<Longrightarrow>
    pstep L s (PWrite d) (s\<lparr>fstate := (fstate s)\<lparr>fcontent := c\<rparr>, ppc := PClear b\<rparr>)"
| preset: "ppc s = PClear b \<Longrightarrow>
    pstep L s PReset (s\<lparr>fstate := (fstate s)\<lparr>changed := False\<rparr>, ppc := after_round b\<rparr>)"

inductive psteps :: "libs \<Rightarrow> fsystem \<Rightarrow> fsystem \<Rightarrow> bool" for L where
  refl: "psteps L s s"
| next_step: "psteps L s t \<Longrightarrow> pstep L t e u \<Longrightarrow> psteps L s u"

definition pinit :: "File \<Rightarrow> fsystem" where
  "pinit f = \<lparr>fstate = f, wpcs = (\<lambda>_. WIdle), ppc = PSelect\<rparr>"

lemma psteps_trans: "psteps L s t \<Longrightarrow> psteps L t u \<Longrightarrow> psteps L s u"
  by (rotate_tac, induction rule: psteps.induct) (auto intro: psteps.intros)

lemma psteps_one: "pstep L s e t \<Longrightarrow> psteps L s t"
  by (rule psteps.next_step [OF psteps.refl])

text \<open>Runs with the list of their steps.\<close>

inductive ppath :: "libs \<Rightarrow> pevent list \<Rightarrow> fsystem \<Rightarrow> fsystem \<Rightarrow> bool" for L where
  nil: "ppath L [] s s"
| cons: "pstep L s e t \<Longrightarrow> ppath L es t u \<Longrightarrow> ppath L (e # es) s u"

lemma ppath_append: "ppath L es s t \<Longrightarrow> ppath L fs t u \<Longrightarrow> ppath L (es @ fs) s u"
  by (induction rule: ppath.induct) (auto intro: ppath.intros)

lemma ppath_psteps: "ppath L es s t \<Longrightarrow> psteps L s t"
  by (induction rule: ppath.induct) (auto intro: psteps_trans psteps_one psteps.refl)

section \<open>One operation at a time\<close>

text \<open>
  With no step of the other in between, the steps of a caller are \<^const>\<open>File_Store\<close> and
  those of a round of the loop are \<^const>\<open>persist_tick\<close> or \<^const>\<open>persist_stop\<close>.
\<close>

lemma round_is_persist:
  assumes "ppc s = PSelect"
  shows "psteps L s (s\<lparr>fstate := persist_tick L d (fstate s)\<rparr>)"
    and "psteps L s (s\<lparr>fstate := persist_stop L d (fstate s), ppc := Ended\<rparr>)"
proof -
  have round: "psteps L t (t\<lparr>fstate := persist L d (fstate t), ppc := after_round b\<rparr>)"
    if "ppc t = PCheck b" for t b
  proof (cases "changed (fstate t)")
    case False
    then show ?thesis using psteps_one [OF pstep.pload_clean [OF that]]
      by (simp add: persist_def)
  next
    case True
    let ?t = "t\<lparr>ppc := PDump b\<rparr>"
    obtain e c where c: "dumpDB2File L d (Memory_Dump (mem (fstate t))) (fcontent (fstate t)) = (e, c)"
      by (metis surj_pair)
    have 1: "psteps L t ?t" using pstep.pload [OF that True] by (rule psteps_one)
    show ?thesis
    proof (cases e)
      case (Some x)
      then have "pstep L ?t (PWrite d) (?t\<lparr>fstate := (fstate ?t)\<lparr>fcontent := c\<rparr>, ppc := after_round b\<rparr>)"
        using c by (intro pstep.pwrite_err) auto
      then show ?thesis using psteps.next_step [OF 1] c True Some by (simp add: persist_def)
    next
      case None
      let ?u = "?t\<lparr>fstate := (fstate ?t)\<lparr>fcontent := c\<rparr>, ppc := PClear b\<rparr>"
      have "pstep L ?t (PWrite d) ?u" using c None by (intro pstep.pwrite) auto
      moreover have "pstep L ?u PReset (?u\<lparr>fstate := (fstate ?u)\<lparr>changed := False\<rparr>, ppc := after_round b\<rparr>)"
        by (intro pstep.preset) simp
      ultimately show ?thesis using psteps.next_step [OF psteps.next_step [OF 1]] c True None
        by (simp add: persist_def)
    qed
  qed
  let ?t = "s\<lparr>ppc := PCheck False\<rparr>" and ?u = "s\<lparr>fstate := (fstate s)\<lparr>fshutdown := True\<rparr>, ppc := PCheck True\<rparr>"
  have "psteps L s (?t\<lparr>fstate := persist L d (fstate ?t), ppc := after_round False\<rparr>)"
    using psteps_trans [OF psteps_one [OF pstep.ptick [OF assms]] round [of ?t False]] by simp
  moreover have "?t\<lparr>fstate := persist L d (fstate ?t), ppc := after_round False\<rparr> = s\<lparr>fstate := persist_tick L d (fstate s)\<rparr>"
    using assms by (cases s) (simp add: persist_tick_def after_round_def)
  ultimately show "psteps L s (s\<lparr>fstate := persist_tick L d (fstate s)\<rparr>)" by simp
  have "psteps L s (?u\<lparr>fstate := persist L d (fstate ?u), ppc := after_round True\<rparr>)"
    using psteps_trans [OF psteps_one [OF pstep.pstop [OF assms]] round [of ?u True]] by simp
  then show "psteps L s (s\<lparr>fstate := persist_stop L d (fstate s), ppc := Ended\<rparr>)"
    by (simp add: persist_stop_def after_round_def)
qed

lemma caller_is_Store:
  assumes "wpcs s i = WIdle" and "File_Store (fstate s) u ow = (r, f)"
  shows "psteps L s (s\<lparr>fstate := f\<rparr>)"
proof (cases "fshutdown (fstate s)")
  case True
  then have "f = fstate s" using assms(2) by (simp add: File_Store_def)
  then have "s\<lparr>fstate := f\<rparr> = s" by (cases s) simp
  then show ?thesis by (simp add: psteps.refl)
next
  case False
  let ?t = "s\<lparr>wpcs := (wpcs s)(i := WChecked u ow)\<rparr>"
  obtain p e m where m: "Memory_Store (mem (fstate s)) u ow = ((p, e), m)" by (metis surj_pair)
  have 1: "psteps L s ?t" using pstep.wcall [OF assms(1) False] by (rule psteps_one)
  have w: "(wpcs s)(i := WIdle) = wpcs s" using assms(1) by auto
  show ?thesis
  proof (cases e)
    case (Some x)
    have "pstep L ?t (WMem i) (?t\<lparr>fstate := (fstate ?t)\<lparr>mem := m\<rparr>, wpcs := (wpcs ?t)(i := WIdle)\<rparr>)"
      using m Some by (intro pstep.wmem_err [of _ _ u ow p x]) auto
    then show ?thesis using psteps.next_step [OF 1] assms m Some False w
      by (auto simp: File_Store_def)
  next
    case None
    let ?u = "?t\<lparr>fstate := (fstate ?t)\<lparr>mem := m\<rparr>, wpcs := (wpcs ?t)(i := WStored)\<rparr>"
    have "pstep L ?t (WMem i) ?u" using m None by (intro pstep.wmem [of _ _ u ow p]) auto
    moreover have "pstep L ?u (WFlag i) (?u\<lparr>fstate := (fstate ?u)\<lparr>changed := True\<rparr>, wpcs := (wpcs ?u)(i := WIdle)\<rparr>)"
      by (intro pstep.wflag) simp
    ultimately show ?thesis using psteps.next_step [OF psteps.next_step [OF 1]] assms m None False w
      by (auto simp: File_Store_def)
  qed
qed

lemma store_path:
  assumes "wpcs s i = WIdle" and "\<not> fshutdown (fstate s)"
    and "Memory_Store (mem (fstate s)) u ow = ((p, None), m)"
  shows "ppath L [WCall i u ow, WMem i, WFlag i] s (s\<lparr>fstate := (fstate s)\<lparr>mem := m, changed := True\<rparr>\<rparr>)"
proof -
  let ?t = "s\<lparr>wpcs := (wpcs s)(i := WChecked u ow)\<rparr>"
  let ?u = "?t\<lparr>fstate := (fstate ?t)\<lparr>mem := m\<rparr>, wpcs := (wpcs ?t)(i := WStored)\<rparr>"
  let ?v = "?u\<lparr>fstate := (fstate ?u)\<lparr>changed := True\<rparr>, wpcs := (wpcs ?u)(i := WIdle)\<rparr>"
  have call: "pstep L s (WCall i u ow) ?t" by (rule pstep.wcall [OF assms(1,2)])
  have memo: "pstep L ?t (WMem i) ?u" using assms(3) by (intro pstep.wmem [of _ _ u ow p]) auto
  have flag: "pstep L ?u (WFlag i) ?v" by (intro pstep.wflag) simp
  have "ppath L [WCall i u ow, WMem i, WFlag i] s ?v"
    by (intro ppath.cons [OF call] ppath.cons [OF memo] ppath.cons [OF flag] ppath.nil)
  moreover have "?v = s\<lparr>fstate := (fstate s)\<lparr>mem := m, changed := True\<rparr>\<rparr>" using assms(1) by (cases s) auto
  ultimately show ?thesis by (simp only:)
qed

text \<open>A caller stores between the write of the dump and the reset of the flag; then the loop is stopped.\<close>

definition lost_update :: "URL \<Rightarrow> disk \<Rightarrow> URL \<Rightarrow> pevent list" where
  "lost_update u1 d u2 = [WCall 0 u1 False, WMem 0, WFlag 0, PTick, PLoad, PWrite d,
     WCall 1 u2 False, WMem 1, WFlag 1, PReset, PStop, PLoad]"

lemma lost_update_run:
  assumes "\<not> fshutdown f" and "Memory_Store (mem f) u1 False = ((p1, None), m1)"
    and "Memory_Store m1 u2 False = ((p2, None), m2)" and "dumpDB2File L d (DB m1) (fcontent f) = (None, c)"
  shows "ppath L (lost_update u1 d u2) (pinit f)
    \<lparr>fstate = f\<lparr>fcontent := c, mem := m2, changed := False, fshutdown := True\<rparr>, wpcs = (\<lambda>_. WIdle), ppc = Ended\<rparr>"
proof -
  define f1 where "f1 = f\<lparr>mem := m1, changed := True\<rparr>"
  define f2 where "f2 = f1\<lparr>fcontent := c\<rparr>"
  define f3 where "f3 = f2\<lparr>mem := m2, changed := True\<rparr>"
  define f4 where "f4 = f3\<lparr>changed := False\<rparr>"
  define f5 where "f5 = f4\<lparr>fshutdown := True\<rparr>"
  let ?s = "\<lambda>f pc. \<lparr>fstate = f, wpcs = (\<lambda>_. WIdle), ppc = pc\<rparr>"
  have first: "ppath L [WCall 0 u1 False, WMem 0, WFlag 0] (pinit f) (?s f1 PSelect)"
    using store_path [of "pinit f" 0 u1 False p1 m1 L] assms(1,2) by (simp add: pinit_def f1_def)
  have second: "ppath L [WCall 1 u2 False, WMem 1, WFlag 1] (?s f2 (PClear False)) (?s f3 (PClear False))"
    using store_path [of "?s f2 (PClear False)" 1 u2 False p2 m2 L] assms(1,3) by (simp add: f1_def f2_def f3_def)
  have tick: "pstep L (?s f1 PSelect) PTick (?s f1 (PCheck False))"
    using pstep.ptick [of "?s f1 PSelect" L] by simp
  have load: "pstep L (?s f1 (PCheck False)) PLoad (?s f1 (PDump False))"
    using pstep.pload [of "?s f1 (PCheck False)" False L] by (simp add: f1_def)
  have wr: "pstep L (?s f1 (PDump False)) (PWrite d) (?s f2 (PClear False))"
    using pstep.pwrite [of "?s f1 (PDump False)" False L d] assms(4)
    by (simp add: f1_def f2_def Memory_Dump_def)
  have reset: "pstep L (?s f3 (PClear False)) PReset (?s f4 PSelect)"
    using pstep.preset [of "?s f3 (PClear False)" False L] by (simp add: after_round_def f4_def)
  have stop: "pstep L (?s f4 PSelect) PStop (?s f5 (PCheck True))"
    using pstep.pstop [of "?s f4 PSelect" L] by (simp add: f5_def)
  have clean: "pstep L (?s f5 (PCheck True)) PLoad (?s f5 Ended)"
    using pstep.pload_clean [of "?s f5 (PCheck True)" True L] by (simp add: after_round_def f4_def f5_def)
  have a: "ppath L [PTick, PLoad, PWrite d] (?s f1 PSelect) (?s f2 (PClear False))"
    by (intro ppath.cons [OF tick] ppath.cons [OF load] ppath.cons [OF wr] ppath.nil)
  have b: "ppath L [PReset, PStop, PLoad] (?s f3 (PClear False)) (?s f5 Ended)"
    by (intro ppath.cons [OF reset] ppath.cons [OF stop] ppath.cons [OF clean] ppath.nil)
  have "f5 = f\<lparr>fcontent := c, mem := m2, changed := False, fshutdown := True\<rparr>"
    by (simp add: f5_def f4_def f3_def f2_def f1_def)
  with ppath_append [OF ppath_append [OF ppath_append [OF first a] second] b] show ?thesis
    by (simp add: lost_update_def)
qed

section \<open>Properties\<close>

text \<open>C31. An acknowledged url can be lost by the persistence loop, and the race alone is the cause. In the
  run \<open>lost_update u1 d u2\<close> a caller stores \<open>u1\<close>, the loop dumps it to the healthy disk \<open>d\<close> in the
  only write of the run, a second caller stores \<open>u2\<close> and sets \<open>changed\<close> before the loop resets the
  flag, and then the loop is stopped and makes its last round. Both stores have succeeded and every
  caller has returned, the loop has ended with \<open>changed\<close> cleared, the storage still answers the
  second url, the file is the complete dump of the first round, and reading it back gives a map
  without the second url.\<close>

theorem file_lost_update:
  assumes "mem_inv (mem f)" and "\<not> fshutdown f" and "healthy d"
    and "Memory_Store (mem f) u1 False = ((p1, None), m1)"
    and "Memory_Store m1 u2 False = ((p2, None), m2)" and "storable L (DB m1)"
  shows "\<exists>t db. ppath L [WCall 0 u1 False, WMem 0, WFlag 0, PTick, PLoad, PWrite d,
      WCall 1 u2 False, WMem 1, WFlag 1, PReset, PStop, PLoad] (pinit f) t \<and>
    ppc t = Ended \<and> wpcs t = (\<lambda>_. WIdle) \<and> \<not> changed (fstate t) \<and>
    file_view (fstate t) (Short u2) = Some (url_entry u2) \<and>
    dumpDB2File L d (DB m1) (fcontent f) = (None, fcontent (fstate t)) \<and>
    readURLsFromFile L (Inr \<lparr>r_data = fcontent (fstate t), r_err = Sentinel IoEOF\<rparr>) = Ret (Inr db) \<and>
    \<not> live (db_view db (Short u2))"
proof -
  define f5 where "f5 = f\<lparr>fcontent := lines_of L (DB m1), mem := m2, changed := False, fshutdown := True\<rparr>"
  let ?t = "\<lparr>fstate = f5, wpcs = (\<lambda>_. WIdle), ppc = Ended\<rparr>"
  have inv1: "mem_inv m1" using assms(1,4) by (auto elim!: Memory_Store_cases)
  have view2: "mem_view m2 (Short u2) = Some (url_entry u2)" and free: "\<not> live (mem_view m1 (Short u2))"
    using inv1 assms(5) by (auto elim!: Memory_Store_cases)
  have dump: "dumpDB2File L d (DB m1) (fcontent f) = (None, lines_of L (DB m1))"
    using assms(3,6) by (intro dump_unlimited) (auto simp: healthy_def storable_def)
  from lost_update_run [OF assms(2,4,5) this] have "ppath L (lost_update u1 d u2) (pinit f) ?t" by (simp add: f5_def)
  moreover have "\<not> changed f5" "file_view f5 (Short u2) = Some (url_entry u2)" "fcontent f5 = lines_of L (DB m1)"
    using view2 by (simp_all add: f5_def file_view_def)
  moreover obtain db where "readURLsFromFile L (Inr \<lparr>r_data = lines_of L (DB m1), r_err = Sentinel IoEOF\<rparr>)
      = Ret (Inr db)" "map_of db = map_of (DB m1)"
    using readURLs_lines [OF assms(6)] inv1 by (auto simp: mem_inv_def)
  moreover from this free have "\<not> live (db_view db (Short u2))"
    by (simp add: mem_view_def db_view_def)
  ultimately show ?thesis unfolding lost_update_def using dump
    by (intro exI [of _ ?t] exI [of _ db]) simp
qed

theorem file_lost_update_witness:
  "\<exists>es t db. ppath sample_libs es (pinit (sample_file False)) t \<and> ppc t = Ended \<and> \<not> changed (fstate t) \<and>
    file_view (fstate t) ''ef'' = Some (url_entry (sample_url ''ef'')) \<and>
    readURLsFromFile sample_libs (Inr \<lparr>r_data = fcontent (fstate t), r_err = Sentinel IoEOF\<rparr>) = Ret (Inr db) \<and>
    \<not> live (db_view db ''ef'')"
proof -
  let ?r1 = "Memory_Store (mem (sample_file False)) (sample_url ''cd'') False"
  let ?r2 = "Memory_Store (snd ?r1) (sample_url ''ef'') False"
  have f: "fst ?r1 = ([], None)" "fst ?r2 = ([], None)"
    and db: "DB (snd ?r1) = [(''ab'', sample_record ''ab''), (''cd'', sample_record ''cd'')]" by code_simp+
  have r: "?r1 = (([], None), snd ?r1)" "?r2 = (([], None), snd ?r2)"
    using f by (metis prod.collapse)+
  have "storable sample_libs (DB (snd ?r1))"
    using sample_record_ok [of "''ab''"] sample_record_ok [of "''cd''"] by (simp add: db storable_def)
  moreover have "\<not> fshutdown (sample_file False)" by (simp add: sample_file_def)
  ultimately show ?thesis
    using file_lost_update [OF sample_file_ok(1) _ sample_file_ok(4) r] by (auto simp: sample_url_def) blast
qed

end
