(* ===== verification/Flusher.thy ===== *)
theory Flusher
  imports Goerr
begin

text \<open>
  The delayed batch queue of \<open>internal/buffer/buffer.go\<close>: its fields and operations run
  one at a time, then the system of goroutines around it (any number of callers of
  \<open>Push\<close> and the goroutine of \<open>Run\<close>) as a step relation, with the mutex, the fill channel
  and the cancellation of the context explicit.
\<close>

section \<open>The queue and its operations\<close>

text \<open>
  \<open>fillChan\<close> is the number of tokens in the channel, whose capacity is one. The counter
  \<open>size\<close> is written and never read.
\<close>

record 'a Flusher =
  shutdown :: bool
  flushNeed :: bool
  fillChan :: nat
  buf :: "'a list"
  size :: int
  flushSize :: int
  allocSize :: int
  flushInterval :: int

record FlusherConfig =
  FlushInterval :: int
  FlushSize :: int
  AllocSize :: int

text \<open>\<open>make\<close> with a negative capacity panics, which is \<^const>\<open>None\<close>.\<close>

definition NewFlusher :: "FlusherConfig \<Rightarrow> 'a Flusher option" where
  "NewFlusher cfg = (if AllocSize cfg < 0 then None else Some \<lparr>
     shutdown = False, flushNeed = False, fillChan = 0, buf = [], size = 0,
     flushSize = FlushSize cfg, allocSize = AllocSize cfg, flushInterval = FlushInterval cfg\<rparr>)"

definition fillCap :: nat where
  "fillCap = 1"

text \<open>
  The part of \<open>Push\<close> under the lock up to the send: the new queue, and whether a token is
  to be sent.
\<close>

definition push_body :: "'a Flusher \<Rightarrow> 'a \<Rightarrow> 'a Flusher \<times> bool" where
  "push_body s elem =
     (let s1 = s\<lparr>size := size s + 1, buf := buf s @ [elem]\<rparr>
      in (s1, flushSize s1 \<le> int (length (buf s1)) \<and> \<not> flushNeed s1))"

definition push_send :: "'a Flusher \<Rightarrow> 'a Flusher" where
  "push_send s = s\<lparr>fillChan := fillChan s + 1, flushNeed := True\<rparr>"

text \<open>
  A whole call of \<open>Push\<close> with no other goroutine in between: the error it returns and the
  queue after it, or \<^const>\<open>None\<close> when the send on the full channel blocks.
\<close>

definition Push :: "'a Flusher \<Rightarrow> 'a \<Rightarrow> (gerr option \<times> 'a Flusher) option" where
  "Push s elem =
     (if shutdown s then Some (Some (Errmsg ''flusher is shutting down''), s)
      else (case push_body s elem of
          (s1, False) \<Rightarrow> Some (None, s1)
        | (s1, True) \<Rightarrow>
            (if fillChan s1 < fillCap then Some (None, push_send s1) else None)))"

text \<open>\<open>doFlush\<close>: the batch handed to the flush function, if any, and the queue after it.\<close>

definition doFlush :: "'a Flusher \<Rightarrow> 'a list option \<times> 'a Flusher" where
  "doFlush s =
     (if buf s = [] then (None, s\<lparr>flushNeed := False\<rparr>)
      else (Some (buf s), s\<lparr>buf := [], flushNeed := False\<rparr>))"

section \<open>The goroutines\<close>

text \<open>
  A caller of \<open>Push\<close> is idle, has read \<open>shutdown\<close> as false and waits for the lock, or
  holds the lock and waits to send. The \<open>Run\<close> goroutine waits in its \<open>select\<close>, waits for
  the lock of a flush (a regular or the final one), or has returned. \<open>flushed\<close> records the
  calls of the flush function (the batch, and whether the context passed was cancelled),
  \<open>accepted\<close> the elements appended to the queue so far.
\<close>

datatype 'a pushpc = Idle | Loaded 'a | Sending 'a

datatype runpc = InSelect | Flush | FinalFlush | Stopped

record 'a fsys =
  fl :: "'a Flusher"
  owner :: "nat option"
  pcs :: "nat \<Rightarrow> 'a pushpc"
  rpc :: runpc
  cancelled :: bool
  accepted :: "'a list"
  flushed :: "('a list \<times> bool) list"

datatype 'a fevent =
    Call nat 'a | Enter nat | Send nat
  | Token | Timer | CtxDone | DoFlush | DoFinal | Cancel

definition run_flush :: "'a fsys \<Rightarrow> 'a fsys" where
  "run_flush s = (case doFlush (fl s) of
     (None, f) \<Rightarrow> s\<lparr>fl := f\<rparr>
   | (Some b, f) \<Rightarrow> s\<lparr>fl := f, flushed := flushed s @ [(b, cancelled s)]\<rparr>)"

inductive fstep :: "'a fsys \<Rightarrow> 'a fevent \<Rightarrow> 'a fsys \<Rightarrow> bool" where
  call_err: "pcs s i = Idle \<Longrightarrow> shutdown (fl s) \<Longrightarrow> fstep s (Call i x) s"
| call_ok: "pcs s i = Idle \<Longrightarrow> \<not> shutdown (fl s) \<Longrightarrow>
    fstep s (Call i x) (s\<lparr>pcs := (pcs s)(i := Loaded x)\<rparr>)"
| enter_ret: "pcs s i = Loaded x \<Longrightarrow> owner s = None \<Longrightarrow> push_body (fl s) x = (f, False) \<Longrightarrow>
    fstep s (Enter i) (s\<lparr>fl := f, pcs := (pcs s)(i := Idle), accepted := accepted s @ [x]\<rparr>)"
| enter_send: "pcs s i = Loaded x \<Longrightarrow> owner s = None \<Longrightarrow> push_body (fl s) x = (f, True) \<Longrightarrow>
    fstep s (Enter i) (s\<lparr>fl := f, owner := Some i, pcs := (pcs s)(i := Sending x),
      accepted := accepted s @ [x]\<rparr>)"
| send: "pcs s i = Sending x \<Longrightarrow> fillChan (fl s) < fillCap \<Longrightarrow>
    fstep s (Send i) (s\<lparr>fl := push_send (fl s), owner := None, pcs := (pcs s)(i := Idle)\<rparr>)"
| token: "rpc s = InSelect \<Longrightarrow> 0 < fillChan (fl s) \<Longrightarrow>
    fstep s Token (s\<lparr>fl := (fl s)\<lparr>fillChan := fillChan (fl s) - 1\<rparr>, rpc := Flush\<rparr>)"
| timer: "rpc s = InSelect \<Longrightarrow> fstep s Timer (s\<lparr>rpc := Flush\<rparr>)"
| ctx_done: "rpc s = InSelect \<Longrightarrow> cancelled s \<Longrightarrow>
    fstep s CtxDone (s\<lparr>fl := (fl s)\<lparr>shutdown := True\<rparr>, rpc := FinalFlush\<rparr>)"
| do_flush: "rpc s = Flush \<Longrightarrow> owner s = None \<Longrightarrow>
    fstep s DoFlush ((run_flush s)\<lparr>rpc := InSelect\<rparr>)"
| do_final: "rpc s = FinalFlush \<Longrightarrow> owner s = None \<Longrightarrow>
    fstep s DoFinal ((run_flush s)\<lparr>rpc := Stopped\<rparr>)"
| cancel: "fstep s Cancel (s\<lparr>cancelled := True\<rparr>)"

text \<open>The same steps as a function, to run them on a concrete sequence of events.\<close>

fun fnext :: "'a fsys \<Rightarrow> 'a fevent \<Rightarrow> 'a fsys option" where
  "fnext s (Call i x) = (case pcs s i of
     Idle \<Rightarrow> Some (if shutdown (fl s) then s else s\<lparr>pcs := (pcs s)(i := Loaded x)\<rparr>)
   | _ \<Rightarrow> None)"
| "fnext s (Enter i) = (case (pcs s i, owner s) of
     (Loaded x, None) \<Rightarrow> (case push_body (fl s) x of
         (f, False) \<Rightarrow> Some (s\<lparr>fl := f, pcs := (pcs s)(i := Idle), accepted := accepted s @ [x]\<rparr>)
       | (f, True) \<Rightarrow> Some (s\<lparr>fl := f, owner := Some i, pcs := (pcs s)(i := Sending x),
            accepted := accepted s @ [x]\<rparr>))
   | _ \<Rightarrow> None)"
| "fnext s (Send i) = (case pcs s i of
     Sending x \<Rightarrow> (if fillChan (fl s) < fillCap
        then Some (s\<lparr>fl := push_send (fl s), owner := None, pcs := (pcs s)(i := Idle)\<rparr>) else None)
   | _ \<Rightarrow> None)"
| "fnext s Token = (if rpc s = InSelect \<and> 0 < fillChan (fl s)
     then Some (s\<lparr>fl := (fl s)\<lparr>fillChan := fillChan (fl s) - 1\<rparr>, rpc := Flush\<rparr>) else None)"
| "fnext s Timer = (if rpc s = InSelect then Some (s\<lparr>rpc := Flush\<rparr>) else None)"
| "fnext s CtxDone = (if rpc s = InSelect \<and> cancelled s
     then Some (s\<lparr>fl := (fl s)\<lparr>shutdown := True\<rparr>, rpc := FinalFlush\<rparr>) else None)"
| "fnext s DoFlush = (if rpc s = Flush \<and> owner s = None
     then Some ((run_flush s)\<lparr>rpc := InSelect\<rparr>) else None)"
| "fnext s DoFinal = (if rpc s = FinalFlush \<and> owner s = None
     then Some ((run_flush s)\<lparr>rpc := Stopped\<rparr>) else None)"
| "fnext s Cancel = Some (s\<lparr>cancelled := True\<rparr>)"

fun frun :: "'a fsys \<Rightarrow> 'a fevent list \<Rightarrow> 'a fsys option" where
  "frun s [] = Some s"
| "frun s (e # es) = (case fnext s e of None \<Rightarrow> None | Some t \<Rightarrow> frun t es)"

definition finit :: "'a Flusher \<Rightarrow> 'a fsys" where
  "finit f = \<lparr>fl = f, owner = None, pcs = (\<lambda>_. Idle), rpc = InSelect, cancelled = False,
     accepted = [], flushed = []\<rparr>"

inductive freach :: "FlusherConfig \<Rightarrow> 'a fsys \<Rightarrow> bool" for cfg where
  start: "NewFlusher cfg = Some f \<Longrightarrow> freach cfg (finit f)"
| step: "freach cfg s \<Longrightarrow> fstep s e t \<Longrightarrow> freach cfg t"

inductive_cases fstep_Call: "fstep s (Call i x) t"
inductive_cases fstep_Enter: "fstep s (Enter i) t"
inductive_cases fstep_Send: "fstep s (Send i) t"
inductive_simps fstep_run_simps [simp]:
  "fstep s Token t" "fstep s Timer t" "fstep s CtxDone t" "fstep s DoFlush t"
  "fstep s DoFinal t" "fstep s Cancel t"

lemma fnext_iff: "fnext s e = Some t \<longleftrightarrow> fstep s e t"
proof (cases e)
  case (Call i x)
  then show ?thesis
    by (auto elim!: fstep_Call intro: fstep.intros split: pushpc.splits)
next
  case (Enter i)
  then show ?thesis
    by (auto elim!: fstep_Enter intro: fstep.intros split: pushpc.splits option.splits
        prod.splits bool.splits)
next
  case (Send i)
  then show ?thesis
    by (auto elim!: fstep_Send intro: fstep.intros split: pushpc.splits if_splits)
qed auto

lemma frun_reach: "freach cfg s \<Longrightarrow> frun s es = Some t \<Longrightarrow> freach cfg t"
  by (induction es arbitrary: s)
    (auto simp: fnext_iff intro: freach.step split: option.splits)

section \<open>The invariant\<close>

lemma push_body_eq:
  "push_body s x = (f, b) \<longleftrightarrow> f = s\<lparr>size := size s + 1, buf := buf s @ [x]\<rparr> \<and>
     b = (flushSize s \<le> int (length (buf s)) + 1 \<and> \<not> flushNeed s)"
  by (auto simp: push_body_def Let_def add.commute)

lemma run_flush_eq:
  "run_flush s = s\<lparr>fl := (fl s)\<lparr>flushNeed := False, buf := []\<rparr>,
     flushed := flushed s @ (if buf (fl s) = [] then [] else [(buf (fl s), cancelled s)])\<rparr>"
  by (cases s; cases "fl s") (auto simp: run_flush_def doFlush_def)

lemmas flusher_eqs = push_body_eq run_flush_eq push_send_def fillCap_def

text \<open>
  Elements: what was accepted is what was flushed and what is queued. Lock: it is held
  exactly by a caller that waits to send. Need: the flag, the token and a full buffer
  belong together. Shutdown: the flag is set by the final flush, after a cancellation.
\<close>

definition inv_elems :: "'a fsys \<Rightarrow> bool" where
  "inv_elems s \<longleftrightarrow> concat (map fst (flushed s)) @ buf (fl s) = accepted s \<and>
     (\<forall>b \<in> set (flushed s). fst b \<noteq> [])"

definition inv_lock :: "'a fsys \<Rightarrow> bool" where
  "inv_lock s \<longleftrightarrow> (\<forall>i. owner s = Some i \<longleftrightarrow> (\<exists>x. pcs s i = Sending x))"

definition full :: "'a fsys \<Rightarrow> bool" where
  "full s \<longleftrightarrow> flushSize (fl s) \<le> int (length (buf (fl s)))"

definition inv_need :: "'a fsys \<Rightarrow> bool" where
  "inv_need s \<longleftrightarrow> fillChan (fl s) \<le> fillCap \<and>
     (owner s \<noteq> None \<longrightarrow> \<not> flushNeed (fl s) \<and> full s) \<and>
     (flushNeed (fl s) \<longrightarrow> full s) \<and>
     (flushNeed (fl s) \<longrightarrow> fillChan (fl s) = fillCap \<or> rpc s \<noteq> InSelect) \<and>
     (0 < flushSize (fl s) \<longrightarrow> full s \<longrightarrow> flushNeed (fl s) \<or> owner s \<noteq> None)"

definition inv_shut :: "'a fsys \<Rightarrow> bool" where
  "inv_shut s \<longleftrightarrow> (shutdown (fl s) \<longleftrightarrow> rpc s = FinalFlush \<or> rpc s = Stopped) \<and>
     (shutdown (fl s) \<longrightarrow> cancelled s)"

lemmas fl_inv_defs = inv_elems_def inv_lock_def inv_need_def inv_shut_def full_def

lemma inv_elems_step: "fstep s e t \<Longrightarrow> inv_elems s \<Longrightarrow> inv_elems t"
  by (erule fstep.cases) (auto simp: inv_elems_def flusher_eqs)

lemma inv_lock_step: "fstep s e t \<Longrightarrow> inv_lock s \<Longrightarrow> inv_lock t"
  by (erule fstep.cases)
    (auto simp: inv_lock_def run_flush_eq split: if_splits, metis option.inject)

lemma inv_need_step: "fstep s e t \<Longrightarrow> inv_lock s \<Longrightarrow> inv_need s \<Longrightarrow> inv_need t"
  by (erule fstep.cases) (auto simp: inv_need_def inv_lock_def full_def flusher_eqs)

lemma inv_shut_step: "fstep s e t \<Longrightarrow> inv_shut s \<Longrightarrow> inv_shut t"
  by (erule fstep.cases) (auto simp: inv_shut_def flusher_eqs)

lemma flushSize_step: "fstep s e t \<Longrightarrow> flushSize (fl t) = flushSize (fl s)"
  by (erule fstep.cases) (auto simp: flusher_eqs)

definition fl_inv :: "'a fsys \<Rightarrow> bool" where
  "fl_inv s \<longleftrightarrow> inv_elems s \<and> inv_lock s \<and> inv_need s \<and> inv_shut s"

lemma fl_inv_init: "NewFlusher cfg = Some f \<Longrightarrow> fl_inv (finit f)"
  by (auto simp: fl_inv_def fl_inv_defs finit_def NewFlusher_def fillCap_def split: if_splits)

lemma fl_inv_step: "fstep s e t \<Longrightarrow> fl_inv s \<Longrightarrow> fl_inv t"
  using inv_elems_step inv_lock_step inv_need_step inv_shut_step unfolding fl_inv_def by metis

lemma freach_inv: "freach cfg s \<Longrightarrow> fl_inv s"
  by (induction rule: freach.induct) (auto intro: fl_inv_init fl_inv_step)

lemma freach_flushSize: "freach cfg s \<Longrightarrow> flushSize (fl s) = FlushSize cfg"
  by (induction rule: freach.induct)
    (auto simp: flushSize_step finit_def NewFlusher_def split: if_splits)

section \<open>Properties\<close>

text \<open>C12. The queue neither loses, duplicates nor reorders elements: in every reachable state,
  the batches handed to the flush function followed by the buffer are the elements accepted so
  far, in the order they were accepted, and no batch is empty.\<close>

theorem flusher_conservation:
  assumes "freach cfg s"
  shows "concat (map fst (flushed s)) @ buf (fl s) = accepted s \<and>
    (\<forall>b \<in> set (flushed s). fst b \<noteq> [])"
  using freach_inv [OF assms] by (simp add: fl_inv_def inv_elems_def)

text \<open>Mutual exclusion: no two callers are in the locked part of \<open>Push\<close> at once, and the
  flush goroutine never flushes while one is.\<close>

theorem flusher_mutex:
  assumes "freach cfg s" and "pcs s i = Sending x"
  shows "(\<forall>j y. pcs s j = Sending y \<longrightarrow> j = i) \<and> (\<forall>t. \<not> fstep s DoFlush t \<and> \<not> fstep s DoFinal t)"
proof -
  have "inv_lock s" using freach_inv [OF assms(1)] by (simp add: fl_inv_def)
  with assms(2) have "owner s = Some i" "\<forall>j y. pcs s j = Sending y \<longrightarrow> owner s = Some j"
    by (auto simp: inv_lock_def)
  then show ?thesis by auto
qed

text \<open>No wake-up is lost: whenever the buffer has reached the flush size and the flush
  goroutine waits in its select, a token is in the channel for it, or the caller that filled the
  buffer is about to put one there.\<close>

theorem flusher_no_lost_wakeup:
  assumes "freach cfg s" and "0 < FlushSize cfg" and "FlushSize cfg \<le> int (length (buf (fl s)))"
    and "rpc s = InSelect"
  shows "\<exists>e t. fstep s e t \<and> (e = Token \<or> (\<exists>i. e = Send i))"
proof -
  have inv: "inv_need s" "inv_lock s" and "full s"
    using freach_inv [OF assms(1)] freach_flushSize [OF assms(1)] assms(3)
    by (simp_all add: fl_inv_def full_def)
  show ?thesis
  proof (cases "fillChan (fl s) = 0")
    case False
    then have "fstep s Token (s\<lparr>fl := (fl s)\<lparr>fillChan := fillChan (fl s) - 1\<rparr>, rpc := Flush\<rparr>)"
      using assms(4) by simp
    then show ?thesis by blast
  next
    case True
    then have "owner s \<noteq> None"
      using inv(1) \<open>full s\<close> assms(2,4) freach_flushSize [OF assms(1)]
      by (auto simp: inv_need_def fillCap_def)
    then obtain i x where "pcs s i = Sending x" using inv(2) by (auto simp: inv_lock_def)
    then have "fstep s (Send i) (s\<lparr>fl := push_send (fl s), owner := None, pcs := (pcs s)(i := Idle)\<rparr>)"
      using True by (intro fstep.send) (auto simp: fillCap_def)
    then show ?thesis by blast
  qed
qed

text \<open>The final flush leaves nothing behind: when it has run, everything accepted until then
  has been handed to the flush function.\<close>

theorem flusher_final_flush:
  assumes "freach cfg s" and "fstep s DoFinal t"
  shows "buf (fl t) = [] \<and> concat (map fst (flushed t)) = accepted s \<and> rpc t = Stopped"
proof -
  have "inv_elems s" using freach_inv [OF assms(1)] by (simp add: fl_inv_def)
  with assms(2) show ?thesis by (auto simp: inv_elems_def run_flush_eq)
qed

text \<open>Once \<open>Run\<close> has returned, no step calls the flush function again.\<close>

lemma flusher_stopped_forever:
  assumes "rpc s = Stopped" and "fstep s e t"
  shows "rpc t = Stopped \<and> flushed t = flushed s"
  using assms(2,1) by (cases rule: fstep.cases) auto

text \<open>A state in which the flush goroutine waits for the lock, and its holder for the channel.\<close>

definition deadlocked :: "'a fsys \<Rightarrow> bool" where
  "deadlocked s \<longleftrightarrow> (rpc s = Flush \<or> rpc s = FinalFlush) \<and> fillChan (fl s) = fillCap \<and>
     (\<exists>i x. owner s = Some i \<and> pcs s i = Sending x)"

lemma deadlocked_frame:
  assumes "fstep s e t" and "owner s = Some i" and "pcs s i = Sending x"
    and "\<forall>j y. pcs s j = Sending y \<longrightarrow> j = i"
    and "rpc s = Flush \<or> rpc s = FinalFlush" and "fillChan (fl s) = fillCap"
  shows "owner t = Some i \<and> pcs t i = Sending x \<and> rpc t = rpc s \<and>
    fillChan (fl t) = fillChan (fl s) \<and> flushed t = flushed s"
proof (cases e)
  case (Call j y)
  with assms(1,3) show ?thesis by (auto elim!: fstep_Call simp: assms(2))
next
  case (Enter j)
  with assms(1,2) show ?thesis by (auto elim!: fstep_Enter)
next
  case (Send j)
  with assms(1,6) show ?thesis by (auto elim!: fstep_Send)
qed (use assms(1,2,3,5) in auto)

lemma deadlocked_step:
  assumes "fl_inv s" and "deadlocked s" and "fstep s e t"
  shows "deadlocked t \<and> flushed t = flushed s"
proof -
  obtain i x where i: "owner s = Some i" "pcs s i = Sending x"
    using assms(2) by (auto simp: deadlocked_def)
  have "\<forall>j y. pcs s j = Sending y \<longrightarrow> j = i"
    using assms(1) i by (auto simp: fl_inv_def inv_lock_def)
  with deadlocked_frame [OF assms(3) i] assms(2) show ?thesis
    unfolding deadlocked_def by metis
qed

lemma deadlocked_run: "frun s es = Some t \<Longrightarrow> fl_inv s \<Longrightarrow> deadlocked s \<Longrightarrow> deadlocked t"
  by (induction es arbitrary: s)
    (auto simp: fnext_iff dest: deadlocked_step fl_inv_step split: option.splits)

text \<open>A deadlock is for ever: in a reachable deadlocked state every possible step leaves the
  state deadlocked and flushes nothing, so \<open>Run\<close> never returns.\<close>

theorem flusher_deadlock_absorbing:
  assumes "freach cfg s" and "deadlocked s" and "fstep s e t"
  shows "deadlocked t \<and> flushed t = flushed s"
  by (rule deadlocked_step [OF freach_inv [OF assms(1)] assms(2,3)])

section \<open>Schedules\<close>

text \<open>
  A select with several ready cases takes any of them. Under the assumption that the fill
  channel is taken first (the timer or the cancellation only when it is empty), the
  goroutine cannot deadlock.
\<close>

fun fprio :: "'a fsys \<Rightarrow> 'a fevent \<Rightarrow> bool" where
  "fprio s Timer = (fillChan (fl s) = 0)"
| "fprio s CtxDone = (fillChan (fl s) = 0)"
| "fprio s _ = True"

inductive preach :: "FlusherConfig \<Rightarrow> 'a fsys \<Rightarrow> bool" for cfg where
  pstart: "NewFlusher cfg = Some f \<Longrightarrow> preach cfg (finit f)"
| pstep: "preach cfg s \<Longrightarrow> fprio s e \<Longrightarrow> fstep s e t \<Longrightarrow> preach cfg t"

lemma preach_freach: "preach cfg s \<Longrightarrow> freach cfg s"
  by (induction rule: preach.induct) (auto intro: freach.intros)

definition inv_prio :: "'a fsys \<Rightarrow> bool" where
  "inv_prio s \<longleftrightarrow> (rpc s = Flush \<or> rpc s = FinalFlush \<longrightarrow> flushNeed (fl s) \<or> fillChan (fl s) = 0)"

lemma inv_prio_step:
  "fstep s e t \<Longrightarrow> fprio s e \<Longrightarrow> fillChan (fl s) \<le> fillCap \<Longrightarrow> inv_prio s \<Longrightarrow> inv_prio t"
  by (erule fstep.cases) (auto simp: inv_prio_def flusher_eqs)

lemma preach_inv: "preach cfg s \<Longrightarrow> fl_inv s \<and> inv_prio s"
proof (induction rule: preach.induct)
  case (pstart f)
  then show ?case using fl_inv_init by (auto simp: inv_prio_def finit_def)
next
  case (pstep s e t)
  then have "fl_inv t" using fl_inv_step by blast
  moreover have "inv_prio t"
    using pstep by (intro inv_prio_step [OF pstep.hyps(3,2)]) (simp_all add: fl_inv_def inv_need_def)
  ultimately show ?case ..
qed

lemma not_deadlocked_prio: "preach cfg s \<Longrightarrow> \<not> deadlocked s"
  using preach_inv [of cfg s]
  by (auto simp: deadlocked_def inv_prio_def fl_inv_def inv_need_def fillCap_def)

text \<open>One run of the flush goroutine, with the help of the caller that holds the lock.\<close>

fun internal :: "'a fevent \<Rightarrow> bool" where
  "internal (Send i) = True" | "internal Token = True" | "internal Timer = True"
| "internal DoFlush = True" | "internal DoFinal = True" | "internal _ = False"

lemma flush_from_lock:
  assumes "fl_inv s" and "inv_prio s" and "rpc s = Flush \<or> rpc s = FinalFlush"
  shows "\<exists>es t. frun s es = Some t \<and> list_all internal es \<and> buf (fl t) = [] \<and> accepted t = accepted s"
proof (cases "owner s")
  case None
  let ?e = "if rpc s = Flush then DoFlush else DoFinal"
  show ?thesis using None assms(3)
    by (intro exI [of _ "[?e]"]) (auto simp: run_flush_eq)
next
  case (Some i)
  then obtain x where "pcs s i = Sending x" "fillChan (fl s) = 0"
    using assms by (auto simp: fl_inv_def inv_lock_def inv_prio_def inv_need_def)
  then show ?thesis using Some assms(3)
    by (intro exI [of _ "[Send i, if rpc s = Flush then DoFlush else DoFinal]"])
      (auto simp: flusher_eqs)
qed

text \<open>C13. Progress: when the select prefers the fill channel, then from every reachable state in
  which \<open>Run\<close> has not returned there is a run of the goroutines already under way, with no new
  call, after which everything accepted has been flushed. In particular there is no deadlock.\<close>

theorem flusher_progress:
  assumes "preach cfg s" and "rpc s \<noteq> Stopped"
  shows "\<exists>es t. frun s es = Some t \<and> list_all internal es \<and> accepted t = accepted s \<and>
    concat (map fst (flushed t)) = accepted s"
proof -
  have inv: "fl_inv s" "inv_prio s" using preach_inv [OF assms(1)] by auto
  have "\<exists>es t. frun s es = Some t \<and> list_all internal es \<and> buf (fl t) = [] \<and> accepted t = accepted s"
  proof (cases "rpc s = InSelect")
    case False
    then show ?thesis using flush_from_lock [OF inv] assms(2) by (cases "rpc s") auto
  next
    case True
    let ?e = "if fillChan (fl s) = 0 then Timer else Token"
    let ?t = "s\<lparr>fl := (fl s)\<lparr>fillChan := fillChan (fl s) - 1\<rparr>, rpc := Flush\<rparr>"
    have "fstep s ?e ?t" using True by (cases s; cases "fl s") simp
    moreover have "rpc ?t = Flush" "accepted ?t = accepted s" by simp_all
    ultimately obtain t where t: "fstep s ?e t" "rpc t = Flush" "accepted t = accepted s" by blast
    have "fprio s ?e" by simp
    then have "fl_inv t" "inv_prio t"
      using preach_inv [OF preach.pstep [OF assms(1) _ t(1)]] by auto
    then obtain es u where "frun t es = Some u" "list_all internal es" "buf (fl u) = []"
        "accepted u = accepted t"
      using flush_from_lock t(2) by blast
    moreover have "fnext s ?e = Some t" using t(1) by (simp only: fnext_iff)
    ultimately have "frun s (?e # es) = Some u \<and> list_all internal (?e # es) \<and> buf (fl u) = [] \<and>
        accepted u = accepted s"
      using t(3) by simp
    then show ?thesis by blast
  qed
  then obtain es t where t: "frun s es = Some t" "list_all internal es" "buf (fl t) = []"
      "accepted t = accepted s" by blast
  have "fl_inv t" using freach_inv frun_reach preach_freach assms(1) t(1) by blast
  with t show ?thesis by (auto simp: fl_inv_def inv_elems_def)
qed

section \<open>Runs\<close>

text \<open>One caller pushing \<open>k\<close> elements that do not fill the buffer.\<close>

fun fill :: "nat \<Rightarrow> 'a \<Rightarrow> 'a fevent list" where
  "fill 0 x = []"
| "fill (Suc k) x = Call 0 x # Enter 0 # fill k x"

definition quiet :: "'a fsys \<Rightarrow> bool" where
  "quiet s \<longleftrightarrow> pcs s = (\<lambda>_. Idle) \<and> owner s = None \<and> \<not> shutdown (fl s) \<and> \<not> flushNeed (fl s)"

definition filled :: "nat \<Rightarrow> 'a \<Rightarrow> 'a fsys \<Rightarrow> 'a fsys" where
  "filled k x s = s\<lparr>fl := (fl s)\<lparr>size := size (fl s) + int k, buf := buf (fl s) @ replicate k x\<rparr>,
     accepted := accepted s @ replicate k x\<rparr>"

lemma const_upd [simp]: "(\<lambda>_. c)(i := c) = (\<lambda>_. c)"
  by auto

lemma frun_append:
  "frun s (es @ fs) = (case frun s es of None \<Rightarrow> None | Some t \<Rightarrow> frun t fs)"
  by (induction es arbitrary: s) (auto split: option.splits)

lemma frun_fill:
  "quiet s \<Longrightarrow> int (length (buf (fl s))) + int k < flushSize (fl s) \<Longrightarrow>
     frun s (fill k x) = Some (filled k x s)"
proof (induction k arbitrary: s)
  case 0
  then show ?case by (cases s; cases "fl s") (simp add: filled_def)
next
  case (Suc k)
  let ?t = "filled 1 x s"
  have "frun s [Call 0 x, Enter 0] = Some ?t"
    using Suc.prems by (auto simp: quiet_def filled_def push_body_def Let_def)
  moreover have "frun ?t (fill k x) = Some (filled k x ?t)"
    using Suc.prems by (intro Suc.IH) (auto simp: quiet_def filled_def)
  moreover have "filled k x ?t = filled (Suc k) x s"
    by (simp add: filled_def add.commute add.left_commute replicate_append_same)
  moreover have "fill (Suc k) x = [Call 0 x, Enter 0] @ fill k x" by simp
  ultimately show ?case by (simp only: frun_append option.case)
qed

text \<open>
  The run: fill the buffer; the timer fires while the caller that filled it is about to
  send; it sends and the buffer is flushed, which leaves the token behind; the buffer is
  filled again, and its caller blocks on the full channel holding the lock; the context
  is cancelled and the select takes that case.
\<close>

definition stale_run :: "nat \<Rightarrow> 'a \<Rightarrow> 'a fevent list" where
  "stale_run n x = fill (n - 1) x @ [Call 0 x, Enter 0, Timer, Send 0, DoFlush]"

definition blocked_run :: "nat \<Rightarrow> 'a \<Rightarrow> 'a fevent list" where
  "blocked_run n x = stale_run n x @ fill (n - 1) x @ [Call 0 x, Enter 0]"

definition deadlock_run :: "nat \<Rightarrow> 'a \<Rightarrow> 'a fevent list" where
  "deadlock_run n x = blocked_run n x @ [Cancel, CtxDone]"

lemma stale_run_result:
  assumes "NewFlusher cfg = Some f" and "0 < FlushSize cfg"
  shows "\<exists>s. frun (finit f) (stale_run (nat (FlushSize cfg)) x) = Some s \<and> quiet s \<and> buf (fl s) = [] \<and>
    flushSize (fl s) = FlushSize cfg \<and> fillChan (fl s) = 1 \<and> rpc s = InSelect"
proof -
  let ?k = "nat (FlushSize cfg) - 1"
  have f: "flushSize f = FlushSize cfg" "buf f = []" "\<not> shutdown f" "\<not> flushNeed f" "fillChan f = 0"
    using assms(1) by (auto simp: NewFlusher_def split: if_splits)
  have k: "int ?k + 1 = FlushSize cfg" using assms(2) by simp
  have r1: "frun (finit f) (fill ?k x) = Some (filled ?k x (finit f))"
    using f k by (intro frun_fill) (auto simp: quiet_def finit_def)
  have "\<exists>s. frun (filled ?k x (finit f)) [Call 0 x, Enter 0, Timer, Send 0, DoFlush] = Some s \<and>
      quiet s \<and> buf (fl s) = [] \<and> flushSize (fl s) = FlushSize cfg \<and> fillChan (fl s) = 1 \<and> rpc s = InSelect"
    using f k by (auto simp: filled_def finit_def flusher_eqs push_body_def Let_def quiet_def fun_eq_iff)
  then show ?thesis by (simp only: stale_run_def frun_append r1 option.case)
qed

lemma blocked_run_result:
  assumes "NewFlusher cfg = Some f" and "0 < FlushSize cfg"
  shows "\<exists>t. frun (finit f) (blocked_run (nat (FlushSize cfg)) x) = Some t \<and> owner t = Some 0 \<and>
    pcs t 0 = Sending x \<and> fillChan (fl t) = fillCap \<and> rpc t = InSelect \<and>
    length (buf (fl t)) = nat (FlushSize cfg)"
proof -
  let ?k = "nat (FlushSize cfg) - 1"
  from stale_run_result [OF assms] obtain s where s: "frun (finit f) (stale_run (nat (FlushSize cfg)) x) = Some s"
      "quiet s" "buf (fl s) = []" "flushSize (fl s) = FlushSize cfg" "fillChan (fl s) = 1" "rpc s = InSelect"
    by blast
  have k: "int ?k + 1 = FlushSize cfg" using assms(2) by simp
  have r: "frun s (fill ?k x) = Some (filled ?k x s)" using s k by (intro frun_fill) auto
  have "\<exists>t. frun (filled ?k x s) [Call 0 x, Enter 0] = Some t \<and> owner t = Some 0 \<and> pcs t 0 = Sending x \<and>
      fillChan (fl t) = fillCap \<and> rpc t = InSelect \<and> length (buf (fl t)) = nat (FlushSize cfg)"
    using s k by (auto simp: filled_def flusher_eqs push_body_def Let_def quiet_def)
  then show ?thesis by (simp only: blocked_run_def frun_append s(1) r option.case)
qed

lemma deadlock_run_result:
  assumes "NewFlusher cfg = Some f" and "0 < FlushSize cfg"
  shows "\<exists>t. frun (finit f) (deadlock_run (nat (FlushSize cfg)) x) = Some t \<and> deadlocked t \<and>
    rpc t = FinalFlush \<and> length (buf (fl t)) = nat (FlushSize cfg)"
proof -
  from blocked_run_result [OF assms] obtain s where s: "frun (finit f) (blocked_run (nat (FlushSize cfg)) x) = Some s"
      "owner s = Some 0" "pcs s 0 = Sending x" "fillChan (fl s) = fillCap" "rpc s = InSelect"
      "length (buf (fl s)) = nat (FlushSize cfg)" by blast
  then show ?thesis by (simp add: deadlock_run_def frun_append deadlocked_def)
qed

text \<open>Callers that have all read the flag before the shutdown, and then enter one by one.\<close>

lemma frun_calls:
  "pcs s = (\<lambda>_. Idle) \<Longrightarrow> \<not> shutdown (fl s) \<Longrightarrow>
     frun s (map (\<lambda>c. Call c x) [0..<n]) = Some (s\<lparr>pcs := (\<lambda>c. if c < n then Loaded x else Idle)\<rparr>)"
  by (induction n) (auto simp: frun_append fun_eq_iff intro!: arg_cong [where f = "\<lambda>p. s\<lparr>pcs := p\<rparr>"])

lemma frun_enters:
  assumes "pcs s = (\<lambda>c. if c < n then Loaded x else Idle)" and "owner s = None"
  shows "k \<le> n \<Longrightarrow> int (length (buf (fl s))) + int k < flushSize (fl s) \<Longrightarrow>
    frun s (map Enter [0..<k]) = Some ((filled k x s)\<lparr>pcs := (\<lambda>c. if k \<le> c \<and> c < n then Loaded x else Idle)\<rparr>)"
proof (induction k)
  case 0
  then show ?case using assms by (cases s; cases "fl s") (simp add: filled_def)
next
  case (Suc k)
  let ?t = "(filled k x s)\<lparr>pcs := (\<lambda>c. if k \<le> c \<and> c < n then Loaded x else Idle)\<rparr>"
  have "frun ?t [Enter k] =
      Some ((filled (Suc k) x s)\<lparr>pcs := (\<lambda>c. if k \<le> c \<and> c < n then Loaded x else Idle)(k := Idle)\<rparr>)"
    using Suc.prems assms(2)
    by (simp add: filled_def push_body_def Let_def replicate_append_same add.commute add.left_commute)
  moreover have "(\<lambda>c. if k \<le> c \<and> c < n then Loaded x else Idle)(k := Idle) =
      (\<lambda>c. if Suc k \<le> c \<and> c < n then Loaded x else Idle)" by (auto simp: fun_eq_iff)
  moreover have "frun s (map Enter [0..<k]) = Some ?t" using Suc.IH Suc.prems by simp
  ultimately show ?case by (simp add: frun_append del: frun.simps)
qed

text \<open>The deadlock can happen: for every configuration with a positive flush size there is
  an interleaving, with one caller and a cancelled context, after which the final flush waits for
  the lock held by a caller that waits for room in the fill channel, with a full buffer queued.\<close>

theorem flusher_deadlock_reachable:
  assumes "0 < FlushSize cfg" and "0 \<le> AllocSize cfg"
  shows "\<exists>s :: nat fsys. freach cfg s \<and> deadlocked s \<and> rpc s = FinalFlush \<and>
    length (buf (fl s)) = nat (FlushSize cfg)"
proof -
  obtain f :: "nat Flusher" where f: "NewFlusher cfg = Some f"
    using assms(2) by (simp add: NewFlusher_def)
  show ?thesis
    using deadlock_run_result [OF f assms(1), of 7] frun_reach [OF freach.start [OF f]] by blast
qed

text \<open>The configuration of the shortener service (\<open>internal/services/shortener/config.go\<close>).\<close>

definition shortener_flusher_config :: FlusherConfig where
  "shortener_flusher_config = \<lparr>FlushInterval = 3000000000, FlushSize = 100, AllocSize = 200\<rparr>"

theorem flusher_deadlock_reachable_witness:
  "\<exists>s :: nat fsys. freach shortener_flusher_config s \<and> deadlocked s \<and> rpc s = FinalFlush \<and>
    length (buf (fl s)) = 100"
  using flusher_deadlock_reachable [of shortener_flusher_config]
  by (simp add: shortener_flusher_config_def)

text \<open>An accepted element can be lost at shutdown: there is an interleaving in which \<open>Push\<close>
  returns no error, \<open>Run\<close> has returned after its final flush, and the element is still queued.\<close>

theorem flusher_late_push_lost:
  assumes "1 < FlushSize cfg" and "0 \<le> AllocSize cfg"
  shows "\<exists>s :: nat fsys. freach cfg s \<and> rpc s = Stopped \<and> (\<forall>i. pcs s i = Idle) \<and>
    accepted s = [7] \<and> buf (fl s) = [7] \<and> flushed s = []"
proof -
  obtain f :: "nat Flusher" where f: "NewFlusher cfg = Some f"
    using assms(2) by (simp add: NewFlusher_def)
  have "\<exists>s. frun (finit f) [Call 0 7, Cancel, CtxDone, DoFinal, Enter 0] = Some s \<and> rpc s = Stopped \<and>
      (\<forall>i. pcs s i = Idle) \<and> accepted s = [7] \<and> buf (fl s) = [7] \<and> flushed s = []"
    using f assms by (auto simp: NewFlusher_def finit_def run_flush_eq push_body_def Let_def)
  then show ?thesis using frun_reach [OF freach.start [OF f]] by blast
qed

theorem flusher_late_push_lost_witness:
  "\<exists>s :: nat fsys. freach shortener_flusher_config s \<and> rpc s = Stopped \<and> accepted s = [7] \<and>
    buf (fl s) = [7] \<and> flushed s = []"
  using flusher_late_push_lost [of shortener_flusher_config]
  by (auto simp: shortener_flusher_config_def)

text \<open>The sequential \<open>Push\<close> is the run of its steps: where no other goroutine moves, a call
  that returns nil is exactly the events of the caller, with the same queue after it.\<close>

theorem Push_refines_steps:
  assumes "pcs s i = Idle" and "owner s = None" and "Push (fl s) x = Some (None, f)"
  shows "\<exists>es t. frun s (Call i x # Enter i # es) = Some t \<and> set es \<subseteq> {Send i} \<and> fl t = f \<and>
    pcs t = pcs s \<and> owner t = None \<and> accepted t = accepted s @ [x]"
proof -
  obtain f1 b where b: "push_body (fl s) x = (f1, b)" by (cases "push_body (fl s) x")
  show ?thesis
  proof (cases b)
    case True
    with assms b show ?thesis
      by (intro exI [of _ "[Send i]"]) (auto simp: Push_def fun_eq_iff split: if_splits)
  next
    case False
    with assms b show ?thesis
      by (intro exI [of _ "[]"]) (auto simp: Push_def fun_eq_iff split: if_splits)
  qed
qed

section \<open>Sample runs\<close>

definition small_config :: FlusherConfig where
  "small_config = \<lparr>FlushInterval = 1, FlushSize = 2, AllocSize = 0\<rparr>"

definition small_start :: "nat fsys" where
  "small_start = finit \<lparr>shutdown = False, flushNeed = False, fillChan = 0, buf = [], size = 0,
     flushSize = 2, allocSize = 0, flushInterval = 1\<rparr>"

lemma small_reach: "frun small_start es = Some s \<Longrightarrow> freach small_config s"
  by (rule frun_reach [OF freach.start]) (auto simp: small_start_def small_config_def NewFlusher_def)

lemma small_preach: "preach small_config small_start"
  unfolding small_start_def by (rule preach.pstart) (simp add: small_config_def NewFlusher_def)

lemmas run_defs = small_start_def finit_def push_body_def Let_def run_flush_eq push_send_def fillCap_def

theorem flusher_conservation_witness:
  "\<exists>s. frun small_start [Call 0 1, Enter 0, Timer, DoFlush, Call 1 2, Enter 1] = Some s \<and>
     accepted s = [1, 2] \<and> concat (map fst (flushed s)) @ buf (fl s) = [1, 2]"
proof -
  obtain s where s: "frun small_start [Call 0 1, Enter 0, Timer, DoFlush, Call 1 2, Enter 1] = Some s"
      "accepted s = [1, 2]" by (simp add: run_defs)
  with flusher_conservation [OF small_reach [OF s(1)]] show ?thesis by simp
qed

theorem flusher_mutex_witness:
  "\<exists>s. frun small_start [Call 0 1, Enter 0, Call 1 2, Enter 1, Timer] = Some s \<and> rpc s = Flush \<and>
     (\<forall>t. \<not> fstep s DoFlush t)"
proof -
  obtain s where s: "frun small_start [Call 0 1, Enter 0, Call 1 2, Enter 1, Timer] = Some s"
      "rpc s = Flush" "pcs s 1 = Sending 2" by (simp add: run_defs)
  from flusher_mutex [OF small_reach [OF s(1)] s(3)] s show ?thesis by blast
qed

theorem flusher_no_lost_wakeup_witness:
  "\<exists>s e t. frun small_start [Call 0 1, Enter 0, Call 1 2, Enter 1] = Some s \<and> fstep s e t \<and>
     (e = Token \<or> (\<exists>i. e = Send i))"
proof -
  obtain s where s: "frun small_start [Call 0 1, Enter 0, Call 1 2, Enter 1] = Some s"
      "rpc s = InSelect" "length (buf (fl s)) = 2" by (simp add: run_defs)
  have "\<exists>e t. fstep s e t \<and> (e = Token \<or> (\<exists>i. e = Send i))"
    by (rule flusher_no_lost_wakeup [OF small_reach [OF s(1)]]) (simp_all add: small_config_def s)
  with s(1) show ?thesis by blast
qed

theorem flusher_final_flush_witness:
  "\<exists>s t. frun small_start [Call 0 1, Enter 0, Cancel, CtxDone] = Some s \<and> fstep s DoFinal t \<and>
     concat (map fst (flushed t)) = [1] \<and> rpc t = Stopped"
proof -
  obtain s where s: "frun small_start [Call 0 1, Enter 0, Cancel, CtxDone] = Some s"
      "rpc s = FinalFlush" "owner s = None" "accepted s = [1]" by (simp add: run_defs)
  then have t: "fstep s DoFinal ((run_flush s)\<lparr>rpc := Stopped\<rparr>)" by simp
  from flusher_final_flush [OF small_reach [OF s(1)] t] s(4)
  have "concat (map fst (flushed ((run_flush s)\<lparr>rpc := Stopped\<rparr>))) = [1] \<and>
    rpc ((run_flush s)\<lparr>rpc := Stopped\<rparr>) = Stopped" by simp
  with s(1) t show ?thesis by blast
qed

theorem flusher_deadlock_absorbing_witness:
  "\<exists>s t. freach small_config (s :: nat fsys) \<and> deadlocked s \<and> fstep s Cancel t \<and> deadlocked t"
proof -
  obtain f :: "nat Flusher" where f: "NewFlusher small_config = Some f"
    by (simp add: NewFlusher_def small_config_def)
  have pos: "0 < FlushSize small_config" by (simp add: small_config_def)
  obtain s where s: "frun (finit f) (deadlock_run (nat (FlushSize small_config)) 7) = Some s" "deadlocked s"
    using deadlock_run_result [OF f pos, of 7] by blast
  have r: "freach small_config s" by (rule frun_reach [OF freach.start [OF f] s(1)])
  have t: "fstep s Cancel (s\<lparr>cancelled := True\<rparr>)" by simp
  from flusher_deadlock_absorbing [OF r s(2) t] r s(2) t show ?thesis by blast
qed

theorem flusher_progress_witness:
  "\<exists>s es t. frun small_start [Call 0 1, Enter 0] = Some s \<and> frun s es = Some t \<and> list_all internal es \<and>
     concat (map fst (flushed t)) = [1]"
proof -
  obtain s where s: "frun small_start [Call 0 1, Enter 0] = Some s" "rpc s = InSelect" "accepted s = [1]"
    by (simp add: run_defs)
  then obtain u where u: "fnext small_start (Call 0 1) = Some u" "fnext u (Enter 0) = Some s"
    by (auto split: option.splits)
  have "preach small_config s"
    by (rule preach.pstep [OF preach.pstep [OF small_preach]])
      (use u in \<open>simp_all only: fprio.simps fnext_iff [symmetric]\<close>)
  then have "\<exists>es t. frun s es = Some t \<and> list_all internal es \<and> accepted t = accepted s \<and>
    concat (map fst (flushed t)) = accepted s"
    by (rule flusher_progress) (simp add: s(2))
  with s show ?thesis by auto
qed

theorem Push_refines_steps_witness:
  "\<exists>es t. frun small_start (Call 3 9 # Enter 3 # es) = Some t \<and> set es \<subseteq> {Send 3} \<and> accepted t = [9]"
proof -
  obtain f where "Push (fl small_start) 9 = Some (None, f)" by (simp add: run_defs Push_def)
  from Push_refines_steps [OF _ _ this, of 3] show ?thesis by (auto simp: small_start_def finit_def)
qed

end
