(* ===== verification/Generators.thy ===== *)
theory Generators
  imports Model
begin

text \<open>
  \<open>internal/generators/generators.go\<close>: random strings over a fixed alphabet. The random
  numbers are a source of naturals; \<open>Intn n\<close> is \<open>math/rand.Intn\<close>, which returns a number
  below \<open>n\<close>, here the next number of the source modulo \<open>n\<close>, so that every sequence of
  results \<open>Intn\<close> can return is the run of some source.
\<close>

definition Intn :: "nat \<Rightarrow> nat src \<Rightarrow> nat \<times> nat src" where
  "Intn n r = (let (x, r') = next_src r in (x mod n, r'))"

definition alphabet :: string where
  "alphabet = ''0123456789abcdefghijklmnopqrstuvwxyzABCDEFGHIJKLMNOPQRSTUVWXYZ''"

fun RandString :: "nat \<Rightarrow> nat src \<Rightarrow> string \<times> nat src" where
  "RandString 0 r = ([], r)"
| "RandString (Suc n) r =
     (let (i, r1) = Intn (length alphabet) r; (b, r2) = RandString n r1
      in (alphabet ! i # b, r2))"

lemma length_alphabet [simp]: "length alphabet = 62"
  by (simp add: alphabet_def)

lemma length_RandString [simp]: "length (fst (RandString n r)) = n"
  by (induction n arbitrary: r) (simp_all add: Let_def split_beta)

lemma Intn_less: "0 < n \<Longrightarrow> fst (Intn n r) < n"
  by (simp add: Intn_def next_src_def)

lemma set_RandString: "set (fst (RandString n r)) \<subseteq> set alphabet"
proof (induction n arbitrary: r)
  case 0
  then show ?case by simp
next
  case (Suc n)
  have "alphabet ! fst (Intn 62 r) \<in> set alphabet"
    using Intn_less [of 62 r] by simp
  with Suc [of "snd (Intn 62 r)"] show ?case
    by (auto simp: Let_def split: prod.splits)
qed

text \<open>
  Every string over the alphabet is the result of some source: the generator reaches the
  whole key space.
\<close>

lemma RandString_onto:
  "set s \<subseteq> set alphabet \<Longrightarrow> \<exists>r. fst (RandString (length s) r) = s"
proof (induction s)
  case Nil
  then show ?case by simp
next
  case (Cons x s)
  then obtain r i where r: "fst (RandString (length s) r) = s" and i: "i < 62" "alphabet ! i = x"
    by (auto simp: in_set_conv_nth)
  let ?r = "\<lambda>j. case j of 0 \<Rightarrow> i | Suc j' \<Rightarrow> r j'"
  have "Intn 62 ?r = (i, r)" using i by (simp add: Intn_def next_src_def)
  with r i show ?case by (intro exI [of _ ?r]) (auto simp: Let_def split: prod.splits)
qed

end
