(* ===== verification/Resolver.thy ===== *)
theory Resolver
  imports Generators Storage_If
begin

text \<open>
  \<open>internal/services/resolver/resolver.go\<close>: validation of a short path and the lookup of
  its original url, for any storage.
\<close>

text \<open>
  \<open>unicode.IsLetter\<close> and \<open>unicode.IsDigit\<close> on a rune up to 255: the code converts each byte
  of the path to a rune, so no others reach them.
\<close>

definition IsLetter :: "char \<Rightarrow> bool" where
  "IsLetter c = (let n = of_char c :: nat in
     65 \<le> n \<and> n \<le> 90 \<or> 97 \<le> n \<and> n \<le> 122 \<or> n = 170 \<or> n = 181 \<or> n = 186 \<or>
     192 \<le> n \<and> n \<le> 214 \<or> 216 \<le> n \<and> n \<le> 246 \<or> 248 \<le> n)"

definition IsDigit :: "char \<Rightarrow> bool" where
  "IsDigit c = (let n = of_char c :: nat in 48 \<le> n \<and> n \<le> 57)"

definition hexdigit :: "nat \<Rightarrow> char" where
  "hexdigit n = ''0123456789abcdef'' ! n"

definition hexbyte :: "char \<Rightarrow> string" where
  "hexbyte c = (let n = of_char c :: nat in
     if n < 16 then [hexdigit n] else [hexdigit (n div 16), hexdigit (n mod 16)])"

fun validate_loop :: "string \<Rightarrow> gerr option" where
  "validate_loop [] = None"
| "validate_loop (c # cs) =
     (if \<not> IsLetter c \<and> \<not> IsDigit c
      then Some (Errmsg (''invalid character in path: 0x'' @ hexbyte c))
      else validate_loop cs)"

text \<open>\<open>path[0]\<close> of the empty string panics.\<close>

fun validatePath :: "string \<Rightarrow> gerr option outcome" where
  "validatePath [] = Panic"
| "validatePath (c # cs) =
     (if c \<noteq> CHR ''/'' then Ret (Some (Errmsg ''path is not starts with /''))
      else Ret (validate_loop cs))"

definition Resolve :: "'s Storage \<Rightarrow> string \<Rightarrow> 's \<Rightarrow> (string gret \<times> 's) outcome" where
  "Resolve st path s = (case validatePath path of
     Panic \<Rightarrow> Panic
   | Ret (Some e) \<Rightarrow> Ret (([], errors_join [Some (Sentinel ErrInvalidPath), Some e]), s)
   | Ret None \<Rightarrow>
       (case st_Get st s (drop 1 path) of
          ((_, Some e), s') \<Rightarrow> Ret (([], errors_join [Some (Sentinel ErrResolverStorage), Some e]), s')
        | ((origURL, None), s') \<Rightarrow> Ret ((origURL, None), s')))"

section \<open>Facts\<close>

definition pathChar :: "char \<Rightarrow> bool" where
  "pathChar c \<longleftrightarrow> IsLetter c \<or> IsDigit c"

lemma validate_loop_None: "validate_loop cs = None \<longleftrightarrow> list_all pathChar cs"
  by (induction cs) (auto simp: pathChar_def)

text \<open>The error names the first character that is no letter and no digit.\<close>

lemma validate_loop_eq:
  "validate_loop cs = (case dropWhile pathChar cs of [] \<Rightarrow> None
     | c # _ \<Rightarrow> Some (Errmsg (''invalid character in path: 0x'' @ hexbyte c)))"
  by (induction cs) (auto simp: pathChar_def)

lemma alphabet_pathChar: "c \<in> set alphabet \<Longrightarrow> pathChar c"
  by (auto simp: alphabet_def pathChar_def IsLetter_def IsDigit_def)

lemma validate_RandString: "validatePath (CHR ''/'' # fst (RandString n r)) = Ret None"
  using set_RandString [of n r] alphabet_pathChar
  by (auto simp: validate_loop_None list_all_iff)

lemma Resolve_ok:
  "list_all pathChar p \<Longrightarrow> st_Get st s p = ((orig, None), s') \<Longrightarrow>
     Resolve st (CHR ''/'' # p) s = Ret ((orig, None), s')"
  by (simp add: Resolve_def validate_loop_None [symmetric])

context url_storage
begin

text \<open>What \<open>Resolve\<close> answers on a storage that keeps its contract, for every path.\<close>

lemma resolve_result:
  assumes "ok s"
  shows "Resolve st (CHR ''/'' # p) s =
     (if \<not> list_all pathChar p
      then Ret (([], Some (Join [Sentinel ErrInvalidPath, the (validate_loop p)])), s)
      else let s' = snd (st_Get st s p) in
        (case view s p of
           None \<Rightarrow> Ret (([], Some (Join [Sentinel ErrResolverStorage, Sentinel ErrNotFound])), s')
         | Some en \<Rightarrow> if e_deleted en
             then Ret (([], Some (Join [Sentinel ErrResolverStorage, Sentinel ErrDeleted])), s')
             else Ret ((e_orig en, None), s')))"
proof (cases "validate_loop p")
  case (Some e)
  then show ?thesis using validate_loop_None [of p] by (auto simp: Resolve_def)
next
  case None
  obtain r s' where g: "st_Get st s p = (r, s')" by (cases "st_Get st s p")
  from get_law [OF assms g] None show ?thesis
    using validate_loop_None [of p] g
    by (auto simp: Resolve_def get_result_def split: option.splits if_splits)
qed

lemma resolve_state:
  assumes "ok s" and "Resolve st path s = Ret (r, s')"
  shows "ok s' \<and> view s' = view s"
proof (cases "validatePath path")
  case (Ret v)
  obtain g s1 where g: "st_Get st s (drop 1 path) = (g, s1)" by (cases "st_Get st s (drop 1 path)")
  from get_law [OF assms(1) g] have "ok s1 \<and> view s1 = view s" by simp
  with assms Ret g show ?thesis
    by (auto simp: Resolve_def split: option.splits prod.splits)
qed (use assms in \<open>simp add: Resolve_def\<close>)

end

section \<open>Properties\<close>

text \<open>\<open>validatePath\<close> accepts exactly the paths that are a slash followed by letters and
  digits (of Latin-1), and panics exactly on the empty path.\<close>

theorem validatePath_spec:
  "(validatePath path = Ret None \<longleftrightarrow> (\<exists>p. path = CHR ''/'' # p \<and> list_all pathChar p)) \<and>
   (validatePath path = Panic \<longleftrightarrow> path = [])"
  by (cases path) (auto simp: validate_loop_None)

end
