(* ===== verification/Shortener.thy ===== *)
theory Shortener
  imports Flusher Resolver
begin

text \<open>
  The shortener service: \<open>internal/services/shortener/service.go\<close>, \<open>batch.go\<close> and
  \<open>config.go\<close>, for any storage. The functions take the storage methods, its state, the
  source of random numbers and, for deletions, the delete queue explicitly.
\<close>

section \<open>The service\<close>

record Service =
  servedScheme :: string
  redirectScheme :: string
  host :: string
  pathLength :: nat

record Config =
  ServedScheme :: string
  RedirectScheme :: string
  Host :: string
  PathLength :: nat

definition flusherFillSize :: int where
  "flusherFillSize = 100"

definition flusherAllocSize :: int where
  "flusherAllocSize = 200"

text \<open>Three seconds, in nanoseconds.\<close>

definition flusherFlushInterval :: int where
  "flusherFlushInterval = 3000000000"

definition shortener_New :: "Config \<Rightarrow> (Service \<times> URL Flusher) option" where
  "shortener_New cfg =
     (case NewFlusher \<lparr>FlushInterval = flusherFlushInterval, FlushSize = flusherFillSize,
         AllocSize = flusherAllocSize\<rparr> of
        None \<Rightarrow> None
      | Some f \<Rightarrow> Some (\<lparr>servedScheme = ServedScheme cfg, redirectScheme = RedirectScheme cfg,
           host = Host cfg, pathLength = PathLength cfg\<rparr>, f))"

definition getServedURL :: "Service \<Rightarrow> string \<Rightarrow> string" where
  "getServedURL svc shortPath = servedScheme svc @ ''://'' @ host svc @ ''/'' @ shortPath"

section \<open>Storing one url\<close>

text \<open>
  The retry loop of \<open>storeURL\<close>: \<open>i\<close> attempts are left; \<open>path\<close> and \<open>err\<close> are the named
  results, carried from one attempt to the next.
\<close>

definition defaultStoreRetries :: nat where
  "defaultStoreRetries = 3"

fun storeURL_loop ::
  "'s Storage \<Rightarrow> nat \<Rightarrow> user \<Rightarrow> string \<Rightarrow> nat \<Rightarrow> string \<Rightarrow> gerr option \<Rightarrow> 's \<Rightarrow> nat src \<Rightarrow>
     string gret \<times> 's \<times> nat src" where
  "storeURL_loop st plen usr u 0 path err s r =
     ((path, map_option (Wrap ''cannot store url'') err), s, r)"
| "storeURL_loop st plen usr u (Suc i) path err s r =
     (let (path, r) = RandString plen r;
          ((storedPath, err), s) =
            st_Store st s \<lparr>Short = path, Orig = u, UserID = ID usr, TS = 0\<rparr> False
      in case err of
           None \<Rightarrow> ((path, None), s, r)
         | Some e \<Rightarrow>
             if errors_is e (Sentinel ErrConflict) then ((storedPath, Some e), s, r)
             else if errors_is e (Sentinel ErrAlreadyExists)
             then storeURL_loop st plen usr u i path (Some e) s r
             else ((path, Some e), s, r))"

definition storeURL ::
  "'s Storage \<Rightarrow> Service \<Rightarrow> user \<Rightarrow> string \<Rightarrow> 's \<Rightarrow> nat src \<Rightarrow> string gret \<times> 's \<times> nat src" where
  "storeURL st svc usr u s r =
     storeURL_loop st (pathLength svc) usr u defaultStoreRetries [] None s r"

text \<open>
  \<open>errors.Is(model.ErrConflict, err)\<close> is written with the sentinel first, as in the code.
\<close>

definition Shorten ::
  "(string \<Rightarrow> gerr + purl) \<Rightarrow> 's Storage \<Rightarrow> Service \<Rightarrow> user \<Rightarrow> string \<Rightarrow> 's \<Rightarrow> nat src \<Rightarrow>
     string gret \<times> 's \<times> nat src" where
  "Shorten urlParse st svc usr origURL s r =
     (case urlParse origURL of
        Inl e \<Rightarrow> (([], errors_join [Some (Sentinel ErrInvalidURL), Some e]), s, r)
      | Inr u \<Rightarrow>
          if redirectScheme svc \<noteq> [] \<and> Scheme u \<noteq> redirectScheme svc
          then (([], Some (Sentinel ErrUnsupportedURLScheme)), s, r)
          else (case storeURL st svc usr (url_String u) s r of
              ((shortPath, None), s', r') \<Rightarrow> ((getServedURL svc shortPath, None), s', r')
            | ((shortPath, Some e), s', r') \<Rightarrow>
                if \<not> errors_is (Sentinel ErrConflict) e
                then (([], errors_join [Some (Sentinel ErrStorageError), Some e]), s', r')
                else ((getServedURL svc shortPath, Some e), s', r')))"

section \<open>Batches\<close>

record BatchURL =
  BID :: string
  BURL :: string

record BatchShortened =
  SID :: string
  SShort :: string

fun batch_urls :: "nat \<Rightarrow> user \<Rightarrow> BatchURL list \<Rightarrow> nat src \<Rightarrow> URL list \<times> nat src" where
  "batch_urls plen usr [] r = ([], r)"
| "batch_urls plen usr (b # bs) r =
     (let (path, r1) = RandString plen r; (us, r2) = batch_urls plen usr bs r1
      in (\<lparr>Short = path, Orig = BURL b, UserID = ID usr, TS = 0\<rparr> # us, r2))"

definition ShortenBatch ::
  "'s Storage \<Rightarrow> Service \<Rightarrow> user \<Rightarrow> BatchURL list \<Rightarrow> 's \<Rightarrow> nat src \<Rightarrow>
     BatchShortened list gret \<times> 's \<times> nat src" where
  "ShortenBatch st svc usr batch s r =
     (let (urls, r') = batch_urls (pathLength svc) usr batch r
      in case st_StoreBatch st s urls of
           (Some e, s') \<Rightarrow> (([], errors_join [Some (Sentinel ErrStorageError), Some e]), s', r')
         | (None, s') \<Rightarrow>
             ((map (\<lambda>(b, u). \<lparr>SID = BID b, SShort = getServedURL svc (Short u)\<rparr>) (zip batch urls),
               None), s', r'))"

definition GetAll :: "'s Storage \<Rightarrow> Service \<Rightarrow> user \<Rightarrow> 's \<Rightarrow> URL list gret \<times> 's" where
  "GetAll st svc usr s =
     (if IsNew usr then (([], Some (Sentinel ErrUnauthorized)), s)
      else (case st_ListUserURLs st s (ID usr) of
          ((_, Some e), s') \<Rightarrow> (([], errors_join [Some (Sentinel ErrStorageError), Some e]), s')
        | ((urls, None), s') \<Rightarrow> ((map (\<lambda>u. u\<lparr>Short := getServedURL svc (Short u)\<rparr>) urls, None), s')))"

text \<open>
  The loop of \<open>DeleteBatch\<close> over the delete queue: \<^const>\<open>None\<close> when a \<open>Push\<close> blocks.
\<close>

fun push_all :: "int \<Rightarrow> user \<Rightarrow> string list \<Rightarrow> URL Flusher \<Rightarrow> (gerr option \<times> URL Flusher) option" where
  "push_all ts usr [] f = Some (None, f)"
| "push_all ts usr (short # shorts) f =
     (case Push f \<lparr>Short = short, Orig = [], UserID = ID usr, TS = ts\<rparr> of
        None \<Rightarrow> None
      | Some (Some e, f') \<Rightarrow> Some (errors_join [Some (Sentinel ErrDelete), Some e], f')
      | Some (None, f') \<Rightarrow> push_all ts usr shorts f')"

definition DeleteBatch ::
  "int \<Rightarrow> user \<Rightarrow> string list \<Rightarrow> URL Flusher \<Rightarrow> (gerr option \<times> URL Flusher) option" where
  "DeleteBatch now usr shorts f =
     (if IsNew usr then Some (Some (Sentinel ErrUnauthorized), f)
      else if shorts = [] then Some (Some (Sentinel ErrEmptyBatch), f)
      else push_all now usr shorts f)"

text \<open>The flush function of the delete queue: an error of the storage is only logged.\<close>

definition deleteURLs :: "'s Storage \<Rightarrow> URL list \<Rightarrow> 's \<Rightarrow> 's" where
  "deleteURLs st urls s = snd (st_DeleteUserURLs st s urls)"

text \<open>One flush of the delete queue into the storage.\<close>

definition flush_deletes :: "'s Storage \<Rightarrow> URL Flusher \<Rightarrow> 's \<Rightarrow> URL Flusher \<times> 's" where
  "flush_deletes st f s = (case doFlush f of
     (None, f') \<Rightarrow> (f', s)
   | (Some b, f') \<Rightarrow> (f', deleteURLs st b s))"

section \<open>Against the contract of the storage\<close>

definition new_entry :: "user \<Rightarrow> string \<Rightarrow> entry" where
  "new_entry usr u = \<lparr>e_orig = u, e_user = ID usr, e_deleted = False\<rparr>"

lemma new_entry_simps [simp]:
  "e_orig (new_entry usr u) = u" "e_user (new_entry usr u) = ID usr" "\<not> e_deleted (new_entry usr u)"
  by (simp_all add: new_entry_def)

lemma url_entry_new [simp]:
  "url_entry \<lparr>Short = p, Orig = u, UserID = ID usr, TS = t\<rparr> = new_entry usr u"
  by (simp add: url_entry_def new_entry_def)

definition random_path :: "nat \<Rightarrow> string \<Rightarrow> bool" where
  "random_path n p \<longleftrightarrow> (\<exists>r. p = fst (RandString n r))"

lemma random_path_valid: "random_path n p \<Longrightarrow> list_all pathChar p \<and> length p = n"
  using set_RandString alphabet_pathChar by (fastforce simp: random_path_def list_all_iff)

lemma random_pathI [intro]: "RandString n r = (p, r') \<Longrightarrow> random_path n p"
  unfolding random_path_def by (metis fst_conv)

lemma batch_urls_props:
  "batch_urls n usr bs r = (us, r') \<Longrightarrow> length us = length bs \<and> map Orig us = map BURL bs \<and>
     list_all (\<lambda>u. random_path n (Short u) \<and> UserID u = ID usr \<and> TS u = 0) us"
proof (induction bs arbitrary: us r r')
  case Nil
  then show ?case by simp
next
  case (Cons b bs)
  obtain p r1 where p: "RandString n r = (p, r1)" by (cases "RandString n r")
  obtain vs r2 where vs: "batch_urls n usr bs r1 = (vs, r2)" by (cases "batch_urls n usr bs r1")
  with Cons.IH [OF vs] Cons.prems p show ?case by auto
qed

context url_storage
begin

text \<open>
  One call of \<open>storeURL\<close>: success stores the url under a fresh random path that was free; a
  failure changes nothing, and a conflict names a path that resolves to the url.
\<close>

lemma storeURL_loop_result:
  assumes "storeURL_loop st n usr u i p0 err s r = ((p, e), s', r')" and "ok s"
    and "i = 0 \<longrightarrow> err \<noteq> None" and "\<forall>x. err = Some x \<longrightarrow> \<not> errors_is x (Sentinel ErrConflict)"
  shows "ok s' \<and>
    (e = None \<longrightarrow> random_path n p \<and> \<not> live (view s p) \<and> view s' = (view s)(p \<mapsto> new_entry usr u)) \<and>
    (e \<noteq> None \<longrightarrow> view s' = view s) \<and>
    (\<forall>x. e = Some x \<longrightarrow> errors_is x (Sentinel ErrConflict) \<longrightarrow>
       x = Sentinel ErrConflict \<and> get_result (view s p) = (u, None))"
  using assms
proof (induction i arbitrary: p0 err s r)
  case 0
  then show ?case by auto
next
  case (Suc i)
  obtain q r1 where q: "RandString n r = (q, r1)" by (cases "RandString n r")
  let ?u = "\<lparr>Short = q, Orig = u, UserID = ID usr, TS = 0\<rparr>"
  obtain sp er s1 where sto: "st_Store st s ?u False = ((sp, er), s1)"
    by (metis surj_pair)
  note q1 = random_pathI [OF q]
  show ?case
  proof (cases er)
    case None
    with store_law [OF Suc.prems(2) sto [unfolded None]] Suc.prems(1) q sto q1
    show ?thesis by auto
  next
    case (Some x)
    note err = store_err_law [OF Suc.prems(2) sto [unfolded Some]]
    note con = conflict_law [OF Suc.prems(2) sto [unfolded Some]]
    show ?thesis
    proof (cases "errors_is x (Sentinel ErrAlreadyExists) \<and> \<not> errors_is x (Sentinel ErrConflict)")
      case True
      with Suc.prems(1) q sto Some
      have "storeURL_loop st n usr u i q (Some x) s1 r1 = ((p, e), s', r')" by simp
      from Suc.IH [OF this] err True show ?thesis by auto
    next
      case False
      then have r: "e = Some x" "s' = s1" "errors_is x (Sentinel ErrConflict) \<longrightarrow> p = sp"
        using Suc.prems(1) q sto Some by (auto split: if_splits)
      then have "errors_is x (Sentinel ErrConflict) \<longrightarrow>
          x = Sentinel ErrConflict \<and> get_result (view s p) = (u, None)"
        using con by simp
      with r err show ?thesis by simp
    qed
  qed
qed

lemma storeURL_result:
  assumes "storeURL st svc usr u s r = ((p, e), s', r')" and "ok s"
  shows "ok s' \<and>
    (e = None \<longrightarrow> random_path (pathLength svc) p \<and> \<not> live (view s p) \<and>
       view s' = (view s)(p \<mapsto> new_entry usr u)) \<and>
    (e \<noteq> None \<longrightarrow> view s' = view s) \<and>
    (\<forall>x. e = Some x \<longrightarrow> errors_is x (Sentinel ErrConflict) \<longrightarrow>
       x = Sentinel ErrConflict \<and> get_result (view s p) = (u, None))"
  by (rule storeURL_loop_result [OF assms(1) [unfolded storeURL_def] assms(2)])
    (simp_all add: defaultStoreRetries_def)

lemma Shorten_ok:
  assumes "Shorten urlParse st svc usr orig s r = ((served, None), s', r')" and "ok s"
  shows "\<exists>pu p. urlParse orig = Inr pu \<and> (redirectScheme svc = [] \<or> Scheme pu = redirectScheme svc) \<and>
    served = getServedURL svc p \<and> random_path (pathLength svc) p \<and> \<not> live (view s p) \<and>
    view s' = (view s)(p \<mapsto> new_entry usr (url_String pu)) \<and> ok s'"
proof -
  from assms(1) obtain pu where pu: "urlParse orig = Inr pu"
      "redirectScheme svc = [] \<or> Scheme pu = redirectScheme svc"
    by (auto simp: Shorten_def split: sum.splits if_splits)
  obtain p e s1 r1 where sto: "storeURL st svc usr (url_String pu) s r = ((p, e), s1, r1)"
    by (metis surj_pair)
  with assms(1) pu have "e = None" "served = getServedURL svc p" "s1 = s'"
    by (auto simp: Shorten_def split: sum.splits if_splits option.splits)
  with storeURL_result [OF sto assms(2)] pu show ?thesis by auto
qed

lemma Shorten_error:
  assumes "Shorten urlParse st svc usr orig s r = ((served, Some e), s', r')" and "ok s"
  shows "ok s' \<and> view s' = view s \<and>
    (e = Sentinel ErrConflict \<longrightarrow> (\<exists>pu p. urlParse orig = Inr pu \<and> served = getServedURL svc p \<and>
       get_result (view s' p) = (url_String pu, None)))"
proof (cases "urlParse orig")
  case (Inl x)
  with assms show ?thesis by (auto simp: Shorten_def)
next
  case (Inr pu)
  obtain p x s1 r1 where sto: "storeURL st svc usr (url_String pu) s r = ((p, x), s1, r1)"
    by (metis surj_pair)
  from assms(1) Inr sto show ?thesis using storeURL_result [OF sto assms(2)] assms(2)
    by (auto simp: Shorten_def split: if_splits option.splits)
qed

text \<open>What was shortened resolves, and every other live path resolves as before.\<close>

lemma Shorten_then_Resolve:
  assumes "Shorten urlParse st svc usr orig s r = ((served, None), s', r')" and "ok s"
  shows "\<exists>pu p s''. urlParse orig = Inr pu \<and> served = getServedURL svc p \<and>
    Resolve st (CHR ''/'' # p) s' = Ret ((url_String pu, None), s'')"
proof -
  from Shorten_ok [OF assms] obtain pu p where pu: "urlParse orig = Inr pu"
      "served = getServedURL svc p" "random_path (pathLength svc) p"
      "view s' p = Some (new_entry usr (url_String pu))" "ok s'" by auto
  then show ?thesis using resolve_result [OF pu(5), of p] random_path_valid [OF pu(3)] by auto
qed

lemma Shorten_keeps_live:
  assumes "Shorten urlParse st svc usr orig s r = ((served, e), s', r')" and "ok s"
    and "live (view s q)"
  shows "view s' q = view s q"
proof (cases e)
  case None
  with Shorten_ok [of urlParse svc usr orig s r served s' r'] assms show ?thesis
    by (auto simp: fun_upd_def)
next
  case (Some x)
  with Shorten_error [of urlParse svc usr orig s r served x s' r'] assms show ?thesis by auto
qed

lemma ShortenBatch_ok:
  assumes "ShortenBatch st svc usr batch s r = ((res, None), s', r')" and "ok s"
  shows "\<exists>us. length us = length batch \<and> map Orig us = map BURL batch \<and>
    list_all (\<lambda>u. random_path (pathLength svc) (Short u) \<and> UserID u = ID usr) us \<and>
    res = map (\<lambda>(b, u). \<lparr>SID = BID b, SShort = getServedURL svc (Short u)\<rparr>) (zip batch us) \<and>
    (\<forall>u \<in> set us. \<not> live (view s (Short u))) \<and> view s' = insert_all us (view s) \<and> ok s'"
proof -
  obtain us r1 where us: "batch_urls (pathLength svc) usr batch r = (us, r1)"
    by (metis surj_pair)
  obtain e s1 where sb: "st_StoreBatch st s us = (e, s1)" by (metis surj_pair)
  with assms(1) us have "e = None" "s1 = s'"
      "res = map (\<lambda>(b, u). \<lparr>SID = BID b, SShort = getServedURL svc (Short u)\<rparr>) (zip batch us)"
    by (auto simp: ShortenBatch_def split: option.splits)
  moreover from this batch_law [OF assms(2)] sb
  have "\<forall>u \<in> set us. \<not> live (view s (Short u))" "view s' = insert_all us (view s)" "ok s'" by auto
  ultimately show ?thesis using batch_urls_props [OF us] by (auto simp: list_all_iff)
qed

lemma ShortenBatch_error:
  assumes "ShortenBatch st svc usr batch s r = ((res, Some e), s', r')" and "ok s"
  shows "ok s' \<and> view s' = view s \<and> res = []"
proof -
  obtain us r1 where us: "batch_urls (pathLength svc) usr batch r = (us, r1)"
    by (metis surj_pair)
  obtain x s1 where sb: "st_StoreBatch st s us = (x, s1)" by (metis surj_pair)
  with assms(1) us batch_err_law [OF assms(2), of us _ s1] show ?thesis
    by (auto simp: ShortenBatch_def split: option.splits)
qed

text \<open>Listing shows a user only urls of their own.\<close>

lemma GetAll_own:
  assumes "GetAll st svc usr s = ((us, None), s')" and "ok s" and "v \<in> set us"
  shows "\<not> IsNew usr \<and> (\<exists>p en. Short v = getServedURL svc p \<and> view s p = Some en \<and>
    e_user en = ID usr \<and> e_orig en = Orig v)"
proof -
  obtain ls e s1 where l: "st_ListUserURLs st s (ID usr) = ((ls, e), s1)" by (metis surj_pair)
  with assms(1) have "\<not> IsNew usr" "e = None" "us = map (\<lambda>u. u\<lparr>Short := getServedURL svc (Short u)\<rparr>) ls"
    by (auto simp: GetAll_def split: if_splits option.splits)
  moreover from this assms(3) obtain w where "w \<in> set ls" "v = w\<lparr>Short := getServedURL svc (Short w)\<rparr>"
    by auto
  ultimately show ?thesis using list_law [OF assms(2)] l by fastforce
qed

text \<open>A flush of the delete queue only deletes entries whose owner asked for it.\<close>

lemma flush_deletes_only:
  assumes "flush_deletes st f s = (f', s')" and "ok s"
  shows "ok s' \<and> deletes_only (buf f) (view s) (view s') \<and> buf f' = []"
proof (cases "buf f = []")
  case True
  with assms show ?thesis by (auto simp: flush_deletes_def doFlush_def)
next
  case False
  obtain dr s1 where d: "st_DeleteUserURLs st s (buf f) = (dr, s1)" by (metis surj_pair)
  with assms False delete_law [OF assms(2) d] show ?thesis
    by (auto simp: flush_deletes_def doFlush_def deleteURLs_def)
qed

end

text \<open>The links of a batch, on a storage that keeps its paths apart.\<close>

context batch_storage
begin

lemma ShortenBatch_links:
  assumes "ShortenBatch st svc usr b s r = ((res, None), s', r')" and "ok s"
  shows "ok s' \<and> map SID res = map BID b \<and>
    (\<forall>k < length b. \<exists>p. SShort (res ! k) = getServedURL svc p \<and> random_path (pathLength svc) p \<and> view s p = None \<and>
       view s' p = Some (new_entry usr (BURL (b ! k))))"
proof -
  obtain us r1 where us: "batch_urls (pathLength svc) usr b r = (us, r1)" by (metis surj_pair)
  obtain e s1 where sb: "st_StoreBatch st s us = (e, s1)" by (metis surj_pair)
  with assms(1) us have e: "e = None" "s1 = s'"
      and res: "res = map (\<lambda>(b, u). \<lparr>SID = BID b, SShort = getServedURL svc (Short u)\<rparr>) (zip b us)"
    by (auto simp: ShortenBatch_def split: option.splits)
  note props = batch_urls_props [OF us] and law = batch_law [OF assms(2) sb [unfolded e]]
  have len: "length us = length b" using props by auto
  have "\<exists>p. SShort (res ! k) = getServedURL svc p \<and> random_path (pathLength svc) p \<and> view s p = None \<and>
       view s' p = Some (new_entry usr (BURL (b ! k)))" if "k < length b" for k
  proof -
    have k: "us ! k \<in> set us" using that len by simp
    have u: "Orig (us ! k) = BURL (b ! k)" "random_path (pathLength svc) (Short (us ! k))" "UserID (us ! k) = ID usr"
      using props that by (auto simp: list_all_length list_eq_iff_nth_eq)
    have "view s' (Short (us ! k)) = Some (new_entry usr (BURL (b ! k)))"
      using batch_stored [OF assms(2) sb [unfolded e] k] u by (simp add: url_entry_def new_entry_def)
    then show ?thesis using u(2) batch_new_law [OF assms(2) sb [unfolded e] k] len that
      by (intro exI [of _ "Short (us ! k)"]) (simp add: res)
  qed
  moreover have "map SID res = map BID b" using len by (simp add: res list_eq_iff_nth_eq)
  ultimately show ?thesis using law by blast
qed

end

section \<open>The delete queue\<close>

definition delete_request :: "int \<Rightarrow> user \<Rightarrow> string \<Rightarrow> URL" where
  "delete_request ts usr short = \<lparr>Short = short, Orig = [], UserID = ID usr, TS = ts\<rparr>"

lemma Push_ok_buf: "Push f x = Some (None, f') \<Longrightarrow> buf f' = buf f @ [x] \<and> \<not> shutdown f'"
  by (auto simp: Push_def push_body_def push_send_def Let_def split: if_splits prod.splits bool.splits)

lemma push_all_buf:
  "push_all ts usr shorts f = Some (None, f') \<Longrightarrow>
     buf f' = buf f @ map (delete_request ts usr) shorts"
proof (induction shorts arbitrary: f)
  case Nil
  then show ?case by simp
next
  case (Cons s ss)
  then obtain f1 where p: "Push f (delete_request ts usr s) = Some (None, f1)"
      and "push_all ts usr ss f1 = Some (None, f')"
    by (auto simp: delete_request_def split: option.splits)
  with Cons.IH Push_ok_buf [OF p] show ?case by simp
qed

end
