(* ===== verification/Database.thy ===== *)
theory Database
  imports Storage_If "HOL-Library.Multiset"
begin

text \<open>
  The database storage: \<open>internal/storage/database/database.go\<close>, \<open>config.go\<close>,
  \<open>migrate.go\<close> and the schema of \<open>migrations/*.sql\<close>. The statements the code sends are
  translated as functions on the table; the connection pool (pgx) is a parameter, a record
  of the methods the code calls, whose contract is the locale \<open>pgx_pool\<close>.
\<close>

section \<open>The table and the statements\<close>

text \<open>
  A row of the table \<open>urls\<close>; \<open>r_ts\<close> is in microseconds. The list is the order of a scan.
\<close>

record row =
  r_hash :: string
  r_orig :: string
  r_userid :: string
  r_deleted :: bool
  r_ts :: int

type_synonym table = "row list"

text \<open>The statements of \<open>database.go\<close> with their arguments.\<close>

datatype sqlcmd =
    InsertURL string string string
  | UpdateDeleted string string int
  | UpdateHash string string

datatype sqlquery =
    SelectOrig string
  | SelectUser string
  | SelectHash string
  | SelectCounts

datatype sqlval = VText string | VBool bool | VInt int

text \<open>
  What the server adds to a statement: its clock, which of several violated constraints it
  reports, and a refusal for a reason outside the schema (encoding, timeout, disk).
\<close>

record sqlenv =
  env_now :: int
  env_pick :: nat
  env_refuse :: "gerr option"

definition urlsIndexHash :: string where
  "urlsIndexHash = ''urls_hash''"

definition urlsIndexOrig :: string where
  "urlsIndexOrig = ''urls_orig_key''"

abbreviation UniqueViolation :: string where
  "UniqueViolation \<equiv> ''23505''"

text \<open>
  A \<open>VARCHAR(n)\<close> column counts characters of the UTF-8 text; excess characters are an
  error (a text whose excess is only spaces, which the server would cut, is not treated
  apart).
\<close>

definition utf8_length :: "string \<Rightarrow> nat" where
  "utf8_length s = length (filter (\<lambda>c. let n = of_char c :: nat in n < 128 \<or> 192 \<le> n) s)"

definition column_errors :: "string \<Rightarrow> nat \<Rightarrow> string \<Rightarrow> gerr list" where
  "column_errors check n s =
     (if n < utf8_length s then [PgError ''22001'' []] else []) @
     (if s = [] then [PgError ''23514'' check] else [])"

definition insert_errors :: "table \<Rightarrow> string \<Rightarrow> string \<Rightarrow> string \<Rightarrow> gerr list" where
  "insert_errors t h orig uid =
     column_errors ''hash_not_empty'' 20 h @ column_errors ''orig_not_empty'' 500 orig @
     column_errors ''userid_not_empty'' 30 uid @
     (if list_ex (\<lambda>r. r_orig r = orig) t then [PgError UniqueViolation urlsIndexOrig] else []) @
     (if list_ex (\<lambda>r. r_hash r = h) t then [PgError UniqueViolation urlsIndexHash] else [])"

definition rename_errors :: "table \<Rightarrow> string \<Rightarrow> string \<Rightarrow> gerr list" where
  "rename_errors t h orig =
     (if list_ex (\<lambda>r. r_orig r = orig) t
      then column_errors ''hash_not_empty'' 20 h @
        (if list_ex (\<lambda>r. r_hash r = h \<and> r_orig r \<noteq> orig) t
         then [PgError UniqueViolation urlsIndexHash] else [])
      else [])"

definition marks :: "string \<Rightarrow> string \<Rightarrow> int \<Rightarrow> row \<Rightarrow> bool" where
  "marks h uid ts r \<longleftrightarrow> r_hash r = h \<and> r_userid r = uid \<and> r_ts r < ts"

definition report :: "sqlenv \<Rightarrow> gerr list \<Rightarrow> (int \<times> table) \<Rightarrow> gerr + int \<times> table" where
  "report en errs res = (case env_refuse en of
     Some e \<Rightarrow> Inl e
   | None \<Rightarrow> if errs = [] then Inr res else Inl (errs ! (env_pick en mod length errs)))"

fun exec_sql :: "sqlenv \<Rightarrow> sqlcmd \<Rightarrow> table \<Rightarrow> gerr + int \<times> table" where
  "exec_sql en (InsertURL h orig uid) t = report en (insert_errors t h orig uid)
     (1, t @ [\<lparr>r_hash = h, r_orig = orig, r_userid = uid, r_deleted = False, r_ts = env_now en\<rparr>])"
| "exec_sql en (UpdateDeleted h uid ts) t = report en []
     (int (length (filter (marks h uid ts) t)),
      map (\<lambda>r. if marks h uid ts r then r\<lparr>r_deleted := True\<rparr> else r) t)"
| "exec_sql en (UpdateHash h orig) t = report en (rename_errors t h orig)
     (int (length (filter (\<lambda>r. r_orig r = orig) t)),
      map (\<lambda>r. if r_orig r = orig then r\<lparr>r_hash := h\<rparr> else r) t)"

text \<open>The statements of a batch, one after the other; the first error ends it.\<close>

fun exec_all :: "sqlenv src \<Rightarrow> sqlcmd list \<Rightarrow> table \<Rightarrow> gerr + int list \<times> table" where
  "exec_all es [] t = Inr ([], t)"
| "exec_all es (q # qs) t = (let (en, es') = next_src es in
     case exec_sql en q t of
       Inl e \<Rightarrow> Inl e
     | Inr (n, t') \<Rightarrow> (case exec_all es' qs t' of
         Inl e \<Rightarrow> Inl e
       | Inr (ns, t'') \<Rightarrow> Inr (n # ns, t'')))"

fun select_sql :: "sqlquery \<Rightarrow> table \<Rightarrow> sqlval list list" where
  "select_sql (SelectOrig h) t =
     map (\<lambda>r. [VText (r_orig r), VBool (r_deleted r)]) (filter (\<lambda>r. r_hash r = h) t)"
| "select_sql (SelectUser uid) t =
     map (\<lambda>r. [VText (r_hash r), VText (r_orig r)])
       (filter (\<lambda>r. r_userid r = uid \<and> \<not> r_deleted r) t)"
| "select_sql (SelectHash orig) t =
     map (\<lambda>r. [VText (r_hash r)]) (filter (\<lambda>r. r_orig r = orig \<and> \<not> r_deleted r) t)"
| "select_sql SelectCounts t = (let live = filter (\<lambda>r. \<not> r_deleted r) t in
     [[VInt (int (length live)), VInt (int (card (set (map r_userid live))))]])"

section \<open>The pool\<close>

text \<open>
  The methods of \<open>pgxpool.Pool\<close> the code calls: \<open>Ping\<close>, \<open>Exec\<close> (the affected rows),
  \<open>QueryRow\<close> with \<open>Scan\<close> (the first row, or an error), \<open>Query\<close> (its error and what
  \<open>CollectRows\<close> makes of the rows), and \<open>SendBatch\<close> with \<open>Close\<close> (the affected rows that
  the callbacks see).
\<close>

record 'p Pool =
  p_Ping :: "'p \<Rightarrow> gerr option \<times> 'p"
  p_Exec :: "sqlcmd \<Rightarrow> 'p \<Rightarrow> (gerr + int) \<times> 'p"
  p_QueryRow :: "sqlquery \<Rightarrow> 'p \<Rightarrow> (gerr + sqlval list) \<times> 'p"
  p_Query :: "sqlquery \<Rightarrow> 'p \<Rightarrow> (gerr option \<times> (gerr + sqlval list list)) \<times> 'p"
  p_SendBatch :: "sqlcmd list \<Rightarrow> 'p \<Rightarrow> (gerr + int list) \<times> 'p"

section \<open>database.go\<close>

text \<open>The state of the storage: that of the pool, and the wall clock (\<open>time.Now\<close>).\<close>

record 'p Database =
  pool_st :: 'p
  wall :: "int src"

definition db_Ping :: "'p Pool \<Rightarrow> 'p Database \<Rightarrow> gerr option \<times> 'p Database" where
  "db_Ping pool db = (case p_Ping pool (pool_st db) of
     (Some e, p) \<Rightarrow> (Some (Wrap ''db ping unsuccessful'' e), db\<lparr>pool_st := p\<rparr>)
   | (None, p) \<Rightarrow> (None, db\<lparr>pool_st := p\<rparr>))"

definition scan_error :: gerr where
  "scan_error = Errmsg ''cannot scan''"

definition db_Stats :: "'p Pool \<Rightarrow> 'p Database \<Rightarrow> Stats option gret \<times> 'p Database" where
  "db_Stats pool db = (case p_QueryRow pool SelectCounts (pool_st db) of
     (Inr [VInt urls, VInt users], p) \<Rightarrow> ((Some \<lparr>URLs = urls, Users = users\<rparr>, None), db\<lparr>pool_st := p\<rparr>)
   | (Inr _, p) \<Rightarrow> ((None, Some (Wrap ''stats query error'' scan_error)), db\<lparr>pool_st := p\<rparr>)
   | (Inl e, p) \<Rightarrow> ((None, Some (Wrap ''stats query error'' e)), db\<lparr>pool_st := p\<rparr>))"

definition getHashByURL :: "'p Pool \<Rightarrow> 'p Database \<Rightarrow> string \<Rightarrow> string gret \<times> 'p Database" where
  "getHashByURL pool db url = (case p_QueryRow pool (SelectHash url) (pool_st db) of
     (Inr [VText hash], p) \<Rightarrow> ((hash, None), db\<lparr>pool_st := p\<rparr>)
   | (Inr _, p) \<Rightarrow> (([], Some scan_error), db\<lparr>pool_st := p\<rparr>)
   | (Inl e, p) \<Rightarrow> (([], Some (if errors_is e (Sentinel PgxErrNoRows) then Sentinel ErrNotFound else e)),
       db\<lparr>pool_st := p\<rparr>))"

definition db_Get :: "'p Pool \<Rightarrow> 'p Database \<Rightarrow> string \<Rightarrow> string gret \<times> 'p Database" where
  "db_Get pool db hash = (case p_QueryRow pool (SelectOrig hash) (pool_st db) of
     (r, p) \<Rightarrow>
       let err = (case r of Inl e \<Rightarrow> Some e | Inr [VText _, VBool _] \<Rightarrow> None | Inr _ \<Rightarrow> Some scan_error);
           (url, deleted) = (case r of Inr [VText u, VBool d] \<Rightarrow> (u, d) | _ \<Rightarrow> ([], False))
       in (if (case err of None \<Rightarrow> False | Some e \<Rightarrow> errors_is e (Sentinel PgxErrNoRows))
           then (([], Some (Sentinel ErrNotFound)), db\<lparr>pool_st := p\<rparr>)
           else if deleted then (([], Some (Sentinel ErrDeleted)), db\<lparr>pool_st := p\<rparr>)
           else ((url, None), db\<lparr>pool_st := p\<rparr>)))"

text \<open>
  \<open>Store\<close> with \<open>overwrite\<close> false, \<open>updateOrig\<close> (whose statement sets the hash of the row
  that has the url), \<open>storeWithOverwrite\<close> and \<open>Store\<close>.
\<close>

definition store_insert :: "'p Pool \<Rightarrow> 'p Database \<Rightarrow> URL \<Rightarrow> string gret \<times> 'p Database" where
  "store_insert pool db url =
     (case p_Exec pool (InsertURL (Short url) (Orig url) (UserID url)) (pool_st db) of
        (Inr n, p) \<Rightarrow>
          (([], if n \<noteq> 1 then Some (Errmsg ''affected rows, expected: 1'') else None), db\<lparr>pool_st := p\<rparr>)
      | (Inl err, p) \<Rightarrow>
          (case errors_as_pg err of
             None \<Rightarrow> (([], Some (Wrap ''unknown postgres error'' err)), db\<lparr>pool_st := p\<rparr>)
           | Some (code, constraint) \<Rightarrow>
               if code = UniqueViolation \<and> constraint = urlsIndexHash
               then (([], Some (Sentinel ErrAlreadyExists)), db\<lparr>pool_st := p\<rparr>)
               else if code = UniqueViolation \<and> constraint = urlsIndexOrig
               then (case getHashByURL pool (db\<lparr>pool_st := p\<rparr>) (Orig url) of
                   ((_, Some errGet), db') \<Rightarrow> (([], Some errGet), db')
                 | ((storedHash, None), db') \<Rightarrow> ((storedHash, Some (Sentinel ErrConflict)), db'))
               else (([], Some (Wrap ''postgres error'' err)), db\<lparr>pool_st := p\<rparr>)))"

definition updateOrig :: "'p Pool \<Rightarrow> 'p Database \<Rightarrow> URL \<Rightarrow> gerr option \<times> 'p Database" where
  "updateOrig pool db url =
     (case p_Exec pool (UpdateHash (Short url) (Orig url)) (pool_st db) of
        (Inl e, p) \<Rightarrow> (Some (Wrap ''database update error'' e), db\<lparr>pool_st := p\<rparr>)
      | (Inr n, p) \<Rightarrow>
          (if n \<noteq> 1 then Some (Errmsg ''update affected rows, expected: 1'') else None, db\<lparr>pool_st := p\<rparr>))"

definition storeWithOverwrite :: "'p Pool \<Rightarrow> 'p Database \<Rightarrow> URL \<Rightarrow> string gret \<times> 'p Database" where
  "storeWithOverwrite pool db url = (case db_Get pool db (Short url) of
     ((_, Some err), db') \<Rightarrow>
       (if errors_is err (Sentinel ErrNotFound) then store_insert pool db' url else (([], Some err), db'))
   | ((storedURL, None), db') \<Rightarrow>
       (if storedURL = Orig url then (([], None), db')
        else (case updateOrig pool db' url of (e, db'') \<Rightarrow> (([], e), db''))))"

definition db_Store :: "'p Pool \<Rightarrow> 'p Database \<Rightarrow> URL \<Rightarrow> bool \<Rightarrow> string gret \<times> 'p Database" where
  "db_Store pool db url overwrite =
     (if overwrite then storeWithOverwrite pool db url else store_insert pool db url)"

definition db_StoreBatch :: "'p Pool \<Rightarrow> 'p Database \<Rightarrow> URL list \<Rightarrow> gerr option \<times> 'p Database" where
  "db_StoreBatch pool db urls =
     (case p_SendBatch pool (map (\<lambda>u. InsertURL (Short u) (Orig u) (UserID u)) urls) (pool_st db) of
        (Inr _, p) \<Rightarrow> (None, db\<lparr>pool_st := p\<rparr>)
      | (Inl err, p) \<Rightarrow>
          ((case errors_as_pg err of
              None \<Rightarrow> Some (Wrap ''unknown postgres error'' err)
            | Some (code, constraint) \<Rightarrow>
                if code = UniqueViolation then Some (Sentinel ErrAlreadyExists)
                else Some (Wrap ''pgx batch error'' err)), db\<lparr>pool_st := p\<rparr>))"

fun scan_urls :: "sqlval list list \<Rightarrow> gerr + URL list" where
  "scan_urls [] = Inr []"
| "scan_urls ([VText h, VText u] # rows) = (case scan_urls rows of
     Inl e \<Rightarrow> Inl e
   | Inr us \<Rightarrow> Inr (\<lparr>Short = h, Orig = u, UserID = [], TS = 0\<rparr> # us))"
| "scan_urls (_ # rows) = Inl (Wrap ''error while scanning row'' scan_error)"

definition db_ListUserURLs :: "'p Pool \<Rightarrow> 'p Database \<Rightarrow> string \<Rightarrow> URL list gret \<times> 'p Database" where
  "db_ListUserURLs pool db userID = (case p_Query pool (SelectUser userID) (pool_st db) of
     ((err, rows), p) \<Rightarrow>
       (if (case err of None \<Rightarrow> False | Some e \<Rightarrow> errors_is e (Sentinel PgxErrNoRows))
        then (([], Some (Sentinel ErrNotFound)), db\<lparr>pool_st := p\<rparr>)
        else (case (case rows of Inl e \<Rightarrow> Inl e | Inr vs \<Rightarrow> scan_urls vs) of
            Inl errR \<Rightarrow> (([], Some (Wrap ''error while collecting rows'' errR)), db\<lparr>pool_st := p\<rparr>)
          | Inr urls \<Rightarrow>
              (if urls = [] then (([], Some (Sentinel ErrNotFound)), db\<lparr>pool_st := p\<rparr>)
               else ((urls, None), db\<lparr>pool_st := p\<rparr>)))))"

text \<open>
  The statements of \<open>DeleteUserURLs\<close>: \<open>ts\<close> starts as the wall clock and keeps the last
  timestamp that was set.
\<close>

fun delete_stmts :: "int \<Rightarrow> URL list \<Rightarrow> sqlcmd list" where
  "delete_stmts ts [] = []"
| "delete_stmts ts (url # urls) = (let ts' = (if TS url = 0 then ts else TS url) in
     UpdateDeleted (Short url) (UserID url) ts' # delete_stmts ts' urls)"

definition db_DeleteUserURLs :: "'p Pool \<Rightarrow> 'p Database \<Rightarrow> URL list \<Rightarrow> int gret \<times> 'p Database" where
  "db_DeleteUserURLs pool db urls = (let (now, w) = next_src (wall db) in
     case p_SendBatch pool (delete_stmts now urls) (pool_st db) of
       (Inl e, p) \<Rightarrow> ((0, Some (Wrap ''pgx batch delete error'' e)), \<lparr>pool_st = p, wall = w\<rparr>)
     | (Inr affected, p) \<Rightarrow> ((sum_list affected, None), \<lparr>pool_st = p, wall = w\<rparr>))"

definition database_storage :: "'p Pool \<Rightarrow> 'p Database Storage" where
  "database_storage pool = \<lparr>
     st_Get = db_Get pool,
     st_Store = db_Store pool,
     st_StoreBatch = db_StoreBatch pool,
     st_ListUserURLs = db_ListUserURLs pool,
     st_DeleteUserURLs = db_DeleteUserURLs pool,
     st_Ping = db_Ping pool,
     st_Stats = db_Stats pool\<rparr>"

section \<open>What the pool promises\<close>

text \<open>
  The unique indexes; a refusal of the server is foreign and is no unique violation; a
  command that fails leaves the table as it was, and so does a batch, which is one
  transaction.
\<close>

definition table_inv :: "table \<Rightarrow> bool" where
  "table_inv t \<longleftrightarrow> distinct (map r_hash t) \<and> distinct (map r_orig t)"

definition env_ok :: "sqlenv \<Rightarrow> bool" where
  "env_ok en \<longleftrightarrow> (case env_refuse en of None \<Rightarrow> True
     | Some e \<Rightarrow> foreign_err e \<and> map_option fst (errors_as_pg e) \<noteq> Some UniqueViolation)"

fun run_cmd :: "gerr + 'n \<times> table \<Rightarrow> table \<Rightarrow> (gerr + 'n) \<times> table" where
  "run_cmd (Inl e) t = (Inl e, t)"
| "run_cmd (Inr (n, t')) t = (Inr n, t')"

definition first_row :: "sqlval list list \<Rightarrow> gerr + sqlval list" where
  "first_row rows = (case rows of [] \<Rightarrow> Inl (Sentinel PgxErrNoRows) | r # _ \<Rightarrow> Inr r)"

locale pgx_pool =
  fixes pool :: "'p Pool"
    and tbl :: "'p \<Rightarrow> table"
    and up :: "'p \<Rightarrow> bool"
  assumes unique_law: "up s \<Longrightarrow> table_inv (tbl s)"
    and ping_law: "up s \<Longrightarrow> p_Ping pool s = (e, s') \<Longrightarrow> e = None \<and> up s' \<and> tbl s' = tbl s"
    and exec_law: "up s \<Longrightarrow> p_Exec pool q s = (r, s') \<Longrightarrow>
      up s' \<and> (\<exists>en. env_ok en \<and> (r, tbl s') = run_cmd (exec_sql en q (tbl s)) (tbl s))"
    and batch_law: "up s \<Longrightarrow> p_SendBatch pool qs s = (rs, s') \<Longrightarrow>
      up s' \<and> (\<exists>es. (\<forall>i. env_ok (es i)) \<and> (rs, tbl s') = run_cmd (exec_all es qs (tbl s)) (tbl s))"
    and row_law: "up s \<Longrightarrow> p_QueryRow pool sel s = (row, s') \<Longrightarrow>
      up s' \<and> tbl s' = tbl s \<and> row = first_row (select_sql sel (tbl s))"
    and rows_law: "up s \<Longrightarrow> p_Query pool sel s = (rows, s') \<Longrightarrow>
      up s' \<and> tbl s' = tbl s \<and> (\<exists>vs. rows = (None, Inr vs) \<and> mset vs = mset (select_sql sel (tbl s)))"


section \<open>The abstract map\<close>

definition row_entry :: "row \<Rightarrow> entry" where
  "row_entry r = \<lparr>e_orig = r_orig r, e_user = r_userid r, e_deleted = r_deleted r\<rparr>"

definition table_view :: "table \<Rightarrow> string \<rightharpoonup> entry" where
  "table_view t k = map_option row_entry (find (\<lambda>r. r_hash r = k) t)"

lemma row_entry_simps [simp]:
  "e_orig (row_entry r) = r_orig r" "e_user (row_entry r) = r_userid r"
  "e_deleted (row_entry r) = r_deleted r"
  by (simp_all add: row_entry_def)

lemma table_view_Nil [simp]: "table_view [] k = None"
  by (simp add: table_view_def)

lemma table_view_Cons [simp]:
  "table_view (r # t) k = (if r_hash r = k then Some (row_entry r) else table_view t k)"
  by (simp add: table_view_def)

lemma table_view_None: "table_view t k = None \<longleftrightarrow> (\<forall>r \<in> set t. r_hash r \<noteq> k)"
  by (induction t) auto

lemma table_view_append: "table_view (t @ u) k =
   (case table_view t k of None \<Rightarrow> table_view u k | Some en \<Rightarrow> Some en)"
  by (induction t) auto

lemma table_view_row:
  "table_inv t \<Longrightarrow> r \<in> set t \<Longrightarrow> table_view t (r_hash r) = Some (row_entry r)"
  by (induction t) (auto simp: table_inv_def)

lemma table_view_Some:
  "table_view t k = Some en \<Longrightarrow> \<exists>r \<in> set t. r_hash r = k \<and> en = row_entry r"
  by (induction t) (auto split: if_splits)

lemma first_SelectOrig:
  "first_row (select_sql (SelectOrig h) t) = (case table_view t h of
     None \<Rightarrow> Inl (Sentinel PgxErrNoRows) | Some en \<Rightarrow> Inr [VText (e_orig en), VBool (e_deleted en)])"
  by (induction t) (auto simp: first_row_def)

lemma first_SelectHash:
  "first_row (select_sql (SelectHash u) t) =
     (case find (\<lambda>r. r_orig r = u \<and> \<not> r_deleted r) t of
       None \<Rightarrow> Inl (Sentinel PgxErrNoRows) | Some r \<Rightarrow> Inr [VText (r_hash r)])"
  by (induction t) (auto simp: first_row_def)

section \<open>What the commands do to the table\<close>

lemma report_cases:
  assumes "env_ok en"
  obtains (ok) "errs = []" "report en errs res = Inr res"
  | (schema) e where "e \<in> set errs" "report en errs res = Inl e"
  | (refused) e where "foreign_err e" "map_option fst (errors_as_pg e) \<noteq> Some UniqueViolation"
      "report en errs res = Inl e"
proof (cases "env_refuse en")
  case (Some e)
  then show ?thesis using assms by (intro refused) (auto simp: env_ok_def report_def)
next
  case None
  show ?thesis
  proof (cases "errs = []")
    case True
    then show ?thesis using None by (intro ok) (simp_all add: report_def)
  next
    case False
    then show ?thesis using None by (intro schema) (simp_all add: report_def)
  qed
qed

lemma insert_errors_PgError: "e \<in> set (insert_errors t h u uid) \<Longrightarrow> \<exists>c k. e = PgError c k \<and>
   (c = UniqueViolation \<longrightarrow> k = urlsIndexOrig \<and> (\<exists>r \<in> set t. r_orig r = u) \<or>
      k = urlsIndexHash \<and> (\<exists>r \<in> set t. r_hash r = h))"
  by (auto simp: insert_errors_def column_errors_def list_ex_iff split: if_splits)

lemma insert_errors_Nil: "insert_errors t h u uid = [] \<Longrightarrow>
   (\<forall>r \<in> set t. r_hash r \<noteq> h \<and> r_orig r \<noteq> u)"
  by (auto simp: insert_errors_def list_ex_iff split: if_splits)

lemma exec_insert_ok:
  assumes "exec_sql en (InsertURL h u uid) t = Inr (n, t')" and "table_inv t"
  shows "n = 1 \<and> table_inv t' \<and> table_view t h = None \<and>
    table_view t' = (table_view t)(h \<mapsto> \<lparr>e_orig = u, e_user = uid, e_deleted = False\<rparr>)"
proof -
  have "insert_errors t h u uid = []" and t': "n = 1"
      "t' = t @ [\<lparr>r_hash = h, r_orig = u, r_userid = uid, r_deleted = False, r_ts = env_now en\<rparr>]"
    using assms(1) by (auto simp: report_def split: option.splits if_splits)
  note free = insert_errors_Nil [OF this(1)]
  then have "table_view t h = None" by (simp add: table_view_None)
  moreover have "table_inv t'" using assms(2) t' free by (auto simp: table_inv_def)
  moreover have "table_view t' = (table_view t)(h \<mapsto> \<lparr>e_orig = u, e_user = uid, e_deleted = False\<rparr>)"
    using \<open>table_view t h = None\<close> t'
    by (auto simp: table_view_append fun_eq_iff row_entry_def split: option.splits)
  ultimately show ?thesis using t' by simp
qed

lemma table_inv_mark: "table_inv t \<Longrightarrow> table_inv (map (\<lambda>r. if P r then r\<lparr>r_deleted := True\<rparr> else r) t)"
  by (simp add: table_inv_def o_def if_distrib cong: if_cong)

lemma table_view_mark:
  "table_view (map (\<lambda>r. if marks h uid ts r then r\<lparr>r_deleted := True\<rparr> else r) t) k = table_view t k \<or>
   (\<exists>en. table_view t k = Some en \<and> k = h \<and> e_user en = uid \<and>
      table_view (map (\<lambda>r. if marks h uid ts r then r\<lparr>r_deleted := True\<rparr> else r) t) k
        = Some (en\<lparr>e_deleted := True\<rparr>))"
  by (induction t) (auto simp: marks_def row_entry_def)

lemma exec_all_inserts:
  assumes "exec_all es (map (\<lambda>u. InsertURL (Short u) (Orig u) (UserID u)) us) t = Inr (ns, t')"
    and "table_inv t"
  shows "(\<forall>u \<in> set us. table_view t (Short u) = None) \<and> distinct (map Short us) \<and>
    table_view t' = insert_all us (table_view t)"
  using assms
proof (induction us arbitrary: es t ns)
  case Nil
  then show ?case by simp
next
  case (Cons u us)
  obtain n t1 ns1 where 1: "exec_sql (es 0) (InsertURL (Short u) (Orig u) (UserID u)) t = Inr (n, t1)"
      and 2: "exec_all (\<lambda>i. es (Suc i)) (map (\<lambda>u. InsertURL (Short u) (Orig u) (UserID u)) us) t1 = Inr (ns1, t')"
    using Cons.prems(1) by (auto simp: next_src_def simp del: exec_sql.simps split: sum.splits prod.splits)
  from exec_insert_ok [OF 1 Cons.prems(2)] have t1: "table_inv t1" "table_view t (Short u) = None"
      "table_view t1 = (table_view t)(Short u \<mapsto> url_entry u)" by (simp_all add: url_entry_def)
  from Cons.IH [OF 2 t1(1)] t1 show ?case by (auto simp: fun_upd_def image_iff split: if_splits)
qed

lemma exec_all_deletes:
  assumes "exec_all es (delete_stmts ts us) t = Inr (ns, t')" and "table_inv t"
  shows "deletes_only us (table_view t) (table_view t')"
  using assms
proof (induction us arbitrary: es ts t ns)
  case Nil
  then show ?case by simp
next
  case (Cons u us)
  define ts1 where "ts1 = (if TS u = 0 then ts else TS u)"
  let ?t = "map (\<lambda>r. if marks (Short u) (UserID u) ts1 r then r\<lparr>r_deleted := True\<rparr> else r) t"
  obtain ns1 where 2: "exec_all (\<lambda>i. es (Suc i)) (delete_stmts ts1 us) ?t = Inr (ns1, t')"
    using Cons.prems(1)
    by (auto simp: next_src_def Let_def report_def ts1_def [symmetric] split: sum.splits prod.splits option.splits)
  have "deletes_only [u] (table_view t) (table_view ?t)"
    unfolding deletes_only_def
  proof
    fix k
    have "requested [u] (Short u) (UserID u)" by (simp add: requested_def)
    then show "table_view ?t k = table_view t k \<or> (\<exists>en. table_view t k = Some en \<and>
        requested [u] k (e_user en) \<and> table_view ?t k = Some (en\<lparr>e_deleted := True\<rparr>))"
      using table_view_mark [of "Short u" "UserID u" ts1 t k] by (elim disjE exE conjE) simp_all
  qed
  from deletes_only_trans [OF this Cons.IH [OF 2]] Cons.prems(2) show ?case
    by (simp add: table_inv_mark)
qed

lemma scan_SelectUser:
  "mset vs = mset (select_sql (SelectUser uid) t) \<Longrightarrow> \<exists>us. scan_urls vs = Inr us \<and>
     (\<forall>u \<in> set us. \<exists>r \<in> set t. r_hash r = Short u \<and> r_orig r = Orig u \<and> r_userid r = uid \<and> \<not> r_deleted r)"
proof -
  assume "mset vs = mset (select_sql (SelectUser uid) t)"
  then have "set vs = set (select_sql (SelectUser uid) t)" by (rule mset_eq_setD)
  then have "\<forall>v \<in> set vs. \<exists>r \<in> set t. r_userid r = uid \<and> \<not> r_deleted r \<and> v = [VText (r_hash r), VText (r_orig r)]"
    by auto
  then show ?thesis
  proof (induction vs)
    case Nil
    then show ?case by simp
  next
    case (Cons v vs)
    then obtain r where r: "r \<in> set t" "r_userid r = uid" "\<not> r_deleted r" "v = [VText (r_hash r), VText (r_orig r)]"
      by auto
    from Cons obtain us where "scan_urls vs = Inr us"
      "\<forall>u \<in> set us. \<exists>r \<in> set t. r_hash r = Short u \<and> r_orig r = Orig u \<and> r_userid r = uid \<and> \<not> r_deleted r"
      by auto
    with r show ?case by fastforce
  qed
qed

section \<open>The operations against the pool\<close>

definition database_view :: "('p \<Rightarrow> table) \<Rightarrow> 'p Database \<Rightarrow> string \<rightharpoonup> entry" where
  "database_view tbl db = table_view (tbl (pool_st db))"

definition database_ok :: "('p \<Rightarrow> bool) \<Rightarrow> 'p Database \<Rightarrow> bool" where
  "database_ok up db = up (pool_st db)"

lemmas database_defs = database_view_def database_ok_def database_storage_def

context pgx_pool
begin

lemma Get_result:
  assumes "up (pool_st db)" and "db_Get pool db k = (r, db')"
  shows "up (pool_st db') \<and> tbl (pool_st db') = tbl (pool_st db) \<and>
    r = get_result (table_view (tbl (pool_st db)) k)"
proof -
  obtain row p where q: "p_QueryRow pool (SelectOrig k) (pool_st db) = (row, p)" by (metis surj_pair)
  from row_law [OF assms(1) q] have "up p" "tbl p = tbl (pool_st db)"
      and row: "row = first_row (select_sql (SelectOrig k) (tbl (pool_st db)))" by auto
  with assms(2) q show ?thesis
    unfolding row first_SelectOrig
    by (cases "table_view (tbl (pool_st db)) k") (auto simp: db_Get_def split: if_splits)
qed

lemma getHashByURL_result:
  assumes "up (pool_st db)" and "getHashByURL pool db u = (r, db')"
  shows "up (pool_st db') \<and> tbl (pool_st db') = tbl (pool_st db) \<and>
    r = (case find (\<lambda>r. r_orig r = u \<and> \<not> r_deleted r) (tbl (pool_st db)) of
      None \<Rightarrow> ([], Some (Sentinel ErrNotFound)) | Some row \<Rightarrow> (r_hash row, None))"
proof -
  obtain row p where q: "p_QueryRow pool (SelectHash u) (pool_st db) = (row, p)" by (metis surj_pair)
  from row_law [OF assms(1) q] have "up p" "tbl p = tbl (pool_st db)"
      and row: "row = first_row (select_sql (SelectHash u) (tbl (pool_st db)))" by auto
  with assms(2) q show ?thesis unfolding row first_SelectHash
    by (cases "find (\<lambda>r. r_orig r = u \<and> \<not> r_deleted r) (tbl (pool_st db))")
      (auto simp: getHashByURL_def)
qed

text \<open>A taken url: the path of its row is looked up, unless the row is deleted.\<close>

lemma store_insert_known:
  assumes "p_Exec pool (InsertURL (Short u) (Orig u) (UserID u)) (pool_st db) = (Inl (PgError UniqueViolation urlsIndexOrig), p)"
    and "up p" and "\<exists>row \<in> set (tbl p). r_orig row = Orig u" and "store_insert pool db u = (r, db')"
  shows "up (pool_st db') \<and> tbl (pool_st db') = tbl p \<and> (\<exists>row \<in> set (tbl p). r_orig row = Orig u \<and>
    r = (if r_deleted row then ([], Some (Sentinel ErrNotFound)) else (r_hash row, Some (Sentinel ErrConflict))))"
proof -
  obtain g db1 where g: "getHashByURL pool (db\<lparr>pool_st := p\<rparr>) (Orig u) = (g, db1)" by (metis surj_pair)
  have up1: "up (pool_st (db\<lparr>pool_st := p\<rparr>))" using assms(2) by simp
  note gr = getHashByURL_result [OF up1 g]
  have neq: "urlsIndexOrig \<noteq> urlsIndexHash" by (simp add: urlsIndexOrig_def urlsIndexHash_def)
  show ?thesis
  proof (cases "find (\<lambda>r. r_orig r = Orig u \<and> \<not> r_deleted r) (tbl p)")
    case None
    then obtain row where row: "row \<in> set (tbl p)" "r_orig row = Orig u" "r_deleted row"
      using assms(3) by (auto simp: find_None_iff)
    have "r = ([], Some (Sentinel ErrNotFound))" "db' = db1"
      using assms(1,4) g gr None neq by (simp_all add: store_insert_def)
    with gr row show ?thesis by auto
  next
    case (Some row)
    then have row: "row \<in> set (tbl p)" "r_orig row = Orig u" "\<not> r_deleted row"
      by (auto simp: find_Some_iff)
    have "r = (r_hash row, Some (Sentinel ErrConflict))" "db' = db1"
      using assms(1,4) g gr Some neq by (simp_all add: store_insert_def)
    with gr row show ?thesis by auto
  qed
qed

text \<open>Everything an insert can do.\<close>

lemma store_insert_cases:
  assumes "up (pool_st db)" and "store_insert pool db u = (r, db')"
  obtains (stored) "r = ([], None)" "up (pool_st db')"
      "\<forall>row \<in> set (tbl (pool_st db)). r_orig row \<noteq> Orig u"
      "table_view (tbl (pool_st db)) (Short u) = None"
      "table_view (tbl (pool_st db')) = (table_view (tbl (pool_st db)))(Short u \<mapsto> url_entry u)"
  | (taken) "r = ([], Some (Sentinel ErrAlreadyExists))" "up (pool_st db')"
      "tbl (pool_st db') = tbl (pool_st db)" "table_view (tbl (pool_st db)) (Short u) \<noteq> None"
  | (conflict) row where "r = (r_hash row, Some (Sentinel ErrConflict))" "up (pool_st db')"
      "tbl (pool_st db') = tbl (pool_st db)" "row \<in> set (tbl (pool_st db))" "r_orig row = Orig u"
      "\<not> r_deleted row"
  | (gone) row where "r = ([], Some (Sentinel ErrNotFound))" "up (pool_st db')"
      "tbl (pool_st db') = tbl (pool_st db)" "row \<in> set (tbl (pool_st db))" "r_orig row = Orig u"
      "r_deleted row"
  | (failed) e where "r = ([], Some e)" "up (pool_st db')"
      "tbl (pool_st db') = tbl (pool_st db)" "foreign_err e"
proof -
  let ?t = "tbl (pool_st db)"
  let ?q = "InsertURL (Short u) (Orig u) (UserID u)"
  obtain x p where q: "p_Exec pool ?q (pool_st db) = (x, p)" by (metis surj_pair)
  from exec_law [OF assms(1) q] obtain en where p: "up p" and en: "env_ok en"
      and x: "(x, tbl p) = run_cmd (exec_sql en ?q ?t) ?t" by auto
  from unique_law [OF assms(1)] have inv: "table_inv ?t" .
  from en show ?thesis
  proof (cases rule: report_cases [of en "insert_errors ?t (Short u) (Orig u) (UserID u)"
        "(1, ?t @ [\<lparr>r_hash = Short u, r_orig = Orig u, r_userid = UserID u, r_deleted = False, r_ts = env_now en\<rparr>])"])
    case ok
    then obtain t' where e: "exec_sql en ?q ?t = Inr (1, t')" by simp
    with x have "x = Inr 1" "tbl p = t'" by simp_all
    moreover from this have "r = ([], None)" "db' = db\<lparr>pool_st := p\<rparr>"
      using assms(2) q by (simp_all add: store_insert_def)
    ultimately show ?thesis using p exec_insert_ok [OF e inv] insert_errors_Nil [OF ok(1)]
      by (intro stored) (simp_all add: url_entry_def)
  next
    case (schema e)
    then have x': "x = Inl e" "tbl p = ?t" using x by simp_all
    from insert_errors_PgError [OF schema(1)] obtain c k where e: "e = PgError c k"
        and uv: "c = UniqueViolation \<Longrightarrow> k = urlsIndexOrig \<and> (\<exists>row \<in> set ?t. r_orig row = Orig u) \<or>
          k = urlsIndexHash \<and> (\<exists>row \<in> set ?t. r_hash row = Short u)" by blast
    consider "c \<noteq> UniqueViolation" | "c = UniqueViolation" "k = urlsIndexHash" "\<exists>row \<in> set ?t. r_hash row = Short u"
      | "c = UniqueViolation" "k = urlsIndexOrig" "\<exists>row \<in> set ?t. r_orig row = Orig u"
      using uv by blast
    then show ?thesis
    proof cases
      case 1
      then have "r = ([], Some (Wrap ''postgres error'' e))" "db' = db\<lparr>pool_st := p\<rparr>"
        using assms(2) q x' e by (simp_all add: store_insert_def)
      then show ?thesis using p x' e by (intro failed [of "Wrap ''postgres error'' e"]) simp_all
    next
      case 2
      then have "r = ([], Some (Sentinel ErrAlreadyExists))" "db' = db\<lparr>pool_st := p\<rparr>"
        using assms(2) q x' e by (simp_all add: store_insert_def)
      moreover have "table_view ?t (Short u) \<noteq> None" using 2(3) by (auto simp: table_view_None)
      ultimately show ?thesis using p x' by (intro taken) simp_all
    next
      case 3
      have "p_Exec pool ?q (pool_st db) = (Inl (PgError UniqueViolation urlsIndexOrig), p)" using q x' e 3 by simp
      from store_insert_known [OF this p _ assms(2)] 3(3) x' obtain row where row: "row \<in> set ?t" "r_orig row = Orig u"
          "r = (if r_deleted row then ([], Some (Sentinel ErrNotFound)) else (r_hash row, Some (Sentinel ErrConflict)))"
          "up (pool_st db')" "tbl (pool_st db') = ?t" by auto
      show ?thesis
      proof (cases "r_deleted row")
        case True
        with row show ?thesis by (intro gone [of row]) simp_all
      next
        case False
        with row show ?thesis by (intro conflict [of row]) simp_all
      qed
    qed
  next
    case (refused e)
    then have x': "x = Inl e" "tbl p = ?t" using x by simp_all
    then have "\<exists>e'. r = ([], Some e') \<and> foreign_err e'" "db' = db\<lparr>pool_st := p\<rparr>"
      using assms(2) q refused(1,2) by (auto simp: store_insert_def split: option.splits)
    then show ?thesis using p x' by (auto intro: failed)
  qed
qed

lemma StoreBatch_result:
  assumes "up (pool_st db)" and "db_StoreBatch pool db us = (e, db')"
  shows "up (pool_st db') \<and>
    (e = None \<longrightarrow> (\<forall>u \<in> set us. table_view (tbl (pool_st db)) (Short u) = None) \<and> distinct (map Short us) \<and>
       table_view (tbl (pool_st db')) = insert_all us (table_view (tbl (pool_st db)))) \<and>
    (e \<noteq> None \<longrightarrow> tbl (pool_st db') = tbl (pool_st db))"
proof -
  let ?t = "tbl (pool_st db)"
  let ?qs = "map (\<lambda>u. InsertURL (Short u) (Orig u) (UserID u)) us"
  obtain x p where q: "p_SendBatch pool ?qs (pool_st db) = (x, p)" by (metis surj_pair)
  from batch_law [OF assms(1) q] obtain es where p: "up p"
      and x: "(x, tbl p) = run_cmd (exec_all es ?qs ?t) ?t" by auto
  show ?thesis
  proof (cases "exec_all es ?qs ?t")
    case (Inl err)
    with x have "x = Inl err" "tbl p = ?t" by simp_all
    moreover from this have "e \<noteq> None" "db' = db\<lparr>pool_st := p\<rparr>"
      using assms(2) q by (auto simp: db_StoreBatch_def split: option.splits)
    ultimately show ?thesis using p by auto
  next
    case (Inr nt)
    obtain ns t' where nt: "nt = (ns, t')" by (cases nt)
    with x Inr have "x = Inr ns" "tbl p = t'" by simp_all
    moreover from this have "e = None" "db' = db\<lparr>pool_st := p\<rparr>"
      using assms(2) q by (simp_all add: db_StoreBatch_def)
    ultimately show ?thesis using p exec_all_inserts [OF Inr [unfolded nt] unique_law [OF assms(1)]]
      by simp
  qed
qed

lemma ListUserURLs_result:
  assumes "up (pool_st db)" and "db_ListUserURLs pool db uid = (r, db')"
  shows "up (pool_st db') \<and> tbl (pool_st db') = tbl (pool_st db) \<and>
    (\<forall>us. r = (us, None) \<longrightarrow> (\<forall>u \<in> set us. \<exists>row \<in> set (tbl (pool_st db)).
       r_hash row = Short u \<and> r_orig row = Orig u \<and> r_userid row = uid \<and> \<not> r_deleted row))"
proof -
  obtain x p where q: "p_Query pool (SelectUser uid) (pool_st db) = (x, p)" by (metis surj_pair)
  from rows_law [OF assms(1) q] obtain vs where p: "up p" "tbl p = tbl (pool_st db)"
      and vs: "x = (None, Inr vs)" "mset vs = mset (select_sql (SelectUser uid) (tbl (pool_st db)))" by auto
  from scan_SelectUser [OF vs(2)] obtain us where us: "scan_urls vs = Inr us"
    "\<forall>u \<in> set us. \<exists>row \<in> set (tbl (pool_st db)). r_hash row = Short u \<and> r_orig row = Orig u \<and>
       r_userid row = uid \<and> \<not> r_deleted row" by auto
  have "db' = db\<lparr>pool_st := p\<rparr>" "r = (if us = [] then ([], Some (Sentinel ErrNotFound)) else (us, None))"
    using assms(2) q vs(1) us(1) by (auto simp: db_ListUserURLs_def split: if_splits)
  with p us(2) show ?thesis by simp
qed

lemma DeleteUserURLs_result:
  assumes "up (pool_st db)" and "db_DeleteUserURLs pool db us = (r, db')"
  shows "up (pool_st db') \<and>
    deletes_only us (table_view (tbl (pool_st db))) (table_view (tbl (pool_st db')))"
proof -
  let ?t = "tbl (pool_st db)"
  let ?qs = "delete_stmts (wall db 0) us"
  obtain x p where q: "p_SendBatch pool ?qs (pool_st db) = (x, p)" by (metis surj_pair)
  from batch_law [OF assms(1) q] obtain es where p: "up p"
      and x: "(x, tbl p) = run_cmd (exec_all es ?qs ?t) ?t" by auto
  have db': "pool_st db' = p"
    using assms(2) q by (auto simp: db_DeleteUserURLs_def next_src_def split: sum.splits)
  show ?thesis
  proof (cases "exec_all es ?qs ?t")
    case (Inl err)
    with x p db' show ?thesis by simp
  next
    case (Inr nt)
    obtain ns t' where nt: "nt = (ns, t')" by (cases nt)
    with x Inr have "tbl p = t'" by simp
    with p db' exec_all_deletes [OF Inr [unfolded nt] unique_law [OF assms(1)]] show ?thesis by simp
  qed
qed

end

lemma db_Stats_state: "snd (db_Stats pool db) = db\<lparr>pool_st := snd (p_QueryRow pool SelectCounts (pool_st db))\<rparr>"
  by (auto simp: db_Stats_def split: prod.splits sum.splits list.splits sqlval.splits)

sublocale pgx_pool \<subseteq> db: url_storage "database_storage pool" "database_view tbl" "database_ok up"
proof (unfold_locales, goal_cases)
  case (1 s k r s')
  then show ?case using Get_result [of s k r s'] by (simp add: database_defs)
next
  case (2 s u p s')
  then have u: "up (pool_st s)" "store_insert pool s u = ((p, None), s')"
    by (simp_all add: database_defs db_Store_def)
  show ?case using u
    by (cases rule: store_insert_cases) (simp_all add: database_defs)
next
  case (3 s u p e s')
  then have u: "up (pool_st s)" "store_insert pool s u = ((p, Some e), s')"
    by (simp_all add: database_defs db_Store_def)
  show ?case using u by (cases rule: store_insert_cases) (simp_all add: database_defs)
next
  case (4 s u p e s')
  then have u: "up (pool_st s)" "store_insert pool s u = ((p, Some e), s')"
    by (simp_all add: database_defs db_Store_def)
  note inv = unique_law [OF u(1)]
  from u 4(3) show ?case
    by (cases rule: store_insert_cases)
      (simp_all add: database_defs foreign_errD table_view_row [OF inv])
next
  case (5 s us s')
  then show ?case using StoreBatch_result [of s us None s'] by (simp add: database_defs)
next
  case (6 s us e s')
  then show ?case using StoreBatch_result [of s us "Some e" s'] by (simp add: database_defs)
next
  case (7 s uid us s' u)
  then obtain row where "row \<in> set (tbl (pool_st s))" "r_hash row = Short u" "r_orig row = Orig u"
      "r_userid row = uid"
    using ListUserURLs_result [of s uid "(us, None)" s'] by (auto simp: database_defs)
  with table_view_row [of "tbl (pool_st s)" row] unique_law [of "pool_st s"] 7(1)
  show ?case by (auto simp: database_defs)
next
  case (8 s uid lr s')
  then show ?case using ListUserURLs_result [of s uid lr s'] by (simp add: database_defs)
next
  case (9 s us dr s')
  then show ?case using DeleteUserURLs_result [of s us dr s'] by (simp add: database_defs)
next
  case (10 s pr s')
  obtain e p where p: "p_Ping pool (pool_st s) = (e, p)" by (cases "p_Ping pool (pool_st s)")
  from ping_law [OF _ p] 10 p show ?case by (auto simp: database_defs db_Ping_def)
next
  case (11 s sr s')
  obtain r p where p: "p_QueryRow pool SelectCounts (pool_st s) = (r, p)"
    by (cases "p_QueryRow pool SelectCounts (pool_st s)")
  from row_law [OF _ p] 11 p db_Stats_state [of pool s] show ?case by (auto simp: database_defs)
qed

sublocale pgx_pool \<subseteq> dbb: batch_storage "database_storage pool" "database_view tbl" "database_ok up"
proof unfold_locales
  fix s us s'
  assume "database_ok up s" "st_StoreBatch (database_storage pool) s us = (None, s')"
  then have b: "distinct (map Short us)" "\<forall>u \<in> set us. database_view tbl s (Short u) = None"
    using StoreBatch_result [of s us None s'] by (simp_all add: database_defs)
  show "distinct (map Short us)" by (rule b(1))
  show "database_view tbl s (Short u) = None" if "u \<in> set us" for u using b(2) that by blast
next
  fix s u p s'
  assume "database_ok up s" "st_Store (database_storage pool) s u False = ((p, None), s')"
  then have u: "up (pool_st s)" "store_insert pool s u = ((p, None), s')"
    by (simp_all add: database_defs db_Store_def)
  then show "database_view tbl s (Short u) = None"
    by (cases rule: store_insert_cases) (simp_all add: database_defs)
qed

context pgx_pool
begin

lemmas is_storage = db.url_storage_axioms
lemmas is_batch_storage = dbb.batch_storage_axioms

end

section \<open>A pool that runs the statements\<close>

text \<open>
  A pool that runs every statement on a table with the effects of the server read from a
  source: the instance of the contract the witnesses use.
\<close>

record sqlserver =
  sq_table :: table
  sq_envs :: "sqlenv src"

definition sql_pool :: "sqlserver Pool" where
  "sql_pool = \<lparr>
     p_Ping = (\<lambda>s. (None, s)),
     p_Exec = (\<lambda>q s. let (en, es) = next_src (sq_envs s); (r, t) = run_cmd (exec_sql en q (sq_table s)) (sq_table s)
        in (r, \<lparr>sq_table = t, sq_envs = es\<rparr>)),
     p_QueryRow = (\<lambda>q s. (first_row (select_sql q (sq_table s)), s)),
     p_Query = (\<lambda>q s. ((None, Inr (select_sql q (sq_table s))), s)),
     p_SendBatch = (\<lambda>qs s. let (r, t) = run_cmd (exec_all (sq_envs s) qs (sq_table s)) (sq_table s)
        in (r, \<lparr>sq_table = t, sq_envs = (\<lambda>i. sq_envs s (length qs + i))\<rparr>))\<rparr>"

definition sql_up :: "sqlserver \<Rightarrow> bool" where
  "sql_up s \<longleftrightarrow> table_inv (sq_table s) \<and> (\<forall>i. env_ok (sq_envs s i))"

lemma report_res: "report en errs res = Inr x \<Longrightarrow> x = res \<and> errs = []"
  by (auto simp: report_def split: option.splits if_splits)

lemma table_inv_rename:
  assumes "table_inv t" and "rename_errors t h u = []"
  shows "table_inv (map (\<lambda>r. if r_orig r = u then r\<lparr>r_hash := h\<rparr> else r) t)"
proof -
  let ?f = "\<lambda>r. if r_orig r = u then r\<lparr>r_hash := h\<rparr> else r"
  have "map r_orig (map ?f t) = map r_orig t" by (simp add: o_def if_distrib cong: if_cong)
  moreover have "distinct (map r_hash (map ?f t))"
  proof (cases "\<exists>r \<in> set t. r_orig r = u")
    case False
    then have "map ?f t = map id t" by (intro map_cong) auto
    then show ?thesis using assms(1) by (simp add: table_inv_def)
  next
    case True
    then have free: "\<forall>r \<in> set t. r_orig r \<noteq> u \<longrightarrow> r_hash r \<noteq> h"
      using assms(2) by (auto simp: rename_errors_def list_ex_iff split: if_splits)
    have "inj_on (\<lambda>r. r_hash (?f r)) (set t)"
    proof (rule inj_onI)
      fix r r' assume rr: "r \<in> set t" "r' \<in> set t" "r_hash (?f r) = r_hash (?f r')"
      have inj: "inj_on r_hash (set t)" "inj_on r_orig (set t)"
        using assms(1) by (simp_all add: table_inv_def distinct_map)
      show "r = r'"
        using rr free inj_onD [OF inj(1) _ rr(1,2)] inj_onD [OF inj(2) _ rr(1,2)]
        by (cases "r_orig r = u"; cases "r_orig r' = u") auto
    qed
    moreover have "distinct t" using assms(1) by (simp add: table_inv_def distinct_map)
    ultimately show ?thesis by (simp add: distinct_map o_def)
  qed
  ultimately show ?thesis using assms(1) by (simp only: table_inv_def)
qed

lemma exec_sql_inv:
  assumes "exec_sql en q t = Inr (n, t')" and "table_inv t"
  shows "table_inv t'"
proof (cases q)
  case (InsertURL h u uid)
  then show ?thesis using assms exec_insert_ok by blast
next
  case (UpdateDeleted h uid ts)
  then show ?thesis using assms by (auto dest!: report_res simp: table_inv_mark)
next
  case (UpdateHash h u)
  then show ?thesis using assms by (auto dest!: report_res simp: table_inv_rename)
qed

lemma exec_all_inv: "exec_all es qs t = Inr (ns, t') \<Longrightarrow> table_inv t \<Longrightarrow> table_inv t'"
proof (induction qs arbitrary: es t ns)
  case Nil
  then show ?case by simp
next
  case (Cons q qs)
  obtain n t1 ns1 where "exec_sql (es 0) q t = Inr (n, t1)" "exec_all (\<lambda>i. es (Suc i)) qs t1 = Inr (ns1, t')"
    using Cons.prems(1) by (auto simp: next_src_def simp del: exec_sql.simps split: sum.splits prod.splits)
  with Cons.IH exec_sql_inv Cons.prems(2) show ?case by blast
qed

interpretation pg: pgx_pool sql_pool sq_table sql_up
proof (unfold_locales, goal_cases)
  case (3 s q r s')
  then have en: "env_ok (sq_envs s 0)" by (simp add: sql_up_def)
  show ?case
  proof (cases "exec_sql (sq_envs s 0) q (sq_table s)")
    case (Inl e)
    with 3 show ?thesis
      by (auto simp: sql_pool_def sql_up_def next_src_def intro!: exI [of _ "sq_envs s 0"])
  next
    case (Inr nt)
    obtain n t where nt: "nt = (n, t)" by (cases nt)
    from exec_sql_inv [OF Inr [unfolded nt]] 3 Inr nt show ?thesis
      by (auto simp: sql_pool_def sql_up_def next_src_def intro!: exI [of _ "sq_envs s 0"])
  qed
next
  case (4 s qs rs s')
  show ?case
  proof (cases "exec_all (sq_envs s) qs (sq_table s)")
    case (Inl e)
    with 4 show ?thesis
      by (auto simp: sql_pool_def sql_up_def intro!: exI [of _ "sq_envs s"])
  next
    case (Inr nt)
    obtain n t where nt: "nt = (n, t)" by (cases nt)
    from exec_all_inv [OF Inr [unfolded nt]] 4 Inr nt show ?thesis
      by (auto simp: sql_pool_def sql_up_def intro!: exI [of _ "sq_envs s"])
  qed
qed (auto simp: sql_pool_def sql_up_def)

definition calm :: "nat \<Rightarrow> sqlenv" where
  "calm i = \<lparr>env_now = int i, env_pick = 0, env_refuse = None\<rparr>"

definition sample_db :: "table \<Rightarrow> sqlserver Database" where
  "sample_db t = \<lparr>pool_st = \<lparr>sq_table = t, sq_envs = calm\<rparr>, wall = (\<lambda>i. 1000)\<rparr>"

definition sample_row :: "string \<Rightarrow> string \<Rightarrow> bool \<Rightarrow> row" where
  "sample_row h u d = \<lparr>r_hash = h, r_orig = u, r_userid = ''u1'', r_deleted = d, r_ts = 5\<rparr>"

lemma sample_db_up [simp]: "sql_up (pool_st (sample_db t)) = table_inv t"
  by (simp add: sample_db_def sql_up_def calm_def env_ok_def)

section \<open>config.go and migrate.go\<close>

record DBConfig =
  db_logger :: bool
  DSN :: string
  Migrate :: bool
  Trace :: bool

text \<open>
  The tracers of the connections that are traced, by the process id of their backend: \<open>create\<close> is
  called for every new connection, \<open>destroy\<close> before one is closed. A tracer logs what is written
  to it under its process id.
\<close>

record tracer =
  tr_pid :: nat

type_synonym tracers = "nat \<rightharpoonup> tracer"

definition newTracer :: "nat \<Rightarrow> tracer" where
  "newTracer pid = \<lparr>tr_pid = pid\<rparr>"

definition newTracers :: tracers where
  "newTracers = (\<lambda>_. None)"

definition tracers_create :: "nat \<Rightarrow> tracers \<Rightarrow> tracers" where
  "tracers_create pid t = t(pid \<mapsto> newTracer pid)"

definition tracers_destroy :: "nat \<Rightarrow> tracers \<Rightarrow> tracers" where
  "tracers_destroy pid t = t(pid := None)"

definition tracer_Write :: "tracer \<Rightarrow> string \<Rightarrow> (nat \<times> string) list \<Rightarrow> (int \<times> gerr option) \<times> (nat \<times> string) list" where
  "tracer_Write t b msgs = ((int (length b), None), msgs @ [(tr_pid t, b)])"

text \<open>What \<open>preparePoolConfig\<close> sets (durations in nanoseconds), and the hooks of the pool.\<close>

record PoolConfig =
  ConnectTimeout :: int
  ExecMode :: string
  MaxConnLifetime :: int
  MaxConnLifetimeJitter :: int
  MaxConnIdleTime :: int
  MaxConns :: int
  MinConns :: int
  HealthCheckPeriod :: int
  AfterConnect :: "(nat \<Rightarrow> tracers \<Rightarrow> tracers) option"
  BeforeClose :: "(nat \<Rightarrow> tracers \<Rightarrow> tracers) option"

abbreviation seconds :: "int \<Rightarrow> int" where
  "seconds n \<equiv> n * 1000000000"

definition defaultConnectTimeout :: int where "defaultConnectTimeout = seconds 3"
definition defaultConnectionIdle :: int where "defaultConnectionIdle = seconds 60"
definition defaultConnectionLifeTime :: int where "defaultConnectionLifeTime = seconds 3600"
definition defaultConnectionLifeTimeJitter :: int where "defaultConnectionLifeTimeJitter = seconds 300"
definition defaultMaxConns :: int where "defaultMaxConns = 5"
definition defaultMinConns :: int where "defaultMinConns = 2"
definition defaultHealthCheckPeriod :: int where "defaultHealthCheckPeriod = seconds 3"

definition preparePoolConfig :: "PoolConfig \<Rightarrow> PoolConfig" where
  "preparePoolConfig pCfg = pCfg\<lparr>ConnectTimeout := defaultConnectTimeout, ExecMode := ''exec'',
     MaxConnLifetime := defaultConnectionLifeTime, MaxConnLifetimeJitter := defaultConnectionLifeTimeJitter,
     MaxConnIdleTime := defaultConnectionIdle, MaxConns := defaultMaxConns, MinConns := defaultMinConns,
     HealthCheckPeriod := defaultHealthCheckPeriod\<rparr>"

text \<open>
  The libraries that \<open>New\<close> calls: \<open>pgxpool.ParseConfig\<close>, \<open>iofs.New\<close>,
  \<open>migrate.NewWithSourceInstance\<close>, \<open>Migrate.Up\<close> and \<open>pgxpool.NewWithConfig\<close>.
\<close>

record 'p dblibs =
  parseConfig :: "string \<Rightarrow> gerr + PoolConfig"
  iofsNew :: "gerr option"
  newMigrate :: "string \<Rightarrow> gerr option"
  migrateUp :: "string \<Rightarrow> gerr option"
  newPool :: "PoolConfig \<Rightarrow> gerr + 'p"

definition runMigrations :: "'p dblibs \<Rightarrow> string \<Rightarrow> gerr + bool" where
  "runMigrations L dsn = (case iofsNew L of
     Some e \<Rightarrow> Inl (Wrap ''failed to return an iofs driver'' e)
   | None \<Rightarrow> (case newMigrate L dsn of
       Some e \<Rightarrow> Inl (Wrap ''failed to get a new migrate instance'' e)
     | None \<Rightarrow> (case migrateUp L dsn of
         Some e \<Rightarrow> (if \<not> errors_is e (Sentinel MigrateErrNoChange)
            then Inl (Wrap ''failed to apply migrations to the DB'' e) else Inr False)
       | None \<Rightarrow> Inr True)))"

definition db_migrate :: "'p dblibs \<Rightarrow> DBConfig \<Rightarrow> gerr option" where
  "db_migrate L cfg = (if \<not> Migrate cfg then None
     else (case runMigrations L (DSN cfg) of Inl e \<Rightarrow> Some e | Inr _ \<Rightarrow> None))"

definition db_init :: "'p dblibs \<Rightarrow> DBConfig \<Rightarrow> PoolConfig \<Rightarrow> gerr + 'p" where
  "db_init L cfg pCfg = (case db_migrate L cfg of
     Some e \<Rightarrow> Inl e
   | None \<Rightarrow> (case newPool L pCfg of
       Inl e \<Rightarrow> Inl (Wrap ''cannot create pgx connection pool'' e)
     | Inr p \<Rightarrow> Inr p))"

definition db_New :: "'p dblibs \<Rightarrow> int src \<Rightarrow> DBConfig \<Rightarrow> gerr + 'p Database" where
  "db_New L clock cfg =
     (if \<not> db_logger cfg then Inl (Errmsg ''nil logger'')
      else (case parseConfig L (DSN cfg) of
          Inl e \<Rightarrow> Inl (Wrap ''cannot parse DSN'' e)
        | Inr p0 \<Rightarrow>
            let p1 = preparePoolConfig p0;
                pCfg = (if Trace cfg
                  then p1\<lparr>AfterConnect := Some tracers_create, BeforeClose := Some tracers_destroy\<rparr> else p1)
            in (case db_init L cfg pCfg of
                Inl e \<Rightarrow> Inl e
              | Inr p \<Rightarrow> Inr \<lparr>pool_st = p, wall = clock\<rparr>)))"

text \<open>
  The life of the connections of a pool, which calls the hooks it was configured with: a process
  id is in use by one open connection at a time.
\<close>

datatype connevent = Opened nat | Closed nat

definition call_hook :: "(nat \<Rightarrow> tracers \<Rightarrow> tracers) option \<Rightarrow> nat \<Rightarrow> tracers \<Rightarrow> tracers" where
  "call_hook h pid t = (case h of Some f \<Rightarrow> f pid t | None \<Rightarrow> t)"

fun conn_run :: "PoolConfig \<Rightarrow> connevent list \<Rightarrow> nat set \<times> tracers \<Rightarrow> (nat set \<times> tracers) option" where
  "conn_run c [] x = Some x"
| "conn_run c (Opened p # es) (con, t) =
     (if p \<in> con then None else conn_run c es (insert p con, call_hook (AfterConnect c) p t))"
| "conn_run c (Closed p # es) (con, t) =
     (if p \<in> con then conn_run c es (con - {p}, call_hook (BeforeClose c) p t) else None)"

lemma conn_run_traced:
  assumes "AfterConnect c = Some tracers_create" and "BeforeClose c = Some tracers_destroy"
  shows "conn_run c es (con, t) = Some (con', t') \<Longrightarrow> t = (\<lambda>p. if p \<in> con then Some (newTracer p) else None) \<Longrightarrow>
    t' = (\<lambda>p. if p \<in> con' then Some (newTracer p) else None)"
proof (induction es arbitrary: con t)
  case Nil
  then show ?case by auto
next
  case (Cons e es)
  show ?case
  proof (cases e)
    case (Opened p)
    with Cons.prems(1) assms have r: "conn_run c es (insert p con, tracers_create p t) = Some (con', t')"
      by (simp add: call_hook_def split: if_splits)
    have "tracers_create p t = (\<lambda>q. if q \<in> insert p con then Some (newTracer q) else None)"
      using Cons.prems(2) by (auto simp: tracers_create_def)
    from Cons.IH [OF r this] show ?thesis .
  next
    case (Closed p)
    with Cons.prems(1) assms have r: "conn_run c es (con - {p}, tracers_destroy p t) = Some (con', t')"
      by (simp add: call_hook_def split: if_splits)
    have "tracers_destroy p t = (\<lambda>q. if q \<in> con - {p} then Some (newTracer q) else None)"
      using Cons.prems(2) by (auto simp: tracers_destroy_def)
    from Cons.IH [OF r this] show ?thesis .
  qed
qed

section \<open>Properties\<close>

text \<open>With tracing on, the tracers are those of the open connections: whatever connections the pool opens
  and closes, each open one has a tracer that logs under its process id, and none is left of a
  closed one.\<close>

theorem tracers_match_connections:
  assumes "AfterConnect c = Some tracers_create" and "BeforeClose c = Some tracers_destroy"
    and "conn_run c es ({}, newTracers) = Some (con, t)"
  shows "dom t = con \<and> (\<forall>p \<in> con. \<exists>tr. t p = Some tr \<and> (\<forall>b msgs. tracer_Write tr b msgs = ((int (length b), None), msgs @ [(p, b)])))"
  using conn_run_traced [OF assms(1,2,3)]
  by (auto simp: newTracers_def newTracer_def tracer_Write_def split: if_splits)

theorem tracers_match_connections_witness:
  "\<exists>con t. conn_run \<lparr>ConnectTimeout = 0, ExecMode = [], MaxConnLifetime = 0, MaxConnLifetimeJitter = 0, MaxConnIdleTime = 0,
      MaxConns = 0, MinConns = 0, HealthCheckPeriod = 0, AfterConnect = Some tracers_create, BeforeClose = Some tracers_destroy\<rparr>
      [Opened 7, Opened 8, Closed 7] ({}, newTracers) = Some (con, t) \<and> dom t = {8}"
proof -
  let ?c = "\<lparr>ConnectTimeout = 0, ExecMode = [], MaxConnLifetime = 0, MaxConnLifetimeJitter = 0, MaxConnIdleTime = 0,
      MaxConns = 0, MinConns = 0, HealthCheckPeriod = 0, AfterConnect = Some tracers_create, BeforeClose = Some tracers_destroy\<rparr>"
  obtain t where t: "conn_run ?c [Opened 7, Opened 8, Closed 7] ({}, newTracers) = Some ({8}, t)"
    by (auto simp: insert_Diff_if)
  from tracers_match_connections [OF _ _ t] t show ?thesis by auto
qed

text \<open>C17. \<open>Store\<close> without overwrite on a database that answers: success means that neither the url
  nor the path was in the table and the view gains exactly this entry; any error leaves the table
  as it was; a conflict returns the path of a live row with the same url; \<open>already exists\<close> means
  that the path is in use.\<close>

theorem db_store_spec:
  assumes "pgx_pool pool tbl up" and "up (pool_st db)"
    and "db_Store pool db u False = ((p, e), db')"
  shows "(e = None \<longrightarrow> (\<forall>row \<in> set (tbl (pool_st db)). r_orig row \<noteq> Orig u) \<and>
      database_view tbl db (Short u) = None \<and>
      database_view tbl db' = (database_view tbl db)(Short u \<mapsto> url_entry u)) \<and>
    (e \<noteq> None \<longrightarrow> tbl (pool_st db') = tbl (pool_st db)) \<and>
    (e = Some (Sentinel ErrConflict) \<longrightarrow> (\<exists>row \<in> set (tbl (pool_st db)).
      r_orig row = Orig u \<and> \<not> r_deleted row \<and> r_hash row = p)) \<and>
    (e = Some (Sentinel ErrAlreadyExists) \<longrightarrow> database_view tbl db (Short u) \<noteq> None)"
proof -
  have ins: "store_insert pool db u = ((p, e), db')" using assms(3) by (simp add: db_Store_def)
  show ?thesis
    by (rule pgx_pool.store_insert_cases [OF assms(1,2) ins])
      (auto simp: database_view_def foreign_err_def app_sentinel_def)
qed

definition two_rows :: table where
  "two_rows = [sample_row ''h1'' ''http://a'' True, sample_row ''h2'' ''http://b'' False]"

lemma two_rows_inv [simp]: "table_inv two_rows"
  by (simp add: table_inv_def two_rows_def sample_row_def)

definition sample_req :: "string \<Rightarrow> string \<Rightarrow> int \<Rightarrow> URL" where
  "sample_req h u ts = \<lparr>Short = h, Orig = u, UserID = ''u1'', TS = ts\<rparr>"

theorem db_store_spec_witness:
  "\<exists>p db'. db_Store sql_pool (sample_db two_rows) (sample_req ''h3'' ''http://b'' 0) False
      = ((p, Some (Sentinel ErrConflict)), db') \<and>
    (\<exists>row \<in> set two_rows. r_orig row = ''http://b'' \<and> \<not> r_deleted row \<and> r_hash row = p)"
proof -
  have r: "\<exists>p db'. db_Store sql_pool (sample_db two_rows) (sample_req ''h3'' ''http://b'' 0) False
      = ((p, Some (Sentinel ErrConflict)), db')"
    by (simp add: db_Store_def store_insert_def sql_pool_def sample_db_def two_rows_def sample_row_def
        sample_req_def next_src_def calm_def report_def insert_errors_def column_errors_def utf8_length_def
        urlsIndexOrig_def urlsIndexHash_def getHashByURL_def first_row_def)
  then obtain p db' where "db_Store sql_pool (sample_db two_rows) (sample_req ''h3'' ''http://b'' 0) False
      = ((p, Some (Sentinel ErrConflict)), db')" by blast
  with db_store_spec [OF pg.pgx_pool_axioms _ this] show ?thesis
    by (auto simp: sample_db_def [of two_rows] sample_req_def sql_up_def calm_def env_ok_def)
qed

text \<open>A deleted url cannot be shortened again in the database: while its row is in the table,
  \<open>Store\<close> without overwrite fails and changes nothing, and not with a conflict, although the
  memory storage accepts it.\<close>

theorem db_deleted_url_blocked:
  assumes "pgx_pool pool tbl up" and "up (pool_st db)"
    and "row \<in> set (tbl (pool_st db))" and "r_orig row = Orig u" and "r_deleted row"
    and "db_Store pool db u False = ((p, e), db')"
  shows "(\<exists>x. e = Some x \<and> \<not> errors_is x (Sentinel ErrConflict)) \<and> tbl (pool_st db') = tbl (pool_st db)"
proof -
  have ins: "store_insert pool db u = ((p, e), db')" using assms(6) by (simp add: db_Store_def)
  have "inj_on r_orig (set (tbl (pool_st db)))"
    using pgx_pool.unique_law [OF assms(1,2)] by (simp add: table_inv_def distinct_map)
  then have only: "r \<in> set (tbl (pool_st db)) \<Longrightarrow> r_orig r = Orig u \<Longrightarrow> r_deleted r" for r
    using inj_onD [of r_orig _ r row] assms(3-5) by auto
  show ?thesis
  proof (rule pgx_pool.store_insert_cases [OF assms(1,2) ins], goal_cases)
    case 1
    with assms(3,4) show ?case by auto
  next
    case (3 r)
    with only [of r] show ?case by simp
  qed (auto simp: foreign_errD)
qed

theorem db_deleted_url_blocked_witness:
  "\<exists>p x db'. db_Store sql_pool (sample_db two_rows) (sample_req ''h3'' ''http://a'' 0) False = ((p, Some x), db') \<and>
     \<not> errors_is x (Sentinel ErrConflict)"
proof -
  obtain p e db' where r: "db_Store sql_pool (sample_db two_rows) (sample_req ''h3'' ''http://a'' 0) False = ((p, e), db')"
    by (metis surj_pair)
  have "(\<exists>x. e = Some x \<and> \<not> errors_is x (Sentinel ErrConflict)) \<and>
      sq_table (pool_st db') = sq_table (pool_st (sample_db two_rows))"
    by (rule db_deleted_url_blocked [OF pg.pgx_pool_axioms _ _ _ _ r,
          where row = "sample_row ''h1'' ''http://a'' True"])
      (simp, simp_all add: sample_db_def two_rows_def sample_row_def sample_req_def)
  with r show ?thesis by auto
qed

text \<open>\<open>Store\<close> with overwrite never overwrites: when the path belongs to a live row with another
  url, it fails and changes nothing, because \<open>updateOrig\<close> sets the path of the row that has the url
  instead of the url of the row that has the path.\<close>

theorem db_overwrite_never:
  assumes "pgx_pool pool tbl up" and "up (pool_st db)"
    and "database_view tbl db (Short u) = Some en" and "\<not> e_deleted en" and "e_orig en \<noteq> Orig u"
    and "db_Store pool db u True = ((p, e), db')"
  shows "e \<noteq> None \<and> tbl (pool_st db') = tbl (pool_st db)"
proof -
  let ?t = "tbl (pool_st db)"
  obtain g db1 where g: "db_Get pool db (Short u) = (g, db1)" by (metis surj_pair)
  from pgx_pool.Get_result [OF assms(1,2) g] assms(3,4)
  have up1: "up (pool_st db1)" "tbl (pool_st db1) = ?t" "g = (e_orig en, None)"
    by (auto simp: database_view_def)
  obtain x q where q: "p_Exec pool (UpdateHash (Short u) (Orig u)) (pool_st db1) = (x, q)" by (metis surj_pair)
  obtain sn where env: "(x, tbl q) = run_cmd (exec_sql sn (UpdateHash (Short u) (Orig u)) ?t) ?t"
    using pgx_pool.exec_law [OF assms(1) up1(1) q] up1(2) by auto
  have res: "pool_st db' = q" "e = (case x of Inl y \<Rightarrow> Some (Wrap ''database update error'' y)
      | Inr n \<Rightarrow> if n \<noteq> 1 then Some (Errmsg ''update affected rows, expected: 1'') else None)"
    using assms(5,6) g up1(3) q
    by (auto simp: db_Store_def storeWithOverwrite_def updateOrig_def split: sum.splits)
  from table_view_Some [OF assms(3) [unfolded database_view_def]] assms(5)
  have other: "\<exists>r \<in> set ?t. r_hash r = Short u \<and> r_orig r \<noteq> Orig u" by auto
  show ?thesis
  proof (cases "\<exists>r \<in> set ?t. r_orig r = Orig u")
    case True
    with other have "rename_errors ?t (Short u) (Orig u) \<noteq> []" by (auto simp: rename_errors_def list_ex_iff)
    then have "\<exists>y. exec_sql sn (UpdateHash (Short u) (Orig u)) ?t = Inl y"
      by (auto simp: report_def split: option.splits)
    with env res show ?thesis by auto
  next
    case False
    then have "map (\<lambda>r. if r_orig r = Orig u then r\<lparr>r_hash := Short u\<rparr> else r) ?t = ?t"
        "filter (\<lambda>r. r_orig r = Orig u) ?t = []"
      by (auto intro: map_idI simp: filter_empty_conv)
    then have "exec_sql sn (UpdateHash (Short u) (Orig u)) ?t = report sn (rename_errors ?t (Short u) (Orig u)) (0, ?t)"
      by simp
    moreover have "\<exists>y. report sn (rename_errors ?t (Short u) (Orig u)) (0, ?t) = y" by simp
    ultimately show ?thesis using env res
      by (cases "report sn (rename_errors ?t (Short u) (Orig u)) (0 :: int, ?t)") (auto dest!: report_res)
  qed
qed

theorem db_overwrite_never_witness:
  "\<exists>p x db'. db_Store sql_pool (sample_db two_rows) (sample_req ''h2'' ''http://c'' 0) True = ((p, Some x), db') \<and>
     sq_table (pool_st db') = two_rows"
proof -
  obtain p e db' where r: "db_Store sql_pool (sample_db two_rows) (sample_req ''h2'' ''http://c'' 0) True = ((p, e), db')"
    by (metis surj_pair)
  have "e \<noteq> None \<and> sq_table (pool_st db') = sq_table (pool_st (sample_db two_rows))"
    by (rule db_overwrite_never [OF pg.pgx_pool_axioms _ _ _ _ r,
          where en = "row_entry (sample_row ''h2'' ''http://b'' False)"])
      (simp, simp_all add: database_view_def sample_db_def two_rows_def sample_row_def sample_req_def)
  with r show ?thesis by (auto simp: sample_db_def)
qed

fun stamped :: "int \<Rightarrow> URL list \<Rightarrow> (string \<times> string \<times> int) list" where
  "stamped ts [] = []"
| "stamped ts (u # us) = (let ts' = if TS u = 0 then ts else TS u in (Short u, UserID u, ts') # stamped ts' us)"

definition mark_by :: "(string \<times> string \<times> int) list \<Rightarrow> row \<Rightarrow> row" where
  "mark_by reqs r = (if list_ex (\<lambda>(h, uid, ts). marks h uid ts r) reqs then r\<lparr>r_deleted := True\<rparr> else r)"

lemma exec_all_marks:
  assumes "exec_all es (delete_stmts ts us) t = Inr (ns, t')"
  shows "t' = map (mark_by (stamped ts us)) t \<and>
    sum_list ns = (\<Sum>(h, uid, ts) \<leftarrow> stamped ts us. int (length (filter (marks h uid ts) t)))"
  using assms
proof (induction us arbitrary: es ts t ns)
  case Nil
  then show ?case by (simp add: mark_by_def)
next
  case (Cons u us)
  define ts1 where "ts1 = (if TS u = 0 then ts else TS u)"
  define t1 where "t1 = map (\<lambda>r. if marks (Short u) (UserID u) ts1 r then r\<lparr>r_deleted := True\<rparr> else r) t"
  obtain ns1 where 2: "exec_all (\<lambda>i. es (Suc i)) (delete_stmts ts1 us) t1 = Inr (ns1, t')"
      and ns: "ns = int (length (filter (marks (Short u) (UserID u) ts1) t)) # ns1"
    using Cons.prems(1)
    by (auto simp: next_src_def Let_def report_def ts1_def [symmetric] t1_def split: sum.splits prod.splits option.splits)
  have m: "marks h uid x (if marks a b c r then r\<lparr>r_deleted := True\<rparr> else r) = marks h uid x r"
    for h uid x a b c r by (simp add: marks_def)
  have "filter (marks h uid x) t1 = map (\<lambda>r. if marks (Short u) (UserID u) ts1 r then r\<lparr>r_deleted := True\<rparr> else r)
      (filter (marks h uid x) t)" for h uid x
    by (simp add: t1_def filter_map o_def m)
  then have "length (filter (marks h uid x) t1) = length (filter (marks h uid x) t)" for h uid x by simp
  moreover have "map (mark_by (stamped ts1 us)) t1 = map (mark_by (stamped ts (u # us))) t"
    by (auto simp: t1_def mark_by_def m ts1_def [symmetric] Let_def list_ex_iff marks_def)
  ultimately show ?case using Cons.IH [OF 2] ns by (simp add: ts1_def [symmetric] Let_def)
qed

text \<open>C18. What \<open>DeleteUserURLs\<close> does when it succeeds, exactly: a row is marked deleted when some
  request names its path and its owner and is later than the row; the number returned counts such
  rows for every request, those already deleted included.\<close>

theorem db_delete_spec:
  assumes "pgx_pool pool tbl up" and "up (pool_st db)"
    and "db_DeleteUserURLs pool db us = ((n, None), db')"
  shows "tbl (pool_st db') = map (mark_by (stamped (wall db 0) us)) (tbl (pool_st db)) \<and>
    n = (\<Sum>(h, uid, ts) \<leftarrow> stamped (wall db 0) us. int (length (filter (marks h uid ts) (tbl (pool_st db)))))"
proof -
  obtain x p where q: "p_SendBatch pool (delete_stmts (wall db 0) us) (pool_st db) = (x, p)" by (metis surj_pair)
  from pgx_pool.batch_law [OF assms(1,2) q] obtain es where
    x: "(x, tbl p) = run_cmd (exec_all es (delete_stmts (wall db 0) us) (tbl (pool_st db))) (tbl (pool_st db))" by auto
  from assms(3) q obtain ns where ns: "x = Inr ns" "n = sum_list ns" "pool_st db' = p"
    by (auto simp: db_DeleteUserURLs_def next_src_def split: sum.splits)
  with x have "exec_all es (delete_stmts (wall db 0) us) (tbl (pool_st db)) = Inr (ns, tbl p)"
    by (cases "exec_all es (delete_stmts (wall db 0) us) (tbl (pool_st db))") auto
  from exec_all_marks [OF this] ns show ?thesis by simp
qed

theorem db_delete_spec_witness:
  "\<exists>n db'. db_DeleteUserURLs sql_pool (sample_db two_rows) [sample_req ''h2'' [] 9, sample_req ''h1'' [] 0]
      = ((n, None), db') \<and> n = 2 \<and>
     sq_table (pool_st db') = [sample_row ''h1'' ''http://a'' True, sample_row ''h2'' ''http://b'' True]"
proof -
  let ?us = "[sample_req ''h2'' [] 9, sample_req ''h1'' [] 0]"
  obtain n db' where r: "db_DeleteUserURLs sql_pool (sample_db two_rows) ?us = ((n, None), db')"
    by (simp add: db_DeleteUserURLs_def sample_db_def next_src_def sql_pool_def calm_def report_def Let_def)
  have "sq_table (pool_st db') = map (mark_by (stamped (wall (sample_db two_rows) 0) ?us)) (sq_table (pool_st (sample_db two_rows))) \<and>
    n = (\<Sum>(h, uid, ts) \<leftarrow> stamped (wall (sample_db two_rows) 0) ?us.
      int (length (filter (marks h uid ts) (sq_table (pool_st (sample_db two_rows))))))"
    by (rule db_delete_spec [OF pg.pgx_pool_axioms _ r]) simp
  with r show ?thesis
    by (simp add: sample_db_def sample_req_def two_rows_def sample_row_def marks_def mark_by_def)
qed

text \<open>\<open>Get\<close> hides failures of the database: any error of the query but \<open>no rows\<close> is answered
  with an empty url and no error.\<close>

theorem db_get_hides_errors:
  assumes "p_QueryRow pool (SelectOrig k) (pool_st db) = (Inl e, p)"
    and "\<not> errors_is e (Sentinel PgxErrNoRows)"
  shows "db_Get pool db k = (([], None), db\<lparr>pool_st := p\<rparr>)"
  using assms by (simp add: db_Get_def)

definition broken_pool :: "sqlserver Pool" where
  "broken_pool = sql_pool\<lparr>p_QueryRow := (\<lambda>q s. (Inl (Errmsg ''connection refused''), s))\<rparr>"

theorem db_get_hides_errors_witness:
  "db_Get broken_pool (sample_db two_rows) ''h2'' = (([], None), sample_db two_rows)"
  using db_get_hides_errors [of broken_pool "''h2''" "sample_db two_rows" "Errmsg ''connection refused''"
      "pool_st (sample_db two_rows)"]
  by (simp add: broken_pool_def)

end
