(* ===== verification/Status.thy ===== *)
theory Status
  imports Storage_If
begin

text \<open>\<open>internal/services/status/status.go\<close>: liveness and statistics of the storage.\<close>

definition status_Ping :: "'s Storage \<Rightarrow> 's \<Rightarrow> gerr option \<times> 's" where
  "status_Ping st s = (case st_Ping st s of
     (Some e, s') \<Rightarrow> (errors_join [Some (Sentinel ErrStatusStorage), Some e], s')
   | (None, s') \<Rightarrow> (None, s'))"

definition status_Stats :: "'s Storage \<Rightarrow> 's \<Rightarrow> Stats option gret \<times> 's" where
  "status_Stats st s = (case st_Stats st s of
     ((_, Some e), s') \<Rightarrow> ((None, errors_join [Some (Sentinel ErrStatusStorage), Some e]), s')
   | ((stats, None), s') \<Rightarrow> ((stats, None), s'))"

end
