(* ===== verification/EndToEnd.thy ===== *)
theory EndToEnd
  imports FileRace Shortener Database Status
begin

text \<open>
  The services on the storages together: sequences of requests to the shortener, the
  resolver and the delete queue, on any storage that keeps the contract, and what this
  gives for the memory, file and database storages.
\<close>

section \<open>Sequences of requests\<close>

record 's sys =
  sto :: 's
  queue :: "URL Flusher"
  rnd :: "nat src"

datatype req =
    ReqShorten user string
  | ReqBatch user "BatchURL list"
  | ReqResolve string
  | ReqGetAll user
  | ReqDelete int user "string list"
  | ReqPing
  | ReqStats
  | FlushQueue

text \<open>
  The state after a request, whatever its answer; \<^const>\<open>None\<close> when it panics or blocks.
\<close>

fun serve :: "(string \<Rightarrow> gerr + purl) \<Rightarrow> 's Storage \<Rightarrow> Service \<Rightarrow> req \<Rightarrow> 's sys \<Rightarrow> 's sys option" where
  "serve parse st svc (ReqShorten usr u) x = (case Shorten parse st svc usr u (sto x) (rnd x) of
     (_, s', r') \<Rightarrow> Some (x\<lparr>sto := s', rnd := r'\<rparr>))"
| "serve parse st svc (ReqBatch usr b) x = (case ShortenBatch st svc usr b (sto x) (rnd x) of
     (_, s', r') \<Rightarrow> Some (x\<lparr>sto := s', rnd := r'\<rparr>))"
| "serve parse st svc (ReqResolve p) x = (case Resolve st p (sto x) of
     Panic \<Rightarrow> None
   | Ret (_, s') \<Rightarrow> Some (x\<lparr>sto := s'\<rparr>))"
| "serve parse st svc (ReqGetAll usr) x = (case GetAll st svc usr (sto x) of
     (_, s') \<Rightarrow> Some (x\<lparr>sto := s'\<rparr>))"
| "serve parse st svc (ReqDelete now usr shorts) x = (case DeleteBatch now usr shorts (queue x) of
     None \<Rightarrow> None
   | Some (_, f) \<Rightarrow> Some (x\<lparr>queue := f\<rparr>))"
| "serve parse st svc ReqPing x = (case status_Ping st (sto x) of (_, s') \<Rightarrow> Some (x\<lparr>sto := s'\<rparr>))"
| "serve parse st svc ReqStats x = (case status_Stats st (sto x) of (_, s') \<Rightarrow> Some (x\<lparr>sto := s'\<rparr>))"
| "serve parse st svc FlushQueue x = (case flush_deletes st (queue x) (sto x) of
     (f, s') \<Rightarrow> Some (x\<lparr>sto := s', queue := f\<rparr>))"

fun serve_all :: "(string \<Rightarrow> gerr + purl) \<Rightarrow> 's Storage \<Rightarrow> Service \<Rightarrow> req list \<Rightarrow> 's sys \<Rightarrow> 's sys option" where
  "serve_all parse st svc [] x = Some x"
| "serve_all parse st svc (r # rs) x = (case serve parse st svc r x of
     None \<Rightarrow> None | Some y \<Rightarrow> serve_all parse st svc rs y)"

text \<open>The request asks for the deletion of path \<open>k\<close> in the name of user \<open>uid\<close>.\<close>

fun deletes :: "string \<Rightarrow> string \<Rightarrow> req \<Rightarrow> bool" where
  "deletes k uid (ReqDelete now usr shorts) \<longleftrightarrow> ID usr = uid \<and> k \<in> set shorts"
| "deletes k uid _ \<longleftrightarrow> False"

section \<open>The delete queue only holds what was asked for\<close>

lemma Push_buf: "Push f x = Some (e, f') \<Longrightarrow> set (buf f') \<subseteq> insert x (set (buf f))"
  by (auto simp: Push_def push_body_def push_send_def Let_def split: if_splits prod.splits bool.splits)

lemma push_all_set:
  "push_all ts usr shorts f = Some (e, f') \<Longrightarrow>
     set (buf f') \<subseteq> set (buf f) \<union> delete_request ts usr ` set shorts"
proof (induction shorts arbitrary: f)
  case Nil
  then show ?case by simp
next
  case (Cons s ss)
  obtain x f1 where p: "Push f (delete_request ts usr s) = Some (x, f1)"
    using Cons.prems by (auto simp: delete_request_def split: option.splits)
  note one = Push_buf [OF p]
  show ?case
  proof (cases x)
    case None
    then have "push_all ts usr ss f1 = Some (e, f')" using Cons.prems p by (simp add: delete_request_def)
    from Cons.IH [OF this] one show ?thesis by auto
  next
    case (Some y)
    then have "f' = f1" using Cons.prems p by (simp add: delete_request_def)
    with one show ?thesis by auto
  qed
qed

lemma DeleteBatch_requested:
  assumes "DeleteBatch now usr shorts f = Some (e, f')" and "\<not> requested (buf f) k uid"
    and "\<not> (ID usr = uid \<and> k \<in> set shorts)"
  shows "\<not> requested (buf f') k uid"
proof -
  have "set (buf f') \<subseteq> set (buf f) \<union> delete_request now usr ` set shorts"
    using assms(1) push_all_set by (auto simp: DeleteBatch_def split: if_splits)
  with assms(2,3) show ?thesis by (auto simp: requested_def delete_request_def)
qed

text \<open>A request adds no deletion it does not ask for.\<close>

lemma serve_requested:
  assumes "serve parse st svc r x = Some y" and "\<not> requested (buf (queue x)) k uid"
    and "\<not> deletes k uid r"
  shows "\<not> requested (buf (queue y)) k uid"
proof (cases r)
  case (ReqDelete now usr shorts)
  with assms obtain e f where "DeleteBatch now usr shorts (queue x) = Some (e, f)" "y = x\<lparr>queue := f\<rparr>"
    by (auto split: option.splits)
  with DeleteBatch_requested assms ReqDelete show ?thesis by auto
next
  case FlushQueue
  have "buf (fst (flush_deletes st (queue x) (sto x))) = []"
    by (simp add: flush_deletes_def doFlush_def)
  with assms(1) FlushQueue show ?thesis by (auto simp: requested_def split: prod.splits)
qed (use assms in \<open>auto split: prod.splits outcome.splits\<close>)

context url_storage
begin

text \<open>A request keeps the good states of the storage, and every live entry with no queued deletion.\<close>

lemma serve_sto_ok:
  assumes "serve parse st svc r x = Some y" and "ok (sto x)"
  shows "ok (sto y) \<and> (live (view (sto x) k) \<longrightarrow>
    \<not> requested (buf (queue x)) k (e_user (the (view (sto x) k))) \<longrightarrow> view (sto y) k = view (sto x) k)"
proof (cases r)
  case (ReqShorten usr u)
  obtain served e s' r' where s: "Shorten parse st svc usr u (sto x) (rnd x) = ((served, e), s', r')"
    by (metis surj_pair)
  have "ok s'" using Shorten_ok [of parse svc usr u "sto x" "rnd x" served s' r']
      Shorten_error [of parse svc usr u "sto x" "rnd x" served _ s' r'] s assms(2) by (cases e) auto
  with Shorten_keeps_live [OF s assms(2)] s assms ReqShorten show ?thesis by auto
next
  case (ReqBatch usr b)
  obtain res e s' r' where s: "ShortenBatch st svc usr b (sto x) (rnd x) = ((res, e), s', r')"
    by (metis surj_pair)
  have "ok s' \<and> (live (view (sto x) k) \<longrightarrow> view s' k = view (sto x) k)"
  proof (cases e)
    case None
    from ShortenBatch_ok [OF s [unfolded None] assms(2)] obtain us where us:
      "\<forall>u \<in> set us. \<not> live (view (sto x) (Short u))" "view s' = insert_all us (view (sto x))" "ok s'" by auto
    then have "live (view (sto x) k) \<longrightarrow> k \<notin> Short ` set us" by auto
    with us show ?thesis by (simp add: insert_all_other)
  next
    case (Some y)
    with ShortenBatch_error [OF s [unfolded Some] assms(2)] show ?thesis by simp
  qed
  with s assms ReqBatch show ?thesis by auto
next
  case (ReqResolve p)
  with assms obtain g s' where "Resolve st p (sto x) = Ret (g, s')" "y = x\<lparr>sto := s'\<rparr>"
    by (auto split: outcome.splits)
  with resolve_state [OF assms(2)] assms show ?thesis by auto
next
  case (ReqGetAll usr)
  obtain ls e s' where l: "st_ListUserURLs st (sto x) (ID usr) = ((ls, e), s')" by (metis surj_pair)
  with list_state_law [OF assms(2) l] assms ReqGetAll show ?thesis
    by (auto simp: GetAll_def split: if_splits option.splits)
next
  case (ReqDelete now usr shorts)
  with assms show ?thesis by (auto split: option.splits)
next
  case ReqPing
  obtain pr s' where p: "st_Ping st (sto x) = (pr, s')" by (cases "st_Ping st (sto x)")
  from ping_law [OF assms(2) p] p assms ReqPing show ?thesis
    by (auto simp: status_Ping_def split: option.splits)
next
  case ReqStats
  obtain sr s' where p: "st_Stats st (sto x) = (sr, s')" by (cases "st_Stats st (sto x)")
  from stats_law [OF assms(2) p] p assms ReqStats show ?thesis
    by (auto simp: status_Stats_def split: option.splits prod.splits)
next
  case FlushQueue
  obtain f s' where f: "flush_deletes st (queue x) (sto x) = (f, s')" by (metis surj_pair)
  from flush_deletes_only [OF f assms(2)]
  have fl: "ok s'" "deletes_only (buf (queue x)) (view (sto x)) (view s')" by auto
  then have "view s' k = view (sto x) k"
    if "live (view (sto x) k)" "\<not> requested (buf (queue x)) k (e_user (the (view (sto x) k)))"
    using deletes_only_other [OF fl(2)] that by (auto simp: live_def split: option.splits)
  with fl f assms(1) FlushQueue show ?thesis by auto
qed

text \<open>A path that was ever given out stays in the storage.\<close>

lemma serve_dom:
  assumes "serve parse st svc r x = Some y" and "ok (sto x)" and "view (sto x) k \<noteq> None"
  shows "view (sto y) k \<noteq> None"
proof (cases r)
  case (ReqShorten usr u)
  obtain served e s' r' where s: "Shorten parse st svc usr u (sto x) (rnd x) = ((served, e), s', r')"
    by (metis surj_pair)
  have "view s' k \<noteq> None"
    using Shorten_ok [of parse svc usr u "sto x" "rnd x" served s' r']
      Shorten_error [of parse svc usr u "sto x" "rnd x" served _ s' r'] s assms(2,3) by (cases e) auto
  with s assms ReqShorten show ?thesis by auto
next
  case (ReqBatch usr b)
  obtain res e s' r' where s: "ShortenBatch st svc usr b (sto x) (rnd x) = ((res, e), s', r')"
    by (metis surj_pair)
  have "view s' k \<noteq> None"
    using ShortenBatch_ok [of svc usr b "sto x" "rnd x" res s' r'] ShortenBatch_error [of svc usr b "sto x" "rnd x" res _ s' r']
      s assms(2,3) insert_all_dom [of "view (sto x)" k] by (cases e) auto
  with s assms ReqBatch show ?thesis by auto
next
  case FlushQueue
  obtain f s' where f: "flush_deletes st (queue x) (sto x) = (f, s')" by (metis surj_pair)
  from flush_deletes_only [OF f assms(2)] deletes_only_dom assms(3) have "view s' k \<noteq> None" by blast
  with f assms(1) FlushQueue show ?thesis by auto
next
  case (ReqResolve p)
  with assms obtain g s' where "Resolve st p (sto x) = Ret (g, s')" "y = x\<lparr>sto := s'\<rparr>"
    by (auto split: outcome.splits)
  with resolve_state [OF assms(2)] assms(3) show ?thesis by auto
next
  case (ReqGetAll usr)
  obtain ls e s' where l: "st_ListUserURLs st (sto x) (ID usr) = ((ls, e), s')" by (metis surj_pair)
  with list_state_law [OF assms(2) l] assms ReqGetAll show ?thesis
    by (auto simp: GetAll_def split: if_splits option.splits)
next
  case (ReqDelete now usr shorts)
  with assms show ?thesis by (auto split: option.splits)
next
  case ReqPing
  obtain pr s' where p: "st_Ping st (sto x) = (pr, s')" by (cases "st_Ping st (sto x)")
  from ping_law [OF assms(2) p] p assms ReqPing show ?thesis
    by (auto simp: status_Ping_def split: option.splits)
next
  case ReqStats
  obtain sr s' where p: "st_Stats st (sto x) = (sr, s')" by (cases "st_Stats st (sto x)")
  from stats_law [OF assms(2) p] p assms ReqStats show ?thesis
    by (auto simp: status_Stats_def split: option.splits prod.splits)
qed

text \<open>
  One request keeps a live entry, unless its deletion was asked for by its owner, in this
  request or in one that is still queued.
\<close>

lemma serve_keeps:
  assumes "serve parse st svc r x = Some y" and "ok (sto x)"
    and "view (sto x) k = Some en" and "\<not> e_deleted en"
    and "\<not> requested (buf (queue x)) k (e_user en)" and "\<not> deletes k (e_user en) r"
  shows "ok (sto y) \<and> view (sto y) k = Some en \<and> \<not> requested (buf (queue y)) k (e_user en)"
  using serve_sto_ok [OF assms(1,2), of k] serve_requested [OF assms(1,5,6)] assms(3-5) by simp

lemma serve_all_keeps:
  assumes "serve_all parse st svc rs x = Some y" and "ok (sto x)"
    and "view (sto x) k = Some en" and "\<not> e_deleted en"
    and "\<not> requested (buf (queue x)) k (e_user en)" and "list_all (\<lambda>r. \<not> deletes k (e_user en) r) rs"
  shows "ok (sto y) \<and> view (sto y) k = Some en \<and> \<not> requested (buf (queue y)) k (e_user en)"
  using assms
proof (induction rs arbitrary: x)
  case Nil
  then show ?case by simp
next
  case (Cons r rs)
  then obtain z where z: "serve parse st svc r x = Some z" "serve_all parse st svc rs z = Some y"
    by (auto split: option.splits)
  from serve_keeps [OF z(1) Cons.prems(2-5)] Cons.prems(6) z(2) Cons.IH [of z] Cons.prems(4)
  show ?case by auto
qed

text \<open>A shortened url resolves after any further requests, as long as its owner does not delete it.\<close>

lemma link_persists:
  assumes "Shorten parse st svc usr orig (sto x) (rnd x) = ((served, None), s', r')" and "ok (sto x)"
    and "\<forall>k. \<not> requested (buf (queue x)) k (ID usr)"
    and "serve_all parse st svc rs (x\<lparr>sto := s', rnd := r'\<rparr>) = Some y"
    and "\<forall>k. list_all (\<lambda>r. \<not> deletes k (ID usr) r) rs"
  shows "\<exists>pu p s''. parse orig = Inr pu \<and> served = getServedURL svc p \<and>
    Resolve st (CHR ''/'' # p) (sto y) = Ret ((url_String pu, None), s'')"
proof -
  from Shorten_ok [OF assms(1,2)] obtain pu p where pu: "parse orig = Inr pu"
      "served = getServedURL svc p" "random_path (pathLength svc) p"
      "view s' p = Some (new_entry usr (url_String pu))" "ok s'" by auto
  have "ok (sto y) \<and> view (sto y) p = Some (new_entry usr (url_String pu))"
    using serve_all_keeps [OF assms(4), of p "new_entry usr (url_String pu)"] pu assms(3,5) by auto
  then show ?thesis
    using pu resolve_result [of "sto y" p] random_path_valid [OF pu(3)] by auto
qed

end

context url_storage
begin

lemma ShortenBatch_resolves:
  assumes "ShortenBatch st svc usr batch s r = ((res, None), s', r')" and "ok s"
    and "distinct (map SShort res)" and "i < length batch"
  shows "length res = length batch \<and> SID (res ! i) = BID (batch ! i) \<and>
    (\<exists>p s''. SShort (res ! i) = getServedURL svc p \<and>
      Resolve st (CHR ''/'' # p) s' = Ret ((BURL (batch ! i), None), s''))"
proof -
  from ShortenBatch_ok [OF assms(1,2)] obtain us where us: "length us = length batch"
      "map Orig us = map BURL batch"
      "list_all (\<lambda>u. random_path (pathLength svc) (Short u) \<and> UserID u = ID usr) us"
      "res = map (\<lambda>(b, u). \<lparr>SID = BID b, SShort = getServedURL svc (Short u)\<rparr>) (zip batch us)"
      "view s' = insert_all us (view s)" "ok s'" by auto
  have "map SShort res = map (getServedURL svc) (map Short us)"
    using us(1) by (simp add: us(4) list_eq_iff_nth_eq)
  with assms(3) have d: "distinct (map Short us)" by (simp only: distinct_map)
  let ?u = "us ! i"
  have u: "?u \<in> set us" "Orig ?u = BURL (batch ! i)" "random_path (pathLength svc) (Short ?u)"
    using assms(4) us(1) arg_cong [OF us(2), of "\<lambda>l. l ! i"] us(3) by (auto simp: list_all_length)
  have "view s' (Short ?u) = Some (url_entry ?u)" using insert_all_distinct [OF d u(1)] us(5) by simp
  then have "\<exists>s''. Resolve st (CHR ''/'' # Short ?u) s' = Ret ((BURL (batch ! i), None), s'')"
    using resolve_result [OF us(6), of "Short ?u"] random_path_valid [OF u(3)] u(2) by auto
  then show ?thesis using us(1,4) assms(4) by auto
qed

end

section \<open>The attempts to store one url in memory\<close>

text \<open>The paths that successive attempts draw.\<close>

fun tries :: "nat \<Rightarrow> nat \<Rightarrow> nat src \<Rightarrow> string list" where
  "tries 0 n r = []"
| "tries (Suc i) n r = (let (p, r1) = RandString n r in p # tries i n r1)"

lemma storeURL_loop_memory:
  assumes "\<forall>i. \<exists>u. gen m i = Inr u"
  shows "fst (storeURL_loop memory_storage n usr u i p0 err m r) =
    (case find (\<lambda>p. \<not> live (mem_view m p)) (tries i n r) of
       Some p \<Rightarrow> (p, None)
     | None \<Rightarrow> (last (p0 # tries i n r),
         map_option (Wrap ''cannot store url'') (if i = 0 then err else Some (Sentinel ErrAlreadyExists))))"
proof (induction i arbitrary: p0 err r)
  case 0
  then show ?case by simp
next
  case (Suc i)
  obtain p r1 where p: "RandString n r = (p, r1)" by (cases "RandString n r")
  let ?u = "\<lparr>Short = p, Orig = u, UserID = ID usr, TS = 0\<rparr>"
  show ?case
  proof (cases "live (mem_view m p)")
    case True
    then have "st_Store memory_storage m ?u False = (([], Some (Sentinel ErrAlreadyExists)), m)"
      by (simp add: memory_storage_def Memory_Store_def taken_live mem_view_def)
    then have "storeURL_loop memory_storage n usr u (Suc i) p0 err m r =
        storeURL_loop memory_storage n usr u i p (Some (Sentinel ErrAlreadyExists)) m r1"
      using p by simp
    then show ?thesis using Suc.IH [of p "Some (Sentinel ErrAlreadyExists)" r1] True p
      by (simp split: option.splits)
  next
    case False
    moreover obtain v where "gen m 0 = Inr v" using assms by blast
    ultimately obtain m' where "st_Store memory_storage m ?u False = (([], None), m')"
      by (simp add: memory_storage_def Memory_Store_def taken_live mem_view_def next_src_def)
    then show ?thesis using p False by simp
  qed
qed

section \<open>Deletions in memory\<close>

lemma delete_loop_hits:
  assumes "delete_loop us db n = (n', db')" and "requested us k uid"
    and "db_view db k = Some en" and "e_user en = uid" and "db_inv db"
  shows "\<exists>en'. db_view db' k = Some en' \<and> e_deleted en' \<and> e_orig en' = e_orig en"
  using assms
proof (induction us arbitrary: db n en)
  case Nil
  then show ?case by (simp add: requested_def)
next
  case (Cons u us)
  obtain r where r: "map_of db k = Some r" "en = rec_entry r" using Cons.prems(3) by (auto simp: db_view_def)
  have keep: "\<exists>en'. db_view db' k = Some en' \<and> e_deleted en' \<and> e_orig en' = e_orig en"
    if "delete_loop us db1 n1 = (n', db')" "db_view db1 k = Some en1" "e_deleted en1" "e_orig en1 = e_orig en" "db_inv db1" for db1 n1 en1
  proof -
    from delete_loop_view [OF that(1,5)] have "deletes_only us (db_view db1) (db_view db')" by simp
    then have "db_view db' k = Some en1 \<or> db_view db' k = Some (en1\<lparr>e_deleted := True\<rparr>)"
      using that(2) unfolding deletes_only_def by (metis option.inject)
    with that show ?thesis by auto
  qed
  show ?case
  proof (cases "Short u = k \<and> UserID u = uid")
    case True
    let ?db = "AList.update k (r\<lparr>Deleted := True\<rparr>) db"
    have "delete_loop us ?db (n + 1) = (n', db')" using Cons.prems(1,4) True r by simp
    moreover have "db_inv ?db" using Cons.prems(5) r by (auto simp: db_inv_def)
    ultimately show ?thesis using keep r(2) by simp
  next
    case False
    then have req: "requested us k uid" using Cons.prems(2) by (auto simp: requested_def)
    show ?thesis
    proof (cases "\<exists>r. map_of db (Short u) = Some r \<and> RUserID r = UserID u")
      case False
      then have "delete_loop us db n = (n', db')" using Cons.prems(1) by (auto split: option.splits)
      from Cons.IH [OF this req Cons.prems(3-5)] show ?thesis .
    next
      case True
      then obtain q where q: "map_of db (Short u) = Some q" "RUserID q = UserID u" by blast
      then have "Short u \<noteq> k" using False r Cons.prems(4) by auto
      let ?db = "AList.update (Short u) (q\<lparr>Deleted := True\<rparr>) db"
      have "delete_loop us ?db (n + 1) = (n', db')" using Cons.prems(1) q by simp
      moreover have "db_view ?db k = Some en" using \<open>Short u \<noteq> k\<close> Cons.prems(3) by simp
      moreover have "db_inv ?db" using Cons.prems(5) q by (auto simp: db_inv_def)
      ultimately show ?thesis using Cons.IH [OF _ req _ Cons.prems(4)] by blast
    qed
  qed
qed

section \<open>Sample parameters\<close>

definition sample_service :: Service where
  "sample_service = \<lparr>servedScheme = ''http'', redirectScheme = [], host = ''h'', pathLength = 2\<rparr>"

definition sample_parse :: "string \<Rightarrow> gerr + purl" where
  "sample_parse u = urlParse sample_libs u"

definition sample_queue :: "URL Flusher" where
  "sample_queue = \<lparr>shutdown = False, flushNeed = False, fillChan = 0, buf = [], size = 0,
     flushSize = 100, allocSize = 200, flushInterval = 3000000000\<rparr>"

definition sample_mem :: Memory where
  "sample_mem = \<lparr>DB = [], gen = (\<lambda>_. Inr ''0001'')\<rparr>"

lemma sample_mem_inv [simp]: "mem_inv sample_mem"
  by (simp add: sample_mem_def mem_inv_def)

definition owner_user :: user where
  "owner_user = \<lparr>ID = ''u1'', is_new = False\<rparr>"

definition other_user :: user where
  "other_user = \<lparr>ID = ''u2'', is_new = False\<rparr>"

definition sample_rnd :: "nat src" where
  "sample_rnd i = i"

section \<open>Properties\<close>

text \<open>Durability of a link on the database: whatever requests follow a successful \<open>Shorten\<close>
  (by anyone, failing or not, with flushes of the delete queue), the served path resolves to the
  normalised url, as long as its owner asks for no deletion of it.\<close>

theorem link_persists_database:
  assumes "pgx_pool pool tbl up" and "up (pool_st (sto x))"
    and "Shorten parse (database_storage pool) svc usr orig (sto x) (rnd x) = ((served, None), s', r')"
    and "\<forall>k. \<not> requested (buf (queue x)) k (ID usr)"
    and "serve_all parse (database_storage pool) svc rs (x\<lparr>sto := s', rnd := r'\<rparr>) = Some y"
    and "\<forall>k. list_all (\<lambda>r. \<not> deletes k (ID usr) r) rs"
  shows "\<exists>pu p s''. parse orig = Inr pu \<and> served = getServedURL svc p \<and>
    Resolve (database_storage pool) (CHR ''/'' # p) (sto y) = Ret ((url_String pu, None), s'')"
proof -
  have "url_storage (database_storage pool) (database_view tbl) (database_ok up)"
    by (rule pgx_pool.is_storage [OF assms(1)])
  from url_storage.link_persists [OF this assms(3) _ assms(4-6)] assms(2) show ?thesis
    by (simp add: database_ok_def)
qed

definition sample_sys :: "'s \<Rightarrow> 's sys" where
  "sample_sys s = \<lparr>sto = s, queue = sample_queue, rnd = sample_rnd\<rparr>"

lemma sample_sys_simps [simp]:
  "sto (sample_sys s) = s" "queue (sample_sys s) = sample_queue" "rnd (sample_sys s) = sample_rnd"
  by (simp_all add: sample_sys_def)

lemma sample_queue_requested [simp]: "\<not> requested (buf sample_queue) k uid"
  by (simp add: sample_queue_def requested_def)

definition sample_reqs :: "req list" where
  "sample_reqs = [ReqResolve ''/01'', ReqDelete 7 other_user [''01''], ReqShorten other_user ''http://a.b'',
     FlushQueue, ReqGetAll owner_user]"

lemma sample_reqs_spare: "\<forall>k. list_all (\<lambda>r. \<not> deletes k (ID owner_user) r) sample_reqs"
  by (simp add: sample_reqs_def owner_user_def other_user_def)

theorem link_persists_database_witness:
  "\<exists>y p s''. serve_all sample_parse (database_storage sql_pool) sample_service sample_reqs
      ((sample_sys (sample_db []))\<lparr>
        sto := fst (snd (Shorten sample_parse (database_storage sql_pool) sample_service owner_user
          ''http://a.b'' (sample_db []) sample_rnd)),
        rnd := snd (snd (Shorten sample_parse (database_storage sql_pool) sample_service owner_user
          ''http://a.b'' (sample_db []) sample_rnd))\<rparr>) = Some y \<and>
    ''http://h/01'' = getServedURL sample_service p \<and>
    Resolve (database_storage sql_pool) (CHR ''/'' # p) (sto y) = Ret ((''http://a.b'', None), s'')"
proof -
  let ?x = "sample_sys (sample_db [])"
  let ?r = "Shorten sample_parse (database_storage sql_pool) sample_service owner_user ''http://a.b'' (sample_db []) sample_rnd"
  let ?z = "?x\<lparr>sto := fst (snd ?r), rnd := snd (snd ?r)\<rparr>"
  have "fst ?r = (''http://h/01'', None)" by code_simp
  then have r: "Shorten sample_parse (database_storage sql_pool) sample_service owner_user ''http://a.b''
      (sto ?x) (rnd ?x) = ((''http://h/01'', None), fst (snd ?r), snd (snd ?r))"
    by (metis prod.collapse sample_sys_simps(1,3))
  have "\<not> Option.is_none (serve_all sample_parse (database_storage sql_pool) sample_service sample_reqs ?z)"
    by code_simp
  then obtain y where y: "serve_all sample_parse (database_storage sql_pool) sample_service sample_reqs ?z = Some y"
    by (auto simp: Option.is_none_def)
  have "\<exists>pu p s''. sample_parse ''http://a.b'' = Inr pu \<and> ''http://h/01'' = getServedURL sample_service p \<and>
    Resolve (database_storage sql_pool) (CHR ''/'' # p) (sto y) = Ret ((url_String pu, None), s'')"
    by (rule link_persists_database [OF pg.pgx_pool_axioms _ r _ y sample_reqs_spare])
      (simp_all add: table_inv_def)
  with y show ?thesis by (auto simp: sample_parse_def sample_libs_def)
qed

text \<open>Durability of a link on the file storage (and so on the memory it wraps): the same, for any
  requests after a successful \<open>Shorten\<close>.\<close>

theorem link_persists_file:
  assumes "file_ok (sto x)"
    and "Shorten parse file_storage svc usr orig (sto x) (rnd x) = ((served, None), s', r')"
    and "\<forall>k. \<not> requested (buf (queue x)) k (ID usr)"
    and "serve_all parse file_storage svc rs (x\<lparr>sto := s', rnd := r'\<rparr>) = Some y"
    and "\<forall>k. list_all (\<lambda>r. \<not> deletes k (ID usr) r) rs"
  shows "\<exists>pu p s''. parse orig = Inr pu \<and> served = getServedURL svc p \<and>
    Resolve file_storage (CHR ''/'' # p) (sto y) = Ret ((url_String pu, None), s'')"
  using fil.link_persists [OF assms(2,1,3-5)] .

theorem link_persists_file_witness:
  "\<exists>y p s''. serve_all sample_parse file_storage sample_service sample_reqs
      ((sample_sys (sample_file True))\<lparr>
        sto := fst (snd (Shorten sample_parse file_storage sample_service owner_user
          ''http://a.b'' (sample_file True) sample_rnd)),
        rnd := snd (snd (Shorten sample_parse file_storage sample_service owner_user
          ''http://a.b'' (sample_file True) sample_rnd))\<rparr>) = Some y \<and>
    ''http://h/01'' = getServedURL sample_service p \<and>
    Resolve file_storage (CHR ''/'' # p) (sto y) = Ret ((''http://a.b'', None), s'')"
proof -
  let ?x = "sample_sys (sample_file True)"
  let ?r = "Shorten sample_parse file_storage sample_service owner_user ''http://a.b'' (sample_file True) sample_rnd"
  let ?z = "?x\<lparr>sto := fst (snd ?r), rnd := snd (snd ?r)\<rparr>"
  have "fst ?r = (''http://h/01'', None)" by code_simp
  then have r: "Shorten sample_parse file_storage sample_service owner_user ''http://a.b''
      (sto ?x) (rnd ?x) = ((''http://h/01'', None), fst (snd ?r), snd (snd ?r))"
    by (metis prod.collapse sample_sys_simps(1,3))
  have "\<not> Option.is_none (serve_all sample_parse file_storage sample_service sample_reqs ?z)"
    by code_simp
  then obtain y where y: "serve_all sample_parse file_storage sample_service sample_reqs ?z = Some y"
    by (auto simp: Option.is_none_def)
  have "\<exists>pu p s''. sample_parse ''http://a.b'' = Inr pu \<and> ''http://h/01'' = getServedURL sample_service p \<and>
    Resolve file_storage (CHR ''/'' # p) (sto y) = Ret ((url_String pu, None), s'')"
    by (rule link_persists_file [OF _ r _ y sample_reqs_spare])
      (simp_all add: file_ok_def sample_file_ok)
  with y show ?thesis by (auto simp: sample_parse_def sample_libs_def)
qed

text \<open>A conflict is answered with the link that exists: when \<open>Shorten\<close> on the database fails with
  \<open>ErrConflict\<close>, the served path it returns resolves to the same url, and nothing was stored.\<close>

theorem shorten_conflict_database:
  assumes "pgx_pool pool tbl up" and "up (pool_st s)"
    and "Shorten parse (database_storage pool) svc usr orig s r = ((served, Some (Sentinel ErrConflict)), s', r')"
  shows "\<exists>pu p. parse orig = Inr pu \<and> served = getServedURL svc p \<and>
    get_result (database_view tbl s' p) = (url_String pu, None) \<and> database_view tbl s' = database_view tbl s"
proof -
  have "url_storage (database_storage pool) (database_view tbl) (database_ok up)"
    by (rule pgx_pool.is_storage [OF assms(1)])
  from url_storage.Shorten_error [OF this assms(3)] assms(2) show ?thesis
    by (auto simp: database_ok_def)
qed

definition known_table :: table where
  "known_table = [sample_row ''zz'' ''http://a.b'' False]"

theorem shorten_conflict_database_witness:
  "\<exists>s' r' p. Shorten sample_parse (database_storage sql_pool) sample_service owner_user ''http://a.b''
      (sample_db known_table) sample_rnd = ((''http://h/zz'', Some (Sentinel ErrConflict)), s', r') \<and>
    ''http://h/zz'' = getServedURL sample_service p \<and>
    get_result (database_view sq_table s' p) = (''http://a.b'', None)"
proof -
  let ?r = "Shorten sample_parse (database_storage sql_pool) sample_service owner_user ''http://a.b''
      (sample_db known_table) sample_rnd"
  have "fst ?r = (''http://h/zz'', Some (Sentinel ErrConflict))" by code_simp
  then have r: "?r = ((''http://h/zz'', Some (Sentinel ErrConflict)), fst (snd ?r), snd (snd ?r))"
    by (metis prod.collapse)
  have "\<exists>pu p. sample_parse ''http://a.b'' = Inr pu \<and> ''http://h/zz'' = getServedURL sample_service p \<and>
    get_result (database_view sq_table (fst (snd ?r)) p) = (url_String pu, None) \<and>
    database_view sq_table (fst (snd ?r)) = database_view sq_table (sample_db known_table)"
    by (rule shorten_conflict_database [OF pg.pgx_pool_axioms _ r])
      (simp add: table_inv_def known_table_def)
  then have pe: "\<exists>p. ''http://h/zz'' = getServedURL sample_service p \<and>
      get_result (database_view sq_table (fst (snd ?r)) p) = (''http://a.b'', None)"
    by (elim conjE exE) (intro exI conjI, assumption, auto simp: sample_parse_def sample_libs_def)
  then obtain p where p: "''http://h/zz'' = getServedURL sample_service p"
      "get_result (database_view sq_table (fst (snd ?r)) p) = (''http://a.b'', None)" by (elim exE conjE)
  show ?thesis
    by (intro exI [of _ "fst (snd ?r)"] exI [of _ "snd (snd ?r)"] exI [of _ p] conjI)
      (rule r, rule p(1), rule p(2))
qed

text \<open>Listing is private: \<open>GetAll\<close> on the database shows only entries of the calling user, each
  under its served path and with its url, and never answers a user who is new.\<close>

theorem listing_is_private:
  assumes "pgx_pool pool tbl up" and "up (pool_st s)"
    and "GetAll (database_storage pool) svc usr s = ((us, None), s')" and "v \<in> set us"
  shows "\<not> IsNew usr \<and> (\<exists>p en. Short v = getServedURL svc p \<and> database_view tbl s p = Some en \<and>
    e_user en = ID usr \<and> e_orig en = Orig v)"
proof -
  have "url_storage (database_storage pool) (database_view tbl) (database_ok up)"
    by (rule pgx_pool.is_storage [OF assms(1)])
  from url_storage.GetAll_own [OF this assms(3) _ assms(4)] assms(2) show ?thesis
    by (simp add: database_ok_def)
qed

theorem listing_is_private_witness:
  "\<exists>us s' v. GetAll (database_storage sql_pool) sample_service owner_user (sample_db two_rows) = ((us, None), s') \<and>
    v \<in> set us \<and> (\<exists>p en. Short v = getServedURL sample_service p \<and>
      database_view sq_table (sample_db two_rows) p = Some en \<and> e_user en = ''u1'')"
proof -
  let ?v = "\<lparr>Short = ''http://h/h2'', Orig = ''http://b'', UserID = [], TS = 0\<rparr>"
  let ?r = "GetAll (database_storage sql_pool) sample_service owner_user (sample_db two_rows)"
  have "fst ?r = ([?v], None)" by code_simp
  then have r: "?r = (([?v], None), snd ?r)" by (metis prod.collapse)
  have "\<not> IsNew owner_user \<and> (\<exists>p en. Short ?v = getServedURL sample_service p \<and>
      database_view sq_table (sample_db two_rows) p = Some en \<and> e_user en = ID owner_user \<and> e_orig en = Orig ?v)"
    by (rule listing_is_private [OF pg.pgx_pool_axioms _ r]) simp_all
  then have pe: "\<exists>p en. Short ?v = getServedURL sample_service p \<and>
      database_view sq_table (sample_db two_rows) p = Some en \<and> e_user en = ''u1''"
    by (elim conjE exE) (intro exI conjI, assumption+, simp add: owner_user_def)
  show ?thesis
    by (intro exI [of _ "[?v]"] exI [of _ "snd ?r"] exI [of _ ?v] conjI) (rule r, simp, rule pe)
qed

text \<open>A batch resolves: when \<open>ShortenBatch\<close> on the file storage succeeds with distinct links, every
  item keeps its correlation id and its link resolves to the url of that item.\<close>

theorem batch_resolves_file:
  assumes "file_ok s" and "ShortenBatch file_storage svc usr batch s r = ((res, None), s', r')"
    and "distinct (map SShort res)" and "i < length batch"
  shows "length res = length batch \<and> SID (res ! i) = BID (batch ! i) \<and>
    (\<exists>p s''. SShort (res ! i) = getServedURL svc p \<and>
      Resolve file_storage (CHR ''/'' # p) s' = Ret ((BURL (batch ! i), None), s''))"
  by (rule fil.ShortenBatch_resolves [OF assms(2,1,3,4)])

definition sample_batch :: "BatchURL list" where
  "sample_batch = [\<lparr>BID = ''1'', BURL = ''x''\<rparr>, \<lparr>BID = ''2'', BURL = ''y''\<rparr>]"

theorem batch_resolves_file_witness:
  "\<exists>res s' r'. ShortenBatch file_storage sample_service owner_user sample_batch (sample_file True) sample_rnd
      = ((res, None), s', r') \<and>
    (\<exists>p s''. SShort (res ! 1) = getServedURL sample_service p \<and>
      Resolve file_storage (CHR ''/'' # p) s' = Ret ((''y'', None), s''))"
proof -
  let ?r = "ShortenBatch file_storage sample_service owner_user sample_batch (sample_file True) sample_rnd"
  let ?res = "[\<lparr>SID = ''1'', SShort = ''http://h/01''\<rparr>, \<lparr>SID = ''2'', SShort = ''http://h/23''\<rparr>]"
  have "fst ?r = (?res, None)" by code_simp
  then have r: "?r = ((?res, None), fst (snd ?r), snd (snd ?r))" by (metis prod.collapse)
  have "length ?res = length sample_batch \<and> SID (?res ! 1) = BID (sample_batch ! 1) \<and>
    (\<exists>p s''. SShort (?res ! 1) = getServedURL sample_service p \<and>
      Resolve file_storage (CHR ''/'' # p) (fst (snd ?r)) = Ret ((BURL (sample_batch ! 1), None), s''))"
    by (rule batch_resolves_file [OF _ r]) (simp_all add: file_ok_def sample_file_ok sample_batch_def)
  with r show ?thesis by (metis sample_batch_def nth_Cons_0 nth_Cons_Suc One_nat_def BatchURL.select_convs(2))
qed

text \<open>C30. \<open>Shorten\<close> on the memory storage makes at most three attempts: it serves the first of the next
  three random paths that is free, and fails with \<open>already exists\<close> exactly when all three are taken.\<close>

theorem shorten_three_attempts:
  assumes "\<forall>i. \<exists>u. gen m i = Inr u" and "parse orig = Inr pu"
    and "redirectScheme svc = [] \<or> Scheme pu = redirectScheme svc"
  shows "fst (Shorten parse memory_storage svc usr orig m r) =
    (case find (\<lambda>p. \<not> live (mem_view m p)) (tries 3 (pathLength svc) r) of
       Some p \<Rightarrow> (getServedURL svc p, None)
     | None \<Rightarrow> ([], Some (Join [Sentinel ErrStorageError,
         Wrap ''cannot store url'' (Sentinel ErrAlreadyExists)])))"
proof -
  obtain p e m' r' where s: "storeURL memory_storage svc usr (url_String pu) m r = ((p, e), m', r')"
    by (metis surj_pair)
  with storeURL_loop_memory [OF assms(1), of "pathLength svc" usr "url_String pu" 3 "[]" None r]
  have "(p, e) = (case find (\<lambda>p. \<not> live (mem_view m p)) (tries 3 (pathLength svc) r) of
       Some p \<Rightarrow> (p, None)
     | None \<Rightarrow> (last ([] # tries 3 (pathLength svc) r),
         Some (Wrap ''cannot store url'' (Sentinel ErrAlreadyExists))))"
    by (simp add: storeURL_def defaultStoreRetries_def split: option.splits)
  then show ?thesis using assms(2,3) s
    by (auto simp: Shorten_def split: option.splits)
qed

theorem shorten_three_attempts_witness:
  "fst (Shorten sample_parse memory_storage sample_service owner_user ''http://a.b'' sample_mem sample_rnd)
     = (''http://h/01'', None)"
proof -
  let ?pu = "\<lparr>Scheme = ''http'', url_Host = ''a.b'', url_String = ''http://a.b''\<rparr>"
  have u: "\<forall>i. \<exists>u. gen sample_mem i = Inr u" by (simp add: sample_mem_def)
  have p: "sample_parse ''http://a.b'' = Inr ?pu" by (simp add: sample_parse_def sample_libs_def)
  have t: "tries 3 2 sample_rnd = [''01'', ''23'', ''45'']" by code_simp
  show ?thesis
    using shorten_three_attempts [of sample_mem sample_parse "''http://a.b''" ?pu sample_service owner_user sample_rnd]
      u p t
    by (simp add: sample_service_def sample_mem_def mem_view_def db_view_def getServedURL_def)
qed

text \<open>C22. A deletion takes effect in memory: after \<open>DeleteBatch\<close> by the owner returned no error and the
  queue was flushed, resolving the path answers that the url is deleted.\<close>

theorem delete_takes_effect:
  assumes "mem_inv m" and "mem_view m k = Some en" and "e_user en = ID usr" and "list_all pathChar k"
    and "DeleteBatch now usr shorts f = Some (None, f')" and "k \<in> set shorts"
    and "flush_deletes memory_storage f' m = (f'', m')"
  shows "buf f'' = [] \<and> Resolve memory_storage (CHR ''/'' # k) m' =
    Ret (([], Some (Join [Sentinel ErrResolverStorage, Sentinel ErrDeleted])), m')"
proof -
  have "push_all now usr shorts f = Some (None, f')"
    using assms(5) by (auto simp: DeleteBatch_def split: if_splits)
  from push_all_buf [OF this] have buf: "buf f' = buf f @ map (delete_request now usr) shorts" .
  then have "buf f' \<noteq> []" using assms(6) by auto
  moreover obtain n db where d: "delete_loop (buf f') (DB m) 0 = (n, db)" by (metis surj_pair)
  ultimately have f: "buf f'' = []" "m' = m\<lparr>DB := db\<rparr>"
    using assms(7) by (auto simp: flush_deletes_def doFlush_def deleteURLs_def memory_storage_def Memory_DeleteUserURLs_def)
  have "requested (buf f') k (ID usr)"
    using buf assms(6) by (auto simp: requested_def delete_request_def intro!: bexI [of _ "delete_request now usr k"])
  from delete_loop_hits [OF d this] assms(1-3) obtain en' where en': "mem_view m' k = Some en'" "e_deleted en'"
    by (auto simp: mem_view_def mem_inv_def f)
  have "db_inv db" using delete_loop_view [OF d] assms(1) by (simp add: mem_inv_def)
  then have "mem_inv m'" using assms(1) by (simp add: mem_inv_def f)
  from url_storage.resolve_result [OF mem.url_storage_axioms this, of k] en' assms(4) f(1) show ?thesis
    by (simp add: memory_storage_def)
qed

definition owned_mem :: Memory where
  "owned_mem = \<lparr>DB = [(''ab'', mk_record ''0001'' \<lparr>Short = ''ab'', Orig = ''http://a.b'', UserID = ''u1'', TS = 0\<rparr>)],
     gen = (\<lambda>_. Inr ''0001'')\<rparr>"

theorem delete_takes_effect_witness:
  "\<exists>f' f'' m'. DeleteBatch 7 owner_user [''ab''] sample_queue = Some (None, f') \<and>
    flush_deletes memory_storage f' owned_mem = (f'', m') \<and>
    Resolve memory_storage ''/ab'' m' =
      Ret (([], Some (Join [Sentinel ErrResolverStorage, Sentinel ErrDeleted])), m')"
proof -
  have "\<exists>f'. DeleteBatch 7 owner_user [''ab''] sample_queue = Some (None, f')"
    by (simp add: DeleteBatch_def IsNew_def owner_user_def Push_def sample_queue_def push_body_def Let_def)
  then obtain f' where f': "DeleteBatch 7 owner_user [''ab''] sample_queue = Some (None, f')" by blast
  obtain f'' m' where fl: "flush_deletes memory_storage f' owned_mem = (f'', m')" by (metis surj_pair)
  have "mem_inv owned_mem" "mem_view owned_mem ''ab'' = Some (url_entry
      \<lparr>Short = ''ab'', Orig = ''http://a.b'', UserID = ''u1'', TS = 0\<rparr>)" "list_all pathChar ''ab''"
    by (simp_all add: owned_mem_def mem_inv_def db_inv_def mem_view_def db_view_def pathChar_def IsLetter_def)
  from delete_takes_effect [OF this(1,2) _ this(3) f' _ fl] f' fl show ?thesis
    by (simp add: owner_user_def)
qed

text \<open>C37. A batch can stop the service from starting again: \<open>ShortenBatch\<close> checks no url, so with a url
  that \<open>url.Parse\<close> rejects it succeeds on the file storage, the storage is saved on a healthy disk,
  and opening the file afterwards fails.\<close>

theorem batch_blocks_restart:
  assumes "file_ok s" and "\<not> fshutdown s" and "healthy d"
    and "ShortenBatch file_storage svc usr [\<lparr>BID = i, BURL = bad\<rparr>] s r = ((res, None), s', r')"
    and "urlParse L bad = Inl pe"
    and "\<forall>(k, rec) \<in> set (DB (mem s')). json_ok L rec \<and>
      (\<forall>e. record_check L rec = Some e \<longrightarrow> \<not> errors_is e (Sentinel IoEOF))"
  shows "\<exists>e. File_New L g (Inr \<lparr>r_data = fcontent (persist_stop L d s'), r_err = Sentinel IoEOF\<rparr>) = Ret (Inl e)"
proof -
  from url_storage.ShortenBatch_ok [OF fil.url_storage_axioms assms(4,1)] obtain u where u: "Orig u = bad" "file_ok s'"
      "file_view s' = (file_view s)(Short u \<mapsto> url_entry u)"
    by (auto simp: length_Suc_conv)
  then have "file_view s' (Short u) = Some (url_entry u)" by simp
  then obtain rec where rec: "map_of (DB (mem s')) (Short u) = Some rec" "rec_entry rec = url_entry u"
    by (auto simp: file_view_def mem_view_def db_view_def)
  have "(Short u, rec) \<in> set (DB (mem s'))" using rec(1) by (rule map_of_SomeD)
  moreover have "OriginalURL rec = bad" using arg_cong [OF rec(2), of e_orig] u(1) by simp
  moreover from this have "record_check L rec \<noteq> None"
    using assms(5) by (auto simp: record_check_def split: option.splits)
  moreover have "fcontent (persist_stop L d s') = lines_of L (DB (mem s'))"
  proof -
    have "changed s'" using assms(2,4)
      by (auto simp: ShortenBatch_def file_storage_def File_StoreBatch_def split: prod.splits option.splits)
    moreover have "dumpDB2File L d (DB (mem s')) (fcontent s') = (None, lines_of L (DB (mem s')))"
      using assms(3,6) by (intro dump_unlimited) (auto simp: healthy_def)
    ultimately show ?thesis by (simp add: persist_stop_def persist_def Memory_Dump_def)
  qed
  ultimately show ?thesis
    using read_loop_bad_record [OF assms(6), of "Short u" rec NewDB]
    by (auto simp: File_New_def readURLsFromFile_def)
qed

text \<open>Libraries for the witness: the record of the batch is written as the letter p, and the url
  parser rejects its url, the empty one.\<close>

definition poison_record :: Record where
  "poison_record = mk_record ''0001'' \<lparr>Short = ''01'', Orig = [], UserID = ''u1'', TS = 0\<rparr>"

definition poison_libs :: libs where
  "poison_libs = sample_libs\<lparr>
     marshal := (\<lambda>r. Inr (if r = poison_record then [CHR ''p''] else ShortURL r)),
     unmarshal := (\<lambda>d. if d = [CHR ''p''] then Inr (Some poison_record) else Inr (Some (sample_record d)))\<rparr>"

theorem batch_blocks_restart_witness:
  "\<exists>res s' r'. ShortenBatch file_storage sample_service owner_user [\<lparr>BID = ''1'', BURL = []\<rparr>]
      (sample_file True) sample_rnd = ((res, None), s', r') \<and>
    (\<exists>e. File_New poison_libs (\<lambda>_. Inr ''0001'')
      (Inr \<lparr>r_data = fcontent (persist_stop poison_libs sample_disk s'), r_err = Sentinel IoEOF\<rparr>) = Ret (Inl e))"
proof -
  let ?r = "ShortenBatch file_storage sample_service owner_user [\<lparr>BID = ''1'', BURL = []\<rparr>]
      (sample_file True) sample_rnd"
  let ?res = "[\<lparr>SID = ''1'', SShort = ''http://h/01''\<rparr>]"
  have "fst ?r = (?res, None)" by code_simp
  then have r: "?r = ((?res, None), fst (snd ?r), snd (snd ?r))" by (metis prod.collapse)
  have db: "DB (mem (fst (snd ?r))) = [(''ab'', sample_record ''ab''), (''01'', poison_record)]" by code_simp
  have p: "urlParse poison_libs [] = Inl (Errmsg ''empty url'')"
    by (simp add: poison_libs_def sample_libs_def)
  have bad: "json_ok poison_libs poison_record"
    "record_check poison_libs poison_record = Some (Wrap (''malformed url for '' @ ''0001'') (Errmsg ''empty url''))"
    by (simp_all add: json_ok_def record_check_def poison_libs_def sample_libs_def)
      (simp_all add: poison_record_def mk_record_def)
  have "sample_record ''ab'' \<noteq> poison_record" by code_simp
  then have good: "json_ok poison_libs (sample_record ''ab'')" "record_check poison_libs (sample_record ''ab'') = None"
    using sample_record_ok [of "''ab''"]
    by (simp_all add: json_ok_def record_check_def poison_libs_def sample_libs_def)
      (simp_all add: sample_record_def)
  have "\<exists>e. File_New poison_libs (\<lambda>_. Inr ''0001'') (Inr \<lparr>r_data = fcontent (persist_stop poison_libs sample_disk (fst (snd ?r))),
      r_err = Sentinel IoEOF\<rparr>) = Ret (Inl e)"
    by (rule batch_blocks_restart [OF _ _ _ r p])
      (simp_all add: file_ok_def sample_file_ok db bad good, simp add: sample_file_def)
  with r show ?thesis by blast
qed

end
