(* ===== verification/Auth.thy ===== *)
theory Auth
  imports Model
begin

text \<open>
  \<open>internal/auth/auth.go\<close>: users from signed tokens. The jwt package is a parameter; times
  are in nanoseconds, the expiration claim in seconds.
\<close>

section \<open>The library\<close>

record Claims =
  ExpiresAt :: "int option"
  cUserID :: string

text \<open>A parsed token: whether it is valid, and its claims if they have the expected type.\<close>

record jtoken =
  tok_valid :: bool
  tok_claims :: "Claims option"

datatype sigmethod = HMAC string | OtherMethod string

text \<open>
  \<open>jwtSign\<close> is \<open>NewWithClaims\<close> with HS256 and \<open>SignedString\<close>; \<open>jwtParse\<close> is
  \<open>ParseWithClaims\<close> at a time, with the key function; \<open>jwtSigned m k tok c\<close> says that \<open>tok\<close>
  carries the claims \<open>c\<close> with a signature of method \<open>m\<close> under the key \<open>k\<close>.
\<close>

record jwtlib =
  jwtSign :: "string \<Rightarrow> Claims \<Rightarrow> gerr + string"
  jwtParse :: "int \<Rightarrow> string \<Rightarrow> (sigmethod \<Rightarrow> gerr + string) \<Rightarrow> gerr + jtoken"
  jwtSigned :: "sigmethod \<Rightarrow> string \<Rightarrow> string \<Rightarrow> Claims \<Rightarrow> bool"

text \<open>
  What the package documents: signing produces a signed token; parsing accepts only a token
  whose signature verifies under the key the key function gives for its method; and it does
  accept such a token before it expires.
\<close>

definition jwt_ok :: "jwtlib \<Rightarrow> bool" where
  "jwt_ok L \<longleftrightarrow>
     (\<forall>k c tok. jwtSign L k c = Inr tok \<longrightarrow> jwtSigned L (HMAC ''HS256'') k tok c) \<and>
     (\<forall>now tok kf t. jwtParse L now tok kf = Inr t \<longrightarrow> tok_valid t \<longrightarrow>
        (\<exists>m k c. kf m = Inr k \<and> jwtSigned L m k tok c \<and> tok_claims t = Some c)) \<and>
     (\<forall>now tok kf m k c e. jwtSigned L m k tok c \<longrightarrow> kf m = Inr k \<longrightarrow> ExpiresAt c = Some e \<longrightarrow>
        now < e * 1000000000 \<longrightarrow> jwtParse L now tok kf = Inr \<lparr>tok_valid = True, tok_claims = Some c\<rparr>)"

section \<open>auth.go\<close>

record Auth =
  jwtSecret :: string

definition auth_New :: "string \<Rightarrow> Auth" where
  "auth_New secret = \<lparr>jwtSecret = secret\<rparr>"

text \<open>24 hours.\<close>

definition defaultJWTCookieExpiration :: int where
  "defaultJWTCookieExpiration = 86400000000000"

definition jwt_key :: "Auth \<Rightarrow> sigmethod \<Rightarrow> gerr + string" where
  "jwt_key a m = (case m of
     HMAC _ \<Rightarrow> Inr (jwtSecret a)
   | OtherMethod alg \<Rightarrow> Inl (Errmsg (''unexpected signing method: '' @ alg)))"

definition getUserFromJWT :: "jwtlib \<Rightarrow> Auth \<Rightarrow> int \<Rightarrow> string \<Rightarrow> gerr + user" where
  "getUserFromJWT L a now signedToken = (case jwtParse L now signedToken (jwt_key a) of
     Inl e \<Rightarrow> Inl (Wrap ''cannot parse token from session cookie'' e)
   | Inr token \<Rightarrow>
       if \<not> tok_valid token then Inl (Errmsg ''token is not valid'')
       else (case tok_claims token of
           None \<Rightarrow> Inl (Errmsg ''token does not have claims'')
         | Some claims \<Rightarrow> (case ExpiresAt claims of
             None \<Rightarrow> Inl (Errmsg ''expiration claim is missing'')
           | Some e \<Rightarrow>
               if e * 1000000000 < now then Inl (Errmsg ''token expired'')
               else if cUserID claims = [] then Inl (Errmsg ''user id is empty'')
               else Inr (NewWithID (cUserID claims)))))"

text \<open>\<open>NewNumericDate\<close> truncates to seconds.\<close>

definition newToken :: "jwtlib \<Rightarrow> Auth \<Rightarrow> int \<Rightarrow> user \<Rightarrow> gerr + string" where
  "newToken L a now u =
     (case jwtSign L (jwtSecret a)
        \<lparr>ExpiresAt = Some ((now + defaultJWTCookieExpiration) div 1000000000), cUserID = ID u\<rparr> of
        Inl e \<Rightarrow> Inl (Wrap ''cannot sign jwt token'' e)
      | Inr signedToken \<Rightarrow> Inr signedToken)"

definition createJWT :: "jwtlib \<Rightarrow> Auth \<Rightarrow> int \<Rightarrow> user \<Rightarrow> gerr + string" where
  "createJWT L a now u = (case newToken L a now u of
     Inl e \<Rightarrow> Inl (Wrap ''cannot create auth token'' e)
   | Inr token \<Rightarrow> Inr token)"

definition CreateUserAndToken ::
  "jwtlib \<Rightarrow> Auth \<Rightarrow> int \<Rightarrow> (gerr + nat list) src \<Rightarrow> (gerr + user \<times> string) \<times> (gerr + nat list) src" where
  "CreateUserAndToken L a now g = (case user_New g of
     ((None, Some e), g') \<Rightarrow> (Inl (Wrap ''cannot create new user'' e), g')
   | ((None, None), g') \<Rightarrow> (Inl (Errmsg ''nil user''), g')
   | ((Some u, _), g') \<Rightarrow> (case createJWT L a now u of
       Inl e \<Rightarrow> (Inl (Wrap ''cannot create session cookie for user'' e), g')
     | Inr sessionCookie \<Rightarrow> (Inr (u, sessionCookie), g')))"

definition CreateOrParseUserFromJWTString ::
  "jwtlib \<Rightarrow> Auth \<Rightarrow> int \<Rightarrow> string \<Rightarrow> (gerr + nat list) src \<Rightarrow> (gerr + user \<times> string) \<times> (gerr + nat list) src" where
  "CreateOrParseUserFromJWTString L a now usr g = (case getUserFromJWT L a now usr of
     Inr u \<Rightarrow> (Inr (u, []), g)
   | Inl _ \<Rightarrow> CreateUserAndToken L a now g)"

section \<open>Facts\<close>

lemma user_New_cases:
  "user_New g = ((ou, oe), g') \<Longrightarrow> (\<exists>bs. g 0 = Inr bs \<and> ou = Some \<lparr>ID = b64_encode bs, is_new = True\<rparr> \<and> oe = None) \<or>
     (ou = None \<and> oe \<noteq> None)"
  by (auto simp: user_New_def next_src_def split: sum.splits)

lemma CreateUserAndToken_ok:
  assumes "CreateUserAndToken L a now g = (Inr (u, tok), g')"
  shows "is_new u \<and> (\<exists>bs. g 0 = Inr bs \<and> ID u = b64_encode bs) \<and> jwtSign L (jwtSecret a)
    \<lparr>ExpiresAt = Some ((now + defaultJWTCookieExpiration) div 1000000000), cUserID = ID u\<rparr> = Inr tok"
proof -
  obtain ou oe g1 where u: "user_New g = ((ou, oe), g1)" by (metis surj_pair)
  from user_New_cases [OF u] show ?thesis
    using assms u by (auto simp: CreateUserAndToken_def createJWT_def newToken_def split: sum.splits)
qed

lemma getUserFromJWT_sound:
  assumes "jwt_ok L" and "getUserFromJWT L a now tok = Inr u"
  shows "\<exists>alg c e. jwtSigned L (HMAC alg) (jwtSecret a) tok c \<and> cUserID c = ID u \<and> ID u \<noteq> [] \<and>
    \<not> is_new u \<and> ExpiresAt c = Some e \<and> now \<le> e * 1000000000"
proof -
  obtain t where t: "jwtParse L now tok (jwt_key a) = Inr t" "tok_valid t"
      and c: "\<exists>c e. tok_claims t = Some c \<and> ExpiresAt c = Some e \<and> now \<le> e * 1000000000 \<and>
        cUserID c \<noteq> [] \<and> u = NewWithID (cUserID c)"
    using assms(2) by (auto simp: getUserFromJWT_def not_less split: sum.splits if_splits option.splits)
  from assms(1) t obtain m k c' where m: "jwt_key a m = Inr k" "jwtSigned L m k tok c'" "tok_claims t = Some c'"
    unfolding jwt_ok_def by blast
  then have "\<exists>alg. m = HMAC alg \<and> k = jwtSecret a" by (auto simp: jwt_key_def split: sigmethod.splits)
    with m c show ?thesis by (auto simp: NewWithID_def intro!: exI [of _ c'])
qed

lemma b64_encode_not_Nil: "bs \<noteq> [] \<Longrightarrow> b64_encode bs \<noteq> []"
  by (induction bs rule: b64_encode.induct) auto

section \<open>A sample library\<close>

definition sample_jwt :: jwtlib where
  "sample_jwt = \<lparr>
     jwtSign = (\<lambda>k c. if k = ''k'' \<and> ExpiresAt c = Some 86400 then Inr (CHR ''T'' # cUserID c)
       else Inl (Errmsg ''sample'')),
     jwtParse = (\<lambda>now tok kf. (case tok of [] \<Rightarrow> Inl (Errmsg ''malformed'')
       | x # uid \<Rightarrow> (if x = CHR ''T'' \<and> kf (HMAC ''HS256'') = Inr ''k'' \<and> now < 86400000000000
           then Inr \<lparr>tok_valid = True, tok_claims = Some \<lparr>ExpiresAt = Some 86400, cUserID = uid\<rparr>\<rparr>
           else Inl (Errmsg ''invalid'')))),
     jwtSigned = (\<lambda>m k tok c. m = HMAC ''HS256'' \<and> k = ''k'' \<and> ExpiresAt c = Some 86400 \<and>
       tok = CHR ''T'' # cUserID c)\<rparr>"

lemma sample_jwt_ok: "jwt_ok sample_jwt"
  unfolding jwt_ok_def
proof (intro conjI allI impI, goal_cases)
  case (1 k c tok)
  then show ?case by (auto simp: sample_jwt_def split: if_splits)
next
  case (2 now tok kf t)
  then show ?case by (auto simp: sample_jwt_def split: list.splits if_splits)
next
  case (3 now tok kf m k c e)
  then show ?case by (cases c) (auto simp: sample_jwt_def)
qed

section \<open>Properties\<close>

text \<open>C21. A session lasts: the token that \<open>CreateUserAndToken\<close> issues to a new user is accepted by
  the same authenticator until it expires, and gives back the same user id, no longer new, without
  a new token.\<close>

theorem auth_roundtrip:
  assumes "jwt_ok L" and "CreateUserAndToken L a now g = (Inr (u, tok), g1)" and "g 0 = Inr bs" and "bs \<noteq> []"
    and "later < (now + defaultJWTCookieExpiration) div 1000000000 * 1000000000"
  shows "CreateOrParseUserFromJWTString L a later tok g2 = (Inr (\<lparr>ID = ID u, is_new = False\<rparr>, []), g2)"
proof -
  let ?e = "(now + defaultJWTCookieExpiration) div 1000000000"
  let ?c = "\<lparr>ExpiresAt = Some ?e, cUserID = ID u\<rparr>"
  from CreateUserAndToken_ok [OF assms(2)] assms(3,4) have "jwtSign L (jwtSecret a) ?c = Inr tok" "ID u \<noteq> []"
    by (auto simp: b64_encode_not_Nil)
  with assms(1) have "jwtSigned L (HMAC ''HS256'') (jwtSecret a) tok ?c" unfolding jwt_ok_def by blast
  moreover have "jwt_key a (HMAC ''HS256'') = Inr (jwtSecret a)" by (simp add: jwt_key_def)
  moreover have "ExpiresAt ?c = Some ?e" by simp
  ultimately have "jwtParse L later tok (jwt_key a) = Inr \<lparr>tok_valid = True, tok_claims = Some ?c\<rparr>"
    using assms(1,5) unfolding jwt_ok_def by blast
  with assms(5) \<open>ID u \<noteq> []\<close> show ?thesis
    by (simp add: CreateOrParseUserFromJWTString_def getUserFromJWT_def NewWithID_def)
qed

theorem auth_roundtrip_witness:
  "\<exists>u tok g1. CreateUserAndToken sample_jwt (auth_New ''k'') 0 (\<lambda>_. Inr sample_uuid) = (Inr (u, tok), g1) \<and>
    CreateOrParseUserFromJWTString sample_jwt (auth_New ''k'') 1000 tok (\<lambda>_. Inr sample_uuid)
      = (Inr (\<lparr>ID = ID u, is_new = False\<rparr>, []), (\<lambda>_. Inr sample_uuid))"
proof -
  obtain u tok g1 where c: "CreateUserAndToken sample_jwt (auth_New ''k'') 0 (\<lambda>_. Inr sample_uuid) = (Inr (u, tok), g1)"
    by (simp add: CreateUserAndToken_def user_New_def next_src_def createJWT_def newToken_def sample_jwt_def
        auth_New_def defaultJWTCookieExpiration_def)
  have "CreateOrParseUserFromJWTString sample_jwt (auth_New ''k'') 1000 tok (\<lambda>_. Inr sample_uuid)
      = (Inr (\<lparr>ID = ID u, is_new = False\<rparr>, []), (\<lambda>_. Inr sample_uuid))"
    by (rule auth_roundtrip [OF sample_jwt_ok c, where bs = sample_uuid])
      (simp_all add: sample_uuid_def defaultJWTCookieExpiration_def)
  with c show ?thesis by blast
qed

text \<open>C20. Nobody gets an existing identity without the secret: whatever token a client presents, the
  user is either the one named by unexpired claims signed with an HMAC under the server's secret, or
  a new user with a token of its own for 24 hours.\<close>

theorem auth_authentic:
  assumes "jwt_ok L" and "CreateOrParseUserFromJWTString L a now usr g = (Inr (u, tok), g')"
  shows "(\<exists>alg c e. tok = [] \<and> \<not> is_new u \<and> jwtSigned L (HMAC alg) (jwtSecret a) usr c \<and>
      cUserID c = ID u \<and> ID u \<noteq> [] \<and> ExpiresAt c = Some e \<and> now \<le> e * 1000000000) \<or>
    (is_new u \<and> (\<exists>bs. g 0 = Inr bs \<and> ID u = b64_encode bs) \<and> jwtSigned L (HMAC ''HS256'') (jwtSecret a) tok
      \<lparr>ExpiresAt = Some ((now + defaultJWTCookieExpiration) div 1000000000), cUserID = ID u\<rparr>)"
proof (cases "getUserFromJWT L a now usr")
  case (Inr v)
  with assms(2) have "v = u" "tok = []" by (simp_all add: CreateOrParseUserFromJWTString_def)
  with getUserFromJWT_sound [OF assms(1) Inr] show ?thesis by blast
next
  case (Inl e)
  with assms(2) have "CreateUserAndToken L a now g = (Inr (u, tok), g')"
    by (simp add: CreateOrParseUserFromJWTString_def)
  from CreateUserAndToken_ok [OF this] assms(1) show ?thesis unfolding jwt_ok_def by blast
qed

theorem auth_authentic_witness:
  "\<exists>u tok g'. CreateOrParseUserFromJWTString sample_jwt (auth_New ''k'') 0 ''forged'' (\<lambda>_. Inr sample_uuid)
      = (Inr (u, tok), g') \<and> is_new u"
proof -
  obtain u tok g' where c: "CreateOrParseUserFromJWTString sample_jwt (auth_New ''k'') 0 ''forged'' (\<lambda>_. Inr sample_uuid)
      = (Inr (u, tok), g')"
    by (simp add: CreateOrParseUserFromJWTString_def getUserFromJWT_def CreateUserAndToken_def user_New_def
        next_src_def createJWT_def newToken_def sample_jwt_def auth_New_def defaultJWTCookieExpiration_def)
  from auth_authentic [OF sample_jwt_ok c] c show ?thesis by (auto simp: sample_jwt_def)
qed

end
