(* ===== verification/Netip.thy ===== *)
theory Netip
  imports Goerr "HOL-Library.Word"
begin

unbundle bit_operations_syntax

text \<open>
  What the filter uses of the standard package \<open>net/netip\<close>: addresses, prefixes, their
  parsers and \<open>Prefix.Contains\<close>. An IPv4 address is a 32-bit word, an IPv6 address a 128-bit
  word with a zone (empty for none).
\<close>

section \<open>Addresses and prefixes\<close>

datatype addr = Addr4 "32 word" | Addr6 "128 word" string

record prefix =
  pfx_addr :: addr
  pfx_bits :: nat

fun Is6 :: "addr \<Rightarrow> bool" where
  "Is6 (Addr4 w) = False"
| "Is6 (Addr6 w z) = True"

text \<open>An address with a zone is in no prefix, and the two families never match each other.\<close>

fun Contains :: "prefix \<Rightarrow> addr \<Rightarrow> bool" where
  "Contains p (Addr4 a) = (case pfx_addr p of
     Addr4 w \<Rightarrow> drop_bit (32 - pfx_bits p) (a XOR w) = 0
   | Addr6 w z \<Rightarrow> False)"
| "Contains p (Addr6 a zone) = (case pfx_addr p of
     Addr4 w \<Rightarrow> False
   | Addr6 w z \<Rightarrow> zone = [] \<and> drop_bit (128 - pfx_bits p) (a XOR w) = 0)"

section \<open>Digits\<close>

definition digit_value :: "char \<Rightarrow> int option" where
  "digit_value c = (let n = of_char c :: int in if 48 \<le> n \<and> n \<le> 57 then Some (n - 48) else None)"

definition hex_value :: "char \<Rightarrow> int option" where
  "hex_value c = (let n = of_char c :: int in
     if 48 \<le> n \<and> n \<le> 57 then Some (n - 48)
     else if 97 \<le> n \<and> n \<le> 102 then Some (n - 87)
     else if 65 \<le> n \<and> n \<le> 70 then Some (n - 55) else None)"

fun dec_loop :: "int \<Rightarrow> string \<Rightarrow> int option" where
  "dec_loop acc [] = Some acc"
| "dec_loop acc (c # cs) = (case digit_value c of None \<Rightarrow> None | Some d \<Rightarrow> dec_loop (acc * 10 + d) cs)"

text \<open>A number written in decimal digits only, at least one.\<close>

definition decimal :: "string \<Rightarrow> int option" where
  "decimal s = (if s = [] then None else dec_loop 0 s)"

text \<open>The parts before and after the last occurrence of a byte.\<close>

fun split_last :: "char \<Rightarrow> string \<Rightarrow> (string \<times> string) option" where
  "split_last c [] = None"
| "split_last c (x # xs) = (case split_last c xs of
     Some (a, b) \<Rightarrow> Some (x # a, b)
   | None \<Rightarrow> if x = c then Some ([], xs) else None)"

section \<open>Parsers\<close>

definition addr_error :: "string \<Rightarrow> gerr" where
  "addr_error msg = Errmsg (''ParseAddr: '' @ msg)"

text \<open>
  \<open>parseIPv4Fields\<close>: the previous byte, the value and the number of digits of the current
  octet, and the octets before it.
\<close>

fun ipv4_fields :: "char option \<Rightarrow> int \<Rightarrow> nat \<Rightarrow> int list \<Rightarrow> string \<Rightarrow> gerr + int list" where
  "ipv4_fields prev val digLen octs [] =
     (if length octs < 3 then Inl (addr_error ''IPv4 address too short'') else Inr (octs @ [val]))"
| "ipv4_fields prev val digLen octs (c # cs) = (case digit_value c of
     Some d \<Rightarrow>
       (if digLen = 1 \<and> val = 0 then Inl (addr_error ''IPv4 field has octet with leading zero'')
        else if 255 < val * 10 + d then Inl (addr_error ''IPv4 field has value >255'')
        else ipv4_fields (Some c) (val * 10 + d) (digLen + 1) octs cs)
   | None \<Rightarrow>
       (if c = CHR ''.'' then
          (if prev = None \<or> cs = [] \<or> prev = Some (CHR ''.'')
           then Inl (addr_error ''IPv4 field must have at least one digit'')
           else if length octs = 3 then Inl (addr_error ''IPv4 address too long'')
           else ipv4_fields (Some c) 0 0 (octs @ [val]) cs)
        else Inl (addr_error ''unexpected character'')))"

definition word_of_bytes :: "int list \<Rightarrow> 'a :: len word" where
  "word_of_bytes bs = of_int (foldl (\<lambda>acc b. acc * 256 + b) 0 bs)"

definition parseIPv4 :: "string \<Rightarrow> gerr + addr" where
  "parseIPv4 s = (case ipv4_fields None 0 0 [] s of
     Inl e \<Rightarrow> Inl e | Inr bs \<Rightarrow> Inr (Addr4 (word_of_bytes bs)))"

text \<open>A group of hexadecimal digits: how many, their value, and what follows.\<close>

fun hex_group :: "nat \<Rightarrow> int \<Rightarrow> string \<Rightarrow> gerr + nat \<times> int \<times> string" where
  "hex_group off acc [] = Inr (off, acc, [])"
| "hex_group off acc (c # cs) = (case hex_value c of
     None \<Rightarrow> Inr (off, acc, c # cs)
   | Some d \<Rightarrow>
       (if 3 < off then Inl (addr_error ''each group must have 4 or less digits'')
        else hex_group (off + 1) (acc * 16 + d) cs))"

text \<open>
  The loop of \<open>parseIPv6\<close>, at most eight groups: the bytes read, the position of the
  ellipsis, and what is left of the text.
\<close>

fun ipv6_loop :: "nat \<Rightarrow> int list \<Rightarrow> nat option \<Rightarrow> string \<Rightarrow> gerr + int list \<times> nat option \<times> string" where
  "ipv6_loop 0 ip ellipsis s = Inr (ip, ellipsis, s)"
| "ipv6_loop (Suc n) ip ellipsis s = (case hex_group 0 0 s of
     Inl e \<Rightarrow> Inl e
   | Inr (off, acc, rest) \<Rightarrow>
     if off = 0 then Inl (addr_error ''each colon-separated field must have at least one digit'')
     else (case rest of
        [] \<Rightarrow> Inr (ip @ [acc div 256, acc mod 256], ellipsis, [])
      | c # cs \<Rightarrow>
        if c = CHR ''.'' then
          (if ellipsis = None \<and> length ip \<noteq> 12
           then Inl (addr_error ''embedded IPv4 address must replace the final 2 octs of the address'')
           else if 16 < length ip + 4
           then Inl (addr_error ''too many hex octs to fit an embedded IPv4 at the end of the address'')
           else (case ipv4_fields None 0 0 [] s of
               Inl e \<Rightarrow> Inl e
             | Inr bs \<Rightarrow> Inr (ip @ bs, ellipsis, [])))
        else if c \<noteq> CHR '':'' then Inl (addr_error ''unexpected character, want colon'')
        else (let ip' = ip @ [acc div 256, acc mod 256] in case cs of
            [] \<Rightarrow> Inl (addr_error ''colon must be followed by more characters'')
          | d # ds \<Rightarrow>
            if d = CHR '':'' then
              (if ellipsis \<noteq> None then Inl (addr_error ''multiple :: in address'')
               else if ds = [] then Inr (ip', Some (length ip'), [])
               else ipv6_loop n ip' (Some (length ip')) ds)
            else ipv6_loop n ip' ellipsis cs)))"

definition ipv6_finish :: "string \<Rightarrow> int list \<Rightarrow> nat option \<Rightarrow> string \<Rightarrow> gerr + addr" where
  "ipv6_finish zone ip ellipsis s =
     (if s \<noteq> [] then Inl (addr_error ''trailing garbage after address'')
      else if length ip < 16 then (case ellipsis of
          None \<Rightarrow> Inl (addr_error ''address string too short'')
        | Some i \<Rightarrow> Inr (Addr6 (word_of_bytes
            (take i ip @ replicate (16 - length ip) 0 @ drop i ip)) zone))
      else if ellipsis \<noteq> None
      then Inl (addr_error ''the :: must expand to at least one field of zeros'')
      else Inr (Addr6 (word_of_bytes ip) zone))"

definition parseIPv6_body :: "string \<Rightarrow> string \<Rightarrow> gerr + addr" where
  "parseIPv6_body s zone =
     (if is_prefix ''::'' s \<and> drop 2 s = [] then Inr (Addr6 0 zone)
      else (case (if is_prefix ''::'' s then ipv6_loop 8 [] (Some 0) (drop 2 s) else ipv6_loop 8 [] None s) of
          Inl e \<Rightarrow> Inl e
        | Inr (ip, ellipsis, rest) \<Rightarrow> ipv6_finish zone ip ellipsis rest))"

definition parseIPv6 :: "string \<Rightarrow> gerr + addr" where
  "parseIPv6 s = (case dropWhile (\<lambda>c. c \<noteq> CHR ''%'') s of
     [] \<Rightarrow> parseIPv6_body s []
   | _ # zone \<Rightarrow> if zone = [] then Inl (addr_error ''zone must be a non-empty string'')
       else parseIPv6_body (takeWhile (\<lambda>c. c \<noteq> CHR ''%'') s) zone)"

fun family_loop :: "string \<Rightarrow> string \<Rightarrow> gerr + addr" where
  "family_loop s [] = Inl (addr_error ''unable to parse IP'')"
| "family_loop s (c # cs) =
     (if c = CHR ''.'' then parseIPv4 s
      else if c = CHR '':'' then parseIPv6 s
      else if c = CHR ''%'' then Inl (addr_error ''missing IPv6 address'')
      else family_loop s cs)"

definition ParseAddr :: "string \<Rightarrow> gerr + addr" where
  "ParseAddr s = family_loop s s"

fun zone_of :: "addr \<Rightarrow> string" where
  "zone_of (Addr4 w) = []"
| "zone_of (Addr6 w z) = z"

definition ParsePrefix :: "string \<Rightarrow> gerr + prefix" where
  "ParsePrefix s = (case split_last (CHR ''/'') s of
     None \<Rightarrow> Inl (Errmsg ''ParsePrefix: no /'')
   | Some (ips, bits) \<Rightarrow> (case ParseAddr ips of
       Inl e \<Rightarrow> Inl (Errmsg ''ParsePrefix: bad address'')
     | Inr ip \<Rightarrow>
         if zone_of ip \<noteq> [] then Inl (Errmsg ''ParsePrefix: IPv6 zones cannot be present in a prefix'')
         else if 1 < length bits \<and> (hd bits = CHR ''0'' \<or> digit_value (hd bits) = None)
         then Inl (Errmsg ''ParsePrefix: bad bits after slash'')
         else (case decimal bits of
             None \<Rightarrow> Inl (Errmsg ''ParsePrefix: bad bits after slash'')
           | Some b \<Rightarrow>
               if (if Is6 ip then 128 else 32) < b
               then Inl (Errmsg ''ParsePrefix: prefix length out of range'')
               else Inr \<lparr>pfx_addr = ip, pfx_bits = nat b\<rparr>)))"

text \<open>\<open>ParseAddrPort\<close>, of which the code uses the address.\<close>

definition port_ok :: "string \<Rightarrow> bool" where
  "port_ok p = (case decimal p of None \<Rightarrow> False | Some n \<Rightarrow> n \<le> 65535)"

definition ParseAddrPort :: "string \<Rightarrow> gerr + addr" where
  "ParseAddrPort s = (case split_last (CHR '':'') s of
     None \<Rightarrow> Inl (Errmsg ''not an ip:port'')
   | Some (ip, port) \<Rightarrow>
       if ip = [] then Inl (Errmsg ''no IP'')
       else if port = [] then Inl (Errmsg ''no port'')
       else (let v6 = hd ip = CHR ''['' in
         if v6 \<and> (length ip < 2 \<or> last ip \<noteq> CHR '']'') then Inl (Errmsg ''missing ]'')
         else if \<not> port_ok port then Inl (Errmsg ''invalid port'')
         else (case ParseAddr (if v6 then butlast (tl ip) else ip) of
             Inl e \<Rightarrow> Inl e
           | Inr a \<Rightarrow>
               if v6 \<and> \<not> Is6 a then Inl (Errmsg ''square brackets can only be used with IPv6 addresses'')
               else if \<not> v6 \<and> Is6 a then Inl (Errmsg ''IPv6 addresses must be surrounded by square brackets'')
               else Inr a)))"

section \<open>Facts\<close>

lemma drop_bit_zero_iff:
  fixes w :: "'a :: len word"
  shows "drop_bit n w = 0 \<longleftrightarrow> (\<forall>i. n \<le> i \<longrightarrow> i < LENGTH('a) \<longrightarrow> \<not> bit w i)"
proof
  assume z: "drop_bit n w = 0"
  show "\<forall>i. n \<le> i \<longrightarrow> i < LENGTH('a) \<longrightarrow> \<not> bit w i"
  proof (intro allI impI)
    fix i assume "n \<le> i" "i < LENGTH('a)"
    have "bit (drop_bit n w) (i - n) = bit w i" using \<open>n \<le> i\<close> by (simp add: bit_simps)
    with z show "\<not> bit w i" by simp
  qed
next
  assume z: "\<forall>i. n \<le> i \<longrightarrow> i < LENGTH('a) \<longrightarrow> \<not> bit w i"
  show "drop_bit n w = 0"
  proof (rule bit_word_eqI)
    fix i assume "i < LENGTH('a)"
    show "bit (drop_bit n w) i = bit (0 :: 'a word) i"
      using z [rule_format, of "n + i"] by (auto simp: bit_simps dest: bit_imp_le_length)
  qed
qed

lemma drop_xor_zero_iff:
  fixes a w :: "'a :: len word"
  shows "drop_bit n (a XOR w) = 0 \<longleftrightarrow> (\<forall>i. n \<le> i \<longrightarrow> i < LENGTH('a) \<longrightarrow> bit a i = bit w i)"
  unfolding drop_bit_zero_iff bit_xor_iff by blast

text \<open>A prefix contains exactly the addresses of its family that agree with it on its first bits.\<close>

lemma Contains_bits:
  "Contains \<lparr>pfx_addr = Addr4 w, pfx_bits = n\<rparr> (Addr4 a) \<longleftrightarrow>
     (\<forall>i. 32 - n \<le> i \<longrightarrow> i < 32 \<longrightarrow> bit a i = bit w i)"
  "Contains \<lparr>pfx_addr = Addr6 w6 z, pfx_bits = n\<rparr> (Addr6 a6 zone) \<longleftrightarrow> zone = [] \<and>
     (\<forall>i. 128 - n \<le> i \<longrightarrow> i < 128 \<longrightarrow> bit a6 i = bit w6 i)"
  by (simp_all add: drop_xor_zero_iff del: drop_bit_xor)

lemma Contains_family: "Contains p a \<Longrightarrow> Is6 (pfx_addr p) = Is6 a"
  by (cases a) (auto split: addr.splits)

end
