(* ===== verification/IPFilter.thy ===== *)
theory IPFilter
  imports Netip
begin

text \<open>
  \<open>internal/filter/filter.go\<close>: matching of request addresses against trusted subnets. The
  logger is left out.
\<close>

section \<open>filter.go\<close>

record Filter =
  subnets :: "prefix list"
  trustXFF :: bool
  trustXRealIP :: bool

record FilterConfig =
  fc_Subnets :: string
  fc_TrustXFF :: bool
  fc_TrustXRealIP :: bool

fun parse_entities :: "(string \<Rightarrow> gerr + 'a) \<Rightarrow> string list \<Rightarrow> gerr + 'a list" where
  "parse_entities parse [] = Inr []"
| "parse_entities parse (s # ss) = (case parse (TrimLeft s (CHR '' '')) of
     Inl e \<Rightarrow> Inl (Wrap ''cannot parse entity'' e)
   | Inr x \<Rightarrow> (case parse_entities parse ss of Inl e \<Rightarrow> Inl e | Inr xs \<Rightarrow> Inr (x # xs)))"

definition parseSliceFromString :: "string \<Rightarrow> (string \<Rightarrow> gerr + 'a) \<Rightarrow> gerr + 'a list" where
  "parseSliceFromString s parse =
     (if s = [] then Inr [] else parse_entities parse (Split s (CHR '','')))"

definition filter_New :: "FilterConfig \<Rightarrow> gerr + Filter" where
  "filter_New cfg = (case parseSliceFromString (fc_Subnets cfg) ParsePrefix of
     Inl e \<Rightarrow> Inl e
   | Inr prefixes \<Rightarrow> Inr \<lparr>subnets = prefixes, trustXFF = fc_TrustXFF cfg,
       trustXRealIP = fc_TrustXRealIP cfg\<rparr>)"

definition Subnets :: "Filter \<Rightarrow> prefix list" where
  "Subnets f = subnets f"

fun contains_loop :: "prefix list \<Rightarrow> addr \<Rightarrow> bool" where
  "contains_loop [] a = False"
| "contains_loop (p # ps) a = (if Contains p a then True else contains_loop ps a)"

definition checkIP :: "Filter \<Rightarrow> string \<Rightarrow> gerr + bool" where
  "checkIP f ip =
     (if ip = [] then Inr False
      else (case ParseAddr ip of
          Inl e \<Rightarrow> Inl (Wrap ''cannot parse ip address string'' e)
        | Inr a \<Rightarrow> Inr (contains_loop (subnets f) a)))"

definition checkIPPort :: "Filter \<Rightarrow> string \<Rightarrow> gerr + bool" where
  "checkIPPort f ip =
     (if ip = [] then Inr False
      else (case ParseAddrPort ip of
          Inl e \<Rightarrow> Inl (Wrap ''cannot parse ip:port address string'' e)
        | Inr a \<Rightarrow> Inr (contains_loop (subnets f) a)))"

definition CheckIPPort :: "Filter \<Rightarrow> string \<Rightarrow> bool" where
  "CheckIPPort f ipPort = (case checkIPPort f ipPort of Inl e \<Rightarrow> False | Inr ok \<Rightarrow> ok)"

definition CheckIP :: "Filter \<Rightarrow> string \<Rightarrow> bool" where
  "CheckIP f ip = (case checkIP f ip of Inl e \<Rightarrow> False | Inr callNext \<Rightarrow> callNext)"

fun list_loop :: "prefix list \<Rightarrow> addr list \<Rightarrow> bool" where
  "list_loop ps [] = True"
| "list_loop ps (a # as) = (if contains_loop ps a then list_loop ps as else False)"

definition CheckIPList :: "Filter \<Rightarrow> string \<Rightarrow> bool" where
  "CheckIPList f ipList = (case parseSliceFromString ipList ParseAddr of
     Inl e \<Rightarrow> False
   | Inr addrs \<Rightarrow> if addrs = [] then False else list_loop (subnets f) addrs)"

definition CheckRequestParams :: "Filter \<Rightarrow> string \<Rightarrow> string \<Rightarrow> string \<Rightarrow> bool" where
  "CheckRequestParams f remoteAddr xRealIP xForwardedFor =
     (if CheckIPPort f remoteAddr then True
      else if trustXRealIP f \<and> CheckIP f xRealIP then True
      else if trustXFF f \<and> CheckIPList f xForwardedFor then True
      else False)"

section \<open>Facts\<close>

definition trusted :: "Filter \<Rightarrow> addr \<Rightarrow> bool" where
  "trusted f a \<longleftrightarrow> (\<exists>p \<in> set (subnets f). Contains p a)"

lemma contains_loop_iff: "contains_loop ps a \<longleftrightarrow> (\<exists>p \<in> set ps. Contains p a)"
  by (induction ps) auto

lemma list_loop_iff: "list_loop ps as \<longleftrightarrow> (\<forall>a \<in> set as. contains_loop ps a)"
  by (induction as) auto

text \<open>The addresses of a comma separated list, if every entry parses.\<close>

definition entry_addr :: "string \<Rightarrow> gerr + addr" where
  "entry_addr s = ParseAddr (TrimLeft s (CHR '' ''))"

lemma parse_entities_Inr:
  "parse_entities parse ss = Inr xs \<longleftrightarrow> list_all2 (\<lambda>s x. parse (TrimLeft s (CHR '' '')) = Inr x) ss xs"
proof (induction ss arbitrary: xs)
  case Nil
  then show ?case by auto
next
  case (Cons s ss)
  show ?case
  proof (cases "parse (TrimLeft s (CHR '' ''))")
    case (Inl e)
    then show ?thesis by (auto simp: list_all2_Cons1)
  next
    case (Inr x)
    show ?thesis
    proof (cases "parse_entities parse ss")
      case (Inl e)
      then have "\<not> list_all2 (\<lambda>s x. parse (TrimLeft s (CHR '' '')) = Inr x) ss ys" for ys
        using Cons.IH [of ys] by simp
      then show ?thesis using Inr Inl by (auto simp: list_all2_Cons1)
    next
      case r: (Inr ys)
      then have "list_all2 (\<lambda>s x. parse (TrimLeft s (CHR '' '')) = Inr x) ss zs \<longleftrightarrow> zs = ys" for zs
        using Cons.IH [of zs] by auto
      then show ?thesis using Inr r by (auto simp: list_all2_Cons1)
    qed
  qed
qed

lemma CheckIPList_iff: "CheckIPList f l \<longleftrightarrow> l \<noteq> [] \<and>
   (\<forall>s \<in> set (Split l (CHR '','')). \<exists>a. entry_addr s = Inr a \<and> trusted f a)"
proof (cases "l = []")
  case True
  then show ?thesis by (simp add: CheckIPList_def parseSliceFromString_def)
next
  case False
  let ?ss = "Split l (CHR '','')"
  show ?thesis
  proof (cases "parse_entities ParseAddr ?ss")
    case (Inl e)
    have "\<not> (\<forall>s \<in> set ?ss. \<exists>a. entry_addr s = Inr a)"
    proof
      assume "\<forall>s \<in> set ?ss. \<exists>a. entry_addr s = Inr a"
      then obtain h where "\<forall>s \<in> set ?ss. entry_addr s = Inr (h s)" by metis
      then have "list_all2 (\<lambda>s x. ParseAddr (TrimLeft s (CHR '' '')) = Inr x) ?ss (map h ?ss)"
        by (simp add: list_all2_map2 entry_addr_def list_all2_same)
      with Inl show False using parse_entities_Inr [of ParseAddr ?ss "map h ?ss"] by simp
    qed
    then show ?thesis using Inl False by (auto simp: CheckIPList_def parseSliceFromString_def)
  next
    case (Inr xs)
    then have l: "list_all2 (\<lambda>s x. entry_addr s = Inr x) ?ss xs"
      using parse_entities_Inr [of ParseAddr ?ss xs] by (simp add: entry_addr_def)
    then have "xs \<noteq> []" by auto
    moreover have "(\<forall>a \<in> set xs. trusted f a) \<longleftrightarrow> (\<forall>s \<in> set ?ss. \<exists>a. entry_addr s = Inr a \<and> trusted f a)"
      using l by (induction rule: list_all2_induct) auto
    ultimately show ?thesis using Inr False
      by (simp add: CheckIPList_def parseSliceFromString_def list_loop_iff contains_loop_iff trusted_def)
  qed
qed

lemma CheckIPPort_iff: "CheckIPPort f s \<longleftrightarrow> (\<exists>a. ParseAddrPort s = Inr a \<and> trusted f a)"
proof (cases "s = []")
  case True
  then show ?thesis by (simp add: CheckIPPort_def checkIPPort_def ParseAddrPort_def)
next
  case False
  then show ?thesis
    by (cases "ParseAddrPort s") (auto simp: CheckIPPort_def checkIPPort_def contains_loop_iff trusted_def)
qed

lemma CheckIP_iff: "CheckIP f s \<longleftrightarrow> (\<exists>a. ParseAddr s = Inr a \<and> trusted f a)"
proof (cases "s = []")
  case True
  then show ?thesis by (simp add: CheckIP_def checkIP_def ParseAddr_def)
next
  case False
  then show ?thesis
    by (cases "ParseAddr s") (auto simp: CheckIP_def checkIP_def contains_loop_iff trusted_def)
qed

lemma ParsePrefix_bounds:
  assumes "ParsePrefix s = Inr p"
  shows "pfx_bits p \<le> (if Is6 (pfx_addr p) then 128 else 32)" "zone_of (pfx_addr p) = []"
proof -
  from assms obtain ip b where p: "p = \<lparr>pfx_addr = ip, pfx_bits = nat b\<rparr>" "zone_of ip = []"
      "\<not> (if Is6 ip then 128 else 32) < b"
    by (auto simp: ParsePrefix_def split: option.splits sum.splits if_splits)
  then show "pfx_bits p \<le> (if Is6 (pfx_addr p) then 128 else 32)" "zone_of (pfx_addr p) = []"
    by (auto split: if_splits)
qed

lemma parse_entities_fails:
  "\<forall>r \<in> set rs. \<exists>x. parse (TrimLeft r (CHR '' '')) = Inr x \<Longrightarrow> parse (TrimLeft s (CHR '' '')) = Inl d \<Longrightarrow>
     parse_entities parse (rs @ s # ts) = Inl (Wrap ''cannot parse entity'' d)"
  by (induction rs) auto

lemma parse_entities_first:
  "parse_entities parse ss = Inl e \<Longrightarrow> \<exists>rs s ts d. ss = rs @ s # ts \<and>
     (\<forall>r \<in> set rs. \<exists>x. parse (TrimLeft r (CHR '' '')) = Inr x) \<and>
     parse (TrimLeft s (CHR '' '')) = Inl d \<and> e = Wrap ''cannot parse entity'' d"
proof (induction ss)
  case (Cons s ss)
  show ?case
  proof (cases "parse (TrimLeft s (CHR '' ''))")
    case (Inl d)
    with Cons.prems have "s # ss = [] @ s # ss \<and> e = Wrap ''cannot parse entity'' d" by simp
    with Inl show ?thesis by fastforce
  next
    case (Inr x)
    with Cons.prems have "parse_entities parse ss = Inl e" by (auto split: sum.splits)
    from Cons.IH [OF this] obtain rs t ts d where "ss = rs @ t # ts"
        "\<forall>r \<in> set rs. \<exists>x. parse (TrimLeft r (CHR '' '')) = Inr x"
        "parse (TrimLeft t (CHR '' '')) = Inl d" "e = Wrap ''cannot parse entity'' d" by blast
    with Inr have "s # ss = (s # rs) @ t # ts" "\<forall>r \<in> set (s # rs). \<exists>x. parse (TrimLeft r (CHR '' '')) = Inr x" by simp_all
    with \<open>parse (TrimLeft t (CHR '' '')) = Inl d\<close> \<open>e = _\<close> show ?thesis by blast
  qed
qed simp

lemma parse_entities_Inl:
  "parse_entities parse ss = Inl e \<longleftrightarrow> (\<exists>rs s ts d. ss = rs @ s # ts \<and>
     (\<forall>r \<in> set rs. \<exists>x. parse (TrimLeft r (CHR '' '')) = Inr x) \<and>
     parse (TrimLeft s (CHR '' '')) = Inl d \<and> e = Wrap ''cannot parse entity'' d)"
  using parse_entities_first [of parse ss e] parse_entities_fails [where parse = parse] by blast

text \<open>The comma separated entries of the configuration, none for the empty string.\<close>

definition subnet_entries :: "FilterConfig \<Rightarrow> string list" where
  "subnet_entries cfg = (if fc_Subnets cfg = [] then [] else Split (fc_Subnets cfg) (CHR '',''))"

lemma filter_New_entries:
  "filter_New cfg = (case parse_entities ParsePrefix (subnet_entries cfg) of
     Inl e \<Rightarrow> Inl e
   | Inr prefixes \<Rightarrow> Inr \<lparr>subnets = prefixes, trustXFF = fc_TrustXFF cfg, trustXRealIP = fc_TrustXRealIP cfg\<rparr>)"
  by (simp add: filter_New_def parseSliceFromString_def subnet_entries_def)

lemma filter_New_Inl: "filter_New cfg = Inl e \<longleftrightarrow> parse_entities ParsePrefix (subnet_entries cfg) = Inl e"
  by (simp add: filter_New_entries split: sum.splits)

lemma filter_New_Inr:
  "filter_New cfg = Inr f \<longleftrightarrow> trustXFF f = fc_TrustXFF cfg \<and> trustXRealIP f = fc_TrustXRealIP cfg \<and>
     list_all2 (\<lambda>s p. ParsePrefix (TrimLeft s (CHR '' '')) = Inr p) (subnet_entries cfg) (Subnets f)"
proof (cases "parse_entities ParsePrefix (subnet_entries cfg)")
  case (Inl e)
  then show ?thesis
    using parse_entities_Inr [of ParsePrefix "subnet_entries cfg"] by (simp add: filter_New_entries)
next
  case (Inr xs)
  have "f = \<lparr>subnets = xs, trustXFF = fc_TrustXFF cfg, trustXRealIP = fc_TrustXRealIP cfg\<rparr> \<longleftrightarrow>
      trustXFF f = fc_TrustXFF cfg \<and> trustXRealIP f = fc_TrustXRealIP cfg \<and> subnets f = xs"
    by (cases f) auto
  moreover have "list_all2 (\<lambda>s p. ParsePrefix (TrimLeft s (CHR '' '')) = Inr p) (subnet_entries cfg) (Subnets f) \<longleftrightarrow>
      subnets f = xs"
    using parse_entities_Inr [of ParsePrefix "subnet_entries cfg" "Subnets f"] Inr by (auto simp: Subnets_def)
  moreover have "filter_New cfg = Inr f \<longleftrightarrow>
      f = \<lparr>subnets = xs, trustXFF = fc_TrustXFF cfg, trustXRealIP = fc_TrustXRealIP cfg\<rparr>"
    using Inr by (auto simp: filter_New_entries)
  ultimately show ?thesis by blast
qed

section \<open>Properties\<close>

text \<open>C23. The request filter lets a request through exactly when its socket address parses and lies in
  a trusted subnet, or \<open>X-Real-IP\<close> is trusted and names such an address, or \<open>X-Forwarded-For\<close> is
  trusted, not empty, and every entry of it parses and names such an address.\<close>

theorem filter_spec:
  "CheckRequestParams f remoteAddr xRealIP xForwardedFor \<longleftrightarrow>
    (\<exists>a. ParseAddrPort remoteAddr = Inr a \<and> trusted f a) \<or>
    (trustXRealIP f \<and> (\<exists>a. ParseAddr xRealIP = Inr a \<and> trusted f a)) \<or>
    (trustXFF f \<and> xForwardedFor \<noteq> [] \<and>
      (\<forall>s \<in> set (Split xForwardedFor (CHR '','')). \<exists>a. entry_addr s = Inr a \<and> trusted f a))"
  by (simp add: CheckRequestParams_def CheckIPPort_iff CheckIP_iff CheckIPList_iff)

theorem filter_spec_witness:
  "\<exists>f. filter_New \<lparr>fc_Subnets = ''10.1.0.0/16, fe80::/10'', fc_TrustXFF = True, fc_TrustXRealIP = False\<rparr> = Inr f \<and>
     CheckRequestParams f ''8.8.8.8:1'' ''10.1.0.1'' ''10.1.2.3, fe80::1'' \<and>
     \<not> CheckRequestParams f ''8.8.8.8:1'' ''10.1.0.1'' ''10.1.2.3, 8.8.8.8''"
proof -
  let ?f = "\<lparr>subnets = [\<lparr>pfx_addr = Addr4 0x0a010000, pfx_bits = 16\<rparr>,
      \<lparr>pfx_addr = Addr6 0xfe800000000000000000000000000000 [], pfx_bits = 10\<rparr>], trustXFF = True, trustXRealIP = False\<rparr>"
  have f: "filter_New \<lparr>fc_Subnets = ''10.1.0.0/16, fe80::/10'', fc_TrustXFF = True, fc_TrustXRealIP = False\<rparr> = Inr ?f"
    by code_simp
  have p: "ParseAddrPort ''8.8.8.8:1'' = Inr (Addr4 0x08080808)" by code_simp
  have s: "Split ''10.1.2.3, fe80::1'' (CHR '','') = [''10.1.2.3'', '' fe80::1'']"
    "Split ''10.1.2.3, 8.8.8.8'' (CHR '','') = [''10.1.2.3'', '' 8.8.8.8'']" by simp_all
  have a: "entry_addr ''10.1.2.3'' = Inr (Addr4 0x0a010203)"
    "entry_addr '' fe80::1'' = Inr (Addr6 0xfe800000000000000000000000000001 [])"
    "entry_addr '' 8.8.8.8'' = Inr (Addr4 0x08080808)" by code_simp+
  have t: "trusted ?f (Addr4 0x0a010203)" "trusted ?f (Addr6 0xfe800000000000000000000000000001 [])"
    "\<not> trusted ?f (Addr4 0x08080808)"
    by (simp_all add: trusted_def)
  have "CheckRequestParams ?f ''8.8.8.8:1'' ''10.1.0.1'' ''10.1.2.3, fe80::1''"
    "\<not> CheckRequestParams ?f ''8.8.8.8:1'' ''10.1.0.1'' ''10.1.2.3, 8.8.8.8''"
    by (simp_all only: filter_spec p s) (simp_all add: a t)
  with f show ?thesis by blast
qed

text \<open>Without trusted subnets nothing passes the filter, whatever is trusted: an empty subnet list
  is accepted by \<open>New\<close> and every request is refused.\<close>

theorem filter_no_subnets_blocks:
  "\<exists>f. filter_New \<lparr>fc_Subnets = [], fc_TrustXFF = xff, fc_TrustXRealIP = real\<rparr> = Inr f \<and>
     Subnets f = [] \<and> \<not> CheckRequestParams f remoteAddr xRealIP xForwardedFor"
proof -
  have "x \<noteq> [] \<Longrightarrow> \<exists>s. s \<in> set (Split x (CHR '',''))" for x
    using Split_not_Nil [of x "CHR '',''"] by (cases "Split x (CHR '','')") auto
  then have "\<not> CheckRequestParams \<lparr>subnets = [], trustXFF = xff, trustXRealIP = real\<rparr> remoteAddr xRealIP xForwardedFor"
    by (auto simp: CheckRequestParams_def CheckIPPort_iff CheckIP_iff CheckIPList_iff trusted_def)
  then show ?thesis by (simp add: filter_New_def parseSliceFromString_def Subnets_def)
qed

text \<open>C38. The filter that \<open>New\<close> makes of a configuration: it takes each trust flag from the field of its
  name, and its subnets are, in order, what \<open>ParsePrefix\<close> makes of the comma separated entries with
  leading spaces trimmed, none for the empty string. \<open>New\<close> fails exactly when an entry does not
  parse, with the wrapped error of the first such entry. So an address is trusted exactly when the prefix
  of some entry contains it; the prefix length of each subnet is at most the width of its
  address, and no subnet has a zone, so that \<open>Contains\<close> never shifts by more than the width.\<close>

theorem filter_New_spec:
  "(\<forall>f. filter_New cfg = Inr f \<longleftrightarrow>
      trustXFF f = fc_TrustXFF cfg \<and> trustXRealIP f = fc_TrustXRealIP cfg \<and>
      list_all2 (\<lambda>s p. ParsePrefix (TrimLeft s (CHR '' '')) = Inr p) (subnet_entries cfg) (Subnets f)) \<and>
   (\<forall>e. filter_New cfg = Inl e \<longleftrightarrow> (\<exists>ss s ts d. subnet_entries cfg = ss @ s # ts \<and>
      (\<forall>r \<in> set ss. \<exists>p. ParsePrefix (TrimLeft r (CHR '' '')) = Inr p) \<and>
      ParsePrefix (TrimLeft s (CHR '' '')) = Inl d \<and> e = Wrap ''cannot parse entity'' d)) \<and>
   (\<forall>f a. filter_New cfg = Inr f \<longrightarrow>
      (trusted f a \<longleftrightarrow> (\<exists>s \<in> set (subnet_entries cfg). \<exists>p. ParsePrefix (TrimLeft s (CHR '' '')) = Inr p \<and> Contains p a)) \<and>
      (\<forall>p \<in> set (Subnets f). pfx_bits p \<le> (if Is6 (pfx_addr p) then 128 else 32) \<and> zone_of (pfx_addr p) = []))"
proof (intro conjI allI impI)
  show "filter_New cfg = Inr f \<longleftrightarrow>
      trustXFF f = fc_TrustXFF cfg \<and> trustXRealIP f = fc_TrustXRealIP cfg \<and>
      list_all2 (\<lambda>s p. ParsePrefix (TrimLeft s (CHR '' '')) = Inr p) (subnet_entries cfg) (Subnets f)" for f
    by (rule filter_New_Inr)
  show "filter_New cfg = Inl e \<longleftrightarrow> (\<exists>ss s ts d. subnet_entries cfg = ss @ s # ts \<and>
      (\<forall>r \<in> set ss. \<exists>p. ParsePrefix (TrimLeft r (CHR '' '')) = Inr p) \<and>
      ParsePrefix (TrimLeft s (CHR '' '')) = Inl d \<and> e = Wrap ''cannot parse entity'' d)" for e
    unfolding filter_New_Inl parse_entities_Inl ..
next
  fix f a
  assume "filter_New cfg = Inr f"
  then have l: "list_all2 (\<lambda>s p. ParsePrefix (TrimLeft s (CHR '' '')) = Inr p) (subnet_entries cfg) (subnets f)"
    unfolding filter_New_Inr by (simp add: Subnets_def)
  show "trusted f a \<longleftrightarrow> (\<exists>s \<in> set (subnet_entries cfg). \<exists>p. ParsePrefix (TrimLeft s (CHR '' '')) = Inr p \<and> Contains p a)"
    unfolding trusted_def using l by (induction rule: list_all2_induct) auto
  show "\<forall>p \<in> set (Subnets f). pfx_bits p \<le> (if Is6 (pfx_addr p) then 128 else 32) \<and> zone_of (pfx_addr p) = []"
    unfolding Subnets_def using l by (induction rule: list_all2_induct) (auto dest: ParsePrefix_bounds)
qed

theorem filter_New_spec_witness:
  "\<exists>f. filter_New \<lparr>fc_Subnets = ''10.1.0.0/16, fe80::/10'', fc_TrustXFF = True, fc_TrustXRealIP = False\<rparr> = Inr f \<and>
     trustXFF f \<and> \<not> trustXRealIP f \<and> length (Subnets f) = 2 \<and> trusted f (Addr4 0x0a010203) \<and>
     (\<forall>p \<in> set (Subnets f). zone_of (pfx_addr p) = [])"
proof -
  let ?c = "\<lparr>fc_Subnets = ''10.1.0.0/16, fe80::/10'', fc_TrustXFF = True, fc_TrustXRealIP = False\<rparr>"
  have "\<not> isl (filter_New ?c)" by code_simp
  then obtain f where f: "filter_New ?c = Inr f" by (auto simp: isl_def) (metis sum.exhaust)
  have e: "subnet_entries ?c = [''10.1.0.0/16'', '' fe80::/10'']" by (simp add: subnet_entries_def)
  have p: "ParsePrefix (TrimLeft ''10.1.0.0/16'' (CHR '' '')) = Inr \<lparr>pfx_addr = Addr4 0x0a010000, pfx_bits = 16\<rparr>"
    by code_simp
  have c: "Contains \<lparr>pfx_addr = Addr4 0x0a010000, pfx_bits = 16\<rparr> (Addr4 0x0a010203)" by simp
  note spec = filter_New_spec [of ?c]
  from spec [THEN conjunct1, rule_format, of f, THEN iffD1, OF f]
  have l: "list_all2 (\<lambda>s p. ParsePrefix (TrimLeft s (CHR '' '')) = Inr p) (subnet_entries ?c) (Subnets f)"
    and t: "trustXFF f" "\<not> trustXRealIP f" by simp_all
  note u = spec [THEN conjunct2, THEN conjunct2, rule_format, OF f, of "Addr4 0x0a010203"]
  have z: "\<forall>p \<in> set (Subnets f). zone_of (pfx_addr p) = []" using u by blast
  from l have "length (Subnets f) = 2" unfolding e by (auto dest: list_all2_lengthD)
  moreover have "trusted f (Addr4 0x0a010203)" unfolding u [THEN conjunct1] e using p c by (metis list.set_intros(1))
  ultimately show ?thesis using f t z by blast
qed

end
