(* ===== verification/Http.thy ===== *)
theory Http
  imports Model
begin

text \<open>
  The response writers and the middleware around every handler of the http server:
  \<open>internal/http/middleware/logging/logging.go\<close> and \<open>compress/compress.go\<close>, over the response
  of \<open>net/http\<close>. What a handler does to its writer is a list of calls.
\<close>

section \<open>Calls on a response writer\<close>

datatype wact = SetHeader string string | WriteHeader int | WriteBody string

text \<open>What a handler did, and whether it ended in a panic.\<close>

record hout =
  acts :: "wact list"
  panicked :: bool

definition finished :: "wact list \<Rightarrow> hout" where
  "finished as = \<lparr>acts = as, panicked = False\<rparr>"

section \<open>The response of net/http\<close>

text \<open>
  The header map, the interim responses sent so far, the status line and headers of the final one,
  and the body.
\<close>

record response =
  hdrs :: "string \<rightharpoonup> string"
  interim :: "(int \<times> (string \<rightharpoonup> string)) list"
  sent :: "(int \<times> (string \<rightharpoonup> string)) option"
  body :: string

definition new_response :: response where
  "new_response = \<lparr>hdrs = (\<lambda>_. None), interim = [], sent = None, body = []\<rparr>"

text \<open>
  \<open>WriteHeader\<close> is ignored after a final status; a status from 100 to 199 other than 101 is sent at
  once with the headers set so far, and the final status is still to come.
\<close>

definition interim_code :: "int \<Rightarrow> bool" where
  "interim_code c \<longleftrightarrow> 100 \<le> c \<and> c \<le> 199 \<and> c \<noteq> 101"

definition body_allowed :: "int \<Rightarrow> bool" where
  "body_allowed c \<longleftrightarrow> \<not> (100 \<le> c \<and> c \<le> 199) \<and> c \<noteq> 204 \<and> c \<noteq> 304"

definition resp_WriteHeader :: "response \<Rightarrow> int \<Rightarrow> response" where
  "resp_WriteHeader r code =
     (if sent r \<noteq> None then r
      else if interim_code code then r\<lparr>interim := interim r @ [(code, hdrs r)]\<rparr>
      else r\<lparr>sent := Some (code, hdrs r)\<rparr>)"

text \<open>
  A write sends status 200 when there is no final status yet. It fails with no byte written when
  the status allows no body; an empty write does nothing more. (\<open>ErrContentLength\<close> is for handlers
  that set a content length, and there are none.)
\<close>

definition ErrBodyNotAllowed :: gerr where
  "ErrBodyNotAllowed = Errmsg ''http: request method or response status code does not allow body''"

definition resp_Write :: "response \<Rightarrow> string \<Rightarrow> (nat \<times> gerr option) \<times> response" where
  "resp_Write r b =
     (let r' = resp_WriteHeader r 200 in
      if b = [] then ((0, None), r')
      else (case sent r' of
          Some (code, h) \<Rightarrow> if body_allowed code then ((length b, None), r'\<lparr>body := body r' @ b\<rparr>)
            else ((0, Some ErrBodyNotAllowed), r')
        | None \<Rightarrow> ((0, None), r')))"

text \<open>The end of the request: a response without a final status gets status 200.\<close>

definition resp_finish :: "response \<Rightarrow> response" where
  "resp_finish r = resp_WriteHeader r 200"

definition header_get :: "(string \<rightharpoonup> string) \<Rightarrow> string \<Rightarrow> string" where
  "header_get h k = (case h k of Some v \<Rightarrow> v | None \<Rightarrow> [])"

section \<open>logging.go\<close>

record logw =
  lw_resp :: response
  lw_writeErr :: "gerr option"
  lw_status :: int
  lw_size :: nat
  wroteHeader :: bool

definition new_logw :: "response \<Rightarrow> logw" where
  "new_logw r = \<lparr>lw_resp = r, lw_writeErr = None, lw_status = 0, lw_size = 0, wroteHeader = False\<rparr>"

definition flushHeader :: "logw \<Rightarrow> logw" where
  "flushHeader rw =
     (let rw1 =
        (if lw_status rw = 0 then rw\<lparr>lw_status := 200\<rparr>
         else if lw_status rw < 100 \<or> 999 < lw_status rw
         then rw\<lparr>lw_resp := resp_WriteHeader (lw_resp rw) 500,
            lw_writeErr := Some (Errmsg ''incorrect response code'')\<rparr>
         else rw)
      in rw1\<lparr>lw_resp := resp_WriteHeader (lw_resp rw1) (lw_status rw1), wroteHeader := True\<rparr>)"

definition logw_Write :: "logw \<Rightarrow> string \<Rightarrow> logw" where
  "logw_Write rw b =
     (let rw1 = (if \<not> wroteHeader rw then flushHeader rw else rw)
      in if lw_writeErr rw1 \<noteq> None then rw1
         else (case resp_Write (lw_resp rw1) b of ((n, err), r) \<Rightarrow>
           rw1\<lparr>lw_resp := r, lw_size := lw_size rw1 + n, lw_writeErr := err\<rparr>))"

definition logw_WriteHeader :: "logw \<Rightarrow> int \<Rightarrow> logw" where
  "logw_WriteHeader rw code = rw\<lparr>lw_status := code\<rparr>"

definition logw_Set :: "logw \<Rightarrow> string \<Rightarrow> string \<Rightarrow> logw" where
  "logw_Set rw k v = rw\<lparr>lw_resp := (lw_resp rw)\<lparr>hdrs := (hdrs (lw_resp rw))(k \<mapsto> v)\<rparr>\<rparr>"

text \<open>The end of \<open>ServeHTTP\<close>: the delayed header, or the recovered panic.\<close>

definition logw_finish :: "logw \<Rightarrow> bool \<Rightarrow> response" where
  "logw_finish rw panic =
     (if panic then (if \<not> wroteHeader rw then resp_WriteHeader (lw_resp rw) 500 else lw_resp rw)
      else lw_resp (if \<not> wroteHeader rw then flushHeader rw else rw))"

section \<open>compress.go\<close>

text \<open>
  The compressors are a parameter: the writes a compressor makes to the writer below it,
  given what was written to it before and what is written now, or when it is closed.
\<close>

record complib =
  comp_write :: "string \<Rightarrow> string list \<Rightarrow> string \<Rightarrow> string list"
  comp_close :: "string \<Rightarrow> string list \<Rightarrow> string list"
  decompress :: "string \<Rightarrow> string \<Rightarrow> string option"

record compw =
  inner :: logw
  cw :: "string list option"
  enc :: string

definition new_compw :: "logw \<Rightarrow> string \<Rightarrow> compw" where
  "new_compw w accept = \<lparr>inner = w, cw = None, enc =
     (if contains_str accept ''gzip'' then ''gzip''
      else if contains_str accept ''deflate'' then ''deflate'' else [])\<rparr>"

definition needCompression :: "compw \<Rightarrow> bool" where
  "needCompression rw = (let ct = header_get (hdrs (lw_resp (inner rw))) ''Content-Type'' in
     ct = ''application/json'' \<or> ct = ''text/plain'')"

definition compw_WriteHeader :: "compw \<Rightarrow> int \<Rightarrow> compw" where
  "compw_WriteHeader rw code =
     (let rw1 = (if enc rw \<noteq> [] \<and> needCompression rw
        then rw\<lparr>inner := logw_Set (inner rw) ''Content-Encoding'' (enc rw), cw := Some []\<rparr> else rw)
      in rw1\<lparr>inner := logw_WriteHeader (inner rw1) code\<rparr>)"

definition compw_Write :: "complib \<Rightarrow> compw \<Rightarrow> string \<Rightarrow> compw" where
  "compw_Write C rw b = (case cw rw of
     Some chunks \<Rightarrow> rw\<lparr>cw := Some (chunks @ [b]),
       inner := fold (\<lambda>x w. logw_Write w x) (comp_write C (enc rw) chunks b) (inner rw)\<rparr>
   | None \<Rightarrow> rw\<lparr>inner := logw_Write (inner rw) b\<rparr>)"

definition compw_close :: "complib \<Rightarrow> compw \<Rightarrow> logw" where
  "compw_close C rw = (case cw rw of
     Some chunks \<Rightarrow> fold (\<lambda>x w. logw_Write w x) (comp_close C (enc rw) chunks) (inner rw)
   | None \<Rightarrow> inner rw)"

fun compw_act :: "complib \<Rightarrow> wact \<Rightarrow> compw \<Rightarrow> compw" where
  "compw_act C (SetHeader k v) rw = rw\<lparr>inner := logw_Set (inner rw) k v\<rparr>"
| "compw_act C (WriteHeader code) rw = compw_WriteHeader rw code"
| "compw_act C (WriteBody b) rw = compw_Write C rw b"

text \<open>
  The two middlewares around a handler: the compressor is closed in a deferred call, then
  the logging middleware sends the delayed header or handles the panic, and \<open>net/http\<close> ends the
  request.
\<close>

definition run_stack :: "complib \<Rightarrow> string \<Rightarrow> hout \<Rightarrow> response" where
  "run_stack C accept h =
     resp_finish (logw_finish
       (compw_close C (fold (compw_act C) (acts h) (new_compw (new_logw new_response) accept))) (panicked h))"

section \<open>Facts\<close>

text \<open>What the compressors guarantee: all their output together decodes to all their input.\<close>

fun comp_output :: "complib \<Rightarrow> string \<Rightarrow> string list \<Rightarrow> string list \<Rightarrow> string" where
  "comp_output C e chunks [] = concat (comp_close C e chunks)"
| "comp_output C e chunks (b # bs) = concat (comp_write C e chunks b) @ comp_output C e (chunks @ [b]) bs"

definition comp_ok :: "complib \<Rightarrow> bool" where
  "comp_ok C \<longleftrightarrow> (\<forall>e bs. e \<in> {''gzip'', ''deflate''} \<longrightarrow> decompress C e (comp_output C e [] bs) = Some (concat bs))"

text \<open>The status that is sent for a sequence of calls: the last one set before the first write.\<close>

fun final_status :: "int \<Rightarrow> wact list \<Rightarrow> int" where
  "final_status s [] = s"
| "final_status s (SetHeader k v # as) = final_status s as"
| "final_status s (WriteHeader c # as) = final_status c as"
| "final_status s (WriteBody b # as) = s"

definition valid_code :: "int \<Rightarrow> bool" where
  "valid_code c \<longleftrightarrow> c = 0 \<or> 100 \<le> c \<and> c \<le> 999"

text \<open>The final status for a status that was set: 200 for none or an interim one, 500 for what is no status.\<close>

definition sent_code :: "int \<Rightarrow> int" where
  "sent_code c = (if c = 0 then 200 else if \<not> valid_code c then 500 else if interim_code c then 200 else c)"

lemma resp_WriteHeader_done [simp]: "sent r = Some x \<Longrightarrow> resp_WriteHeader r c = r"
  by (simp add: resp_WriteHeader_def)

lemma resp_finish_sent [simp]: "sent r = Some x \<Longrightarrow> resp_finish r = r"
  by (simp add: resp_finish_def)

lemma interim_codes [simp]: "\<not> interim_code 200" "\<not> interim_code 500"
  by (simp_all add: interim_code_def)

lemma resp_Write_sent: "sent (snd (resp_Write r b)) = sent (resp_WriteHeader r 200) \<and>
    hdrs (snd (resp_Write r b)) = hdrs r \<and> interim (snd (resp_Write r b)) = interim (resp_WriteHeader r 200)"
  by (auto simp: resp_Write_def Let_def resp_WriteHeader_def split: option.splits)

lemma flushHeader_finish:
  assumes "sent (lw_resp rw) = None"
  shows "sent (resp_WriteHeader (lw_resp (flushHeader rw)) 200) = Some (sent_code (lw_status rw), hdrs (lw_resp rw))"
    and "interim (resp_WriteHeader (lw_resp (flushHeader rw)) 200) = interim (lw_resp rw) @
      (if interim_code (lw_status rw) then [(lw_status rw, hdrs (lw_resp rw))] else [])"
  using assms
  by (auto simp: flushHeader_def resp_WriteHeader_def Let_def sent_code_def valid_code_def interim_code_def)

lemma flushHeader_stays: "sent (lw_resp rw) = Some x \<Longrightarrow> lw_resp (flushHeader rw) = lw_resp rw"
  by (simp add: flushHeader_def Let_def)

lemma logw_Write_resp:
  assumes "rw1 = (if \<not> wroteHeader rw then flushHeader rw else rw)"
  shows "lw_resp (logw_Write rw b) = (if lw_writeErr rw1 \<noteq> None then lw_resp rw1 else snd (resp_Write (lw_resp rw1) b))"
  using assms by (simp add: logw_Write_def Let_def split_beta del: not_None_eq)

lemma sent_stays [simp]:
  "sent (lw_resp rw) = Some x \<Longrightarrow> sent (lw_resp (flushHeader rw)) = Some x"
  "sent (lw_resp rw) = Some x \<Longrightarrow> sent (lw_resp (logw_Write rw b)) = Some x"
  "sent (lw_resp (logw_WriteHeader rw c)) = sent (lw_resp rw)"
  "sent (lw_resp (logw_Set rw k v)) = sent (lw_resp rw)"
  by (simp_all add: flushHeader_stays logw_Write_resp [OF HOL.refl] resp_Write_sent logw_WriteHeader_def logw_Set_def)

lemma interim_stays:
  "sent (lw_resp rw) = Some x \<Longrightarrow> interim (lw_resp (logw_Write rw b)) = interim (lw_resp rw)"
  by (auto simp: flushHeader_stays logw_Write_resp [OF HOL.refl] resp_Write_sent)

lemma logw_Write_wrote [simp]: "wroteHeader (logw_Write rw b)"
  by (simp add: logw_Write_def Let_def flushHeader_def split_beta)

text \<open>The writer before anything was sent.\<close>

definition fresh :: "logw \<Rightarrow> bool" where
  "fresh rw \<longleftrightarrow> \<not> wroteHeader rw \<and> sent (lw_resp rw) = None \<and> lw_writeErr rw = None"

lemma fresh_simps [simp]:
  "fresh (new_logw new_response)"
  "fresh (logw_WriteHeader rw c) = fresh rw" "fresh (logw_Set rw k v) = fresh rw"
  by (simp_all add: fresh_def new_logw_def new_response_def logw_WriteHeader_def logw_Set_def)

lemma flushHeader_writeErr:
  "lw_writeErr rw = None \<Longrightarrow> lw_writeErr (flushHeader rw) \<noteq> None \<Longrightarrow> sent (lw_resp (flushHeader rw)) \<noteq> None"
  by (auto simp: flushHeader_def Let_def resp_WriteHeader_def split: if_splits)

lemma logw_Write_fresh:
  assumes "fresh rw"
  shows "sent (lw_resp (logw_Write rw b)) = Some (sent_code (lw_status rw), hdrs (lw_resp rw))"
    and "interim (lw_resp (logw_Write rw b)) = interim (lw_resp rw) @
      (if interim_code (lw_status rw) then [(lw_status rw, hdrs (lw_resp rw))] else [])"
proof -
  have f: "\<not> wroteHeader rw" "sent (lw_resp rw) = None" "lw_writeErr rw = None" using assms by (simp_all add: fresh_def)
  note fin = flushHeader_finish [OF f(2)]
  show "sent (lw_resp (logw_Write rw b)) = Some (sent_code (lw_status rw), hdrs (lw_resp rw))"
    "interim (lw_resp (logw_Write rw b)) = interim (lw_resp rw) @
      (if interim_code (lw_status rw) then [(lw_status rw, hdrs (lw_resp rw))] else [])"
    using fin flushHeader_writeErr [OF f(3)]
    by (cases "lw_writeErr (flushHeader rw)"; force simp: logw_Write_resp [OF HOL.refl] f(1) resp_Write_sent)+
qed

lemma fold_write_sent:
  "sent (lw_resp rw) = Some x \<Longrightarrow> sent (lw_resp (fold (\<lambda>x w. logw_Write w x) bs rw)) = Some x"
  by (induction bs arbitrary: rw) auto

lemma fold_write_fresh:
  "fresh rw \<Longrightarrow> fold (\<lambda>x w. logw_Write w x) bs rw = rw \<or>
     sent (lw_resp (fold (\<lambda>x w. logw_Write w x) bs rw)) = Some (sent_code (lw_status rw), hdrs (lw_resp rw))"
  by (cases bs) (auto simp: fold_write_sent logw_Write_fresh(1))

lemma compw_act_sent:
  "sent (lw_resp (inner rw)) = Some x \<Longrightarrow> sent (lw_resp (inner (compw_act C a rw))) = Some x"
  by (cases a) (auto simp: compw_WriteHeader_def compw_Write_def Let_def fold_write_sent split: option.splits)

lemma fold_act_sent:
  "sent (lw_resp (inner rw)) = Some x \<Longrightarrow> sent (lw_resp (inner (fold (compw_act C) as rw))) = Some x"
  by (induction as arbitrary: rw) (auto simp: compw_act_sent)

lemma compw_close_sent:
  "sent (lw_resp (inner rw)) = Some x \<Longrightarrow> sent (lw_resp (compw_close C rw)) = Some x"
  by (auto simp: compw_close_def fold_write_sent split: option.splits)

lemma logw_finish_sent:
  "sent (lw_resp rw) = Some x \<Longrightarrow> logw_finish rw p = lw_resp rw"
  by (auto simp: logw_finish_def resp_WriteHeader_def flushHeader_stays)

lemma logw_finish_fresh:
  assumes "fresh rw"
  shows "sent (resp_finish (logw_finish rw False)) = Some (sent_code (lw_status rw), hdrs (lw_resp rw))"
    and "interim (resp_finish (logw_finish rw False)) = interim (lw_resp rw) @
      (if interim_code (lw_status rw) then [(lw_status rw, hdrs (lw_resp rw))] else [])"
  using assms flushHeader_finish [of rw] by (simp_all add: fresh_def logw_finish_def resp_finish_def)

text \<open>Handlers that set the status before they write.\<close>

fun no_header :: "wact list \<Rightarrow> bool" where
  "no_header [] = True"
| "no_header (WriteHeader c # as) = False"
| "no_header (_ # as) = no_header as"

fun header_first :: "wact list \<Rightarrow> bool" where
  "header_first [] = True"
| "header_first (WriteBody b # as) = no_header as"
| "header_first (_ # as) = header_first as"

lemma no_header_final: "no_header as \<Longrightarrow> final_status s as = s"
  by (induction as rule: no_header.induct) auto

lemma no_header_first: "no_header as \<Longrightarrow> header_first as"
  by (induction as rule: no_header.induct) auto

lemma fold_act_status:
  assumes "fresh (inner rw)" and "header_first as"
  shows "(fresh (inner (fold (compw_act C) as rw)) \<and>
      lw_status (inner (fold (compw_act C) as rw)) = final_status (lw_status (inner rw)) as) \<or>
    (\<exists>h. sent (lw_resp (inner (fold (compw_act C) as rw))) = Some (sent_code (final_status (lw_status (inner rw)) as), h))"
  using assms
proof (induction as arbitrary: rw)
  case Nil
  then show ?case by simp
next
  case (Cons a as)
  show ?case
  proof (cases a)
    case (SetHeader k v)
    with Cons.prems have "fresh (inner (compw_act C a rw))" "header_first as"
        "lw_status (inner (compw_act C a rw)) = lw_status (inner rw)"
      by (simp_all, simp add: logw_Set_def)
    with Cons.IH [of "compw_act C a rw"] SetHeader show ?thesis by simp
  next
    case (WriteHeader c)
    with Cons.prems have "fresh (inner (compw_act C a rw))" "lw_status (inner (compw_act C a rw)) = c" "header_first as"
      by (simp_all add: compw_WriteHeader_def Let_def logw_WriteHeader_def [of "inner rw"] logw_WriteHeader_def)
        (simp_all add: fresh_def logw_Set_def)
    with Cons.IH [of "compw_act C a rw"] WriteHeader show ?thesis by simp
  next
    case (WriteBody b)
    with Cons.prems have nh: "no_header as" by simp
    then have fs: "final_status s as = s" for s by (rule no_header_final)
    have "inner (compw_act C a rw) = inner rw \<or>
        sent (lw_resp (inner (compw_act C a rw))) = Some (sent_code (lw_status (inner rw)), hdrs (lw_resp (inner rw)))"
    proof (cases "cw rw")
      case None
      with WriteBody Cons.prems(1) show ?thesis by (simp add: compw_Write_def logw_Write_fresh(1))
    next
      case (Some chunks)
      with WriteBody show ?thesis
        using fold_write_fresh [OF Cons.prems(1), of "comp_write C (enc rw) chunks b"] by (simp add: compw_Write_def)
    qed
    then show ?thesis
    proof
      assume i: "inner (compw_act C a rw) = inner rw"
      with Cons.prems(1) have "fresh (inner (compw_act C a rw))" by simp
      from Cons.IH [OF this no_header_first [OF nh]] i WriteBody show ?thesis by (simp add: fs)
    next
      assume "sent (lw_resp (inner (compw_act C a rw))) = Some (sent_code (lw_status (inner rw)), hdrs (lw_resp (inner rw)))"
      from fold_act_sent [OF this, of C as] WriteBody show ?thesis by (simp add: fs)
    qed
  qed
qed

lemma run_stack_status:
  assumes "header_first as"
  shows "\<exists>h. sent (run_stack C accept (finished as)) = Some (sent_code (final_status 0 as), h)"
proof -
  let ?rw = "new_compw (new_logw new_response) accept"
  let ?f = "fold (compw_act C) as ?rw"
  have "fresh (inner ?rw)" "lw_status (inner ?rw) = 0" by (simp_all add: new_compw_def) (simp add: new_logw_def)
  with fold_act_status [of ?rw as C] assms
  consider "fresh (inner ?f)" "lw_status (inner ?f) = final_status 0 as"
    | h where "sent (lw_resp (inner ?f)) = Some (sent_code (final_status 0 as), h)" by auto
  then show ?thesis
  proof cases
    case 1
    have "compw_close C ?f = inner ?f \<or>
      sent (lw_resp (compw_close C ?f)) = Some (sent_code (final_status 0 as), hdrs (lw_resp (inner ?f)))"
      using fold_write_fresh [OF 1(1)] 1(2) by (auto simp: compw_close_def split: option.splits)
    then show ?thesis
    proof
      assume c: "compw_close C ?f = inner ?f"
      with logw_finish_fresh(1) [OF 1(1)] 1(2) show ?thesis by (simp add: run_stack_def finished_def)
    next
      assume s: "sent (lw_resp (compw_close C ?f)) = Some (sent_code (final_status 0 as), hdrs (lw_resp (inner ?f)))"
      with logw_finish_sent [OF s] show ?thesis by (auto simp: run_stack_def finished_def)
    qed
  next
    case 2
    from logw_finish_sent [OF compw_close_sent [OF 2]] compw_close_sent [OF 2] show ?thesis
      by (auto simp: run_stack_def finished_def)
  qed
qed

text \<open>Writes that reach the response: nothing was sent and the status that is set allows a body, or it was sent.\<close>

definition writable :: "logw \<Rightarrow> bool" where
  "writable rw \<longleftrightarrow> lw_writeErr rw = None \<and>
     (wroteHeader rw \<and> (\<exists>c h. sent (lw_resp rw) = Some (c, h) \<and> body_allowed c) \<or>
      fresh rw \<and> valid_code (lw_status rw) \<and> body_allowed (sent_code (lw_status rw)))"

lemma flushHeader_valid:
  "valid_code (lw_status rw) \<Longrightarrow> lw_writeErr (flushHeader rw) = lw_writeErr rw \<and>
     body (lw_resp (flushHeader rw)) = body (lw_resp rw) \<and> wroteHeader (flushHeader rw)"
  by (auto simp: flushHeader_def Let_def valid_code_def resp_WriteHeader_def)

lemma resp_Write_allowed:
  assumes "sent (resp_WriteHeader r 200) = Some (c, h)" and "body_allowed c"
  shows "body (snd (resp_Write r b)) = body r @ b \<and> snd (fst (resp_Write r b)) = None"
  using assms by (auto simp: resp_Write_def Let_def resp_WriteHeader_def split: if_splits)

lemma logw_Write_writable:
  assumes "writable rw"
  shows "writable (logw_Write rw b) \<and> body (lw_resp (logw_Write rw b)) = body (lw_resp rw) @ b"
proof -
  define rw1 where "rw1 = (if \<not> wroteHeader rw then flushHeader rw else rw)"
  obtain c h where rw1: "lw_writeErr rw1 = None" "sent (resp_WriteHeader (lw_resp rw1) 200) = Some (c, h)"
      "body_allowed c" "body (lw_resp rw1) = body (lw_resp rw)" "wroteHeader rw1"
  proof (cases "wroteHeader rw")
    case True
    with assms obtain c h where "sent (lw_resp rw) = Some (c, h)" "body_allowed c" "lw_writeErr rw = None"
      by (auto simp: writable_def fresh_def)
    with that [of c h] True show ?thesis by (simp add: rw1_def resp_WriteHeader_def)
  next
    case False
    with assms have f: "fresh rw" "valid_code (lw_status rw)" "body_allowed (sent_code (lw_status rw))"
      by (auto simp: writable_def)
    with flushHeader_finish(1) [of rw] flushHeader_valid [of rw] False show ?thesis
      by (intro that) (auto simp: rw1_def fresh_def)
  qed
  have "logw_Write rw b = rw1\<lparr>lw_resp := snd (resp_Write (lw_resp rw1) b),
      lw_size := lw_size rw1 + fst (fst (resp_Write (lw_resp rw1) b)), lw_writeErr := None\<rparr>"
    using rw1(1) resp_Write_allowed [OF rw1(2,3), of b] by (simp add: logw_Write_def Let_def rw1_def split_beta)
  then show ?thesis
    using rw1 resp_Write_allowed [OF rw1(2,3), of b] resp_Write_sent [of "lw_resp rw1" b] by (simp add: writable_def)
qed

lemma fold_write_writable:
  "writable rw \<Longrightarrow> writable (fold (\<lambda>x w. logw_Write w x) bs rw) \<and>
     body (lw_resp (fold (\<lambda>x w. logw_Write w x) bs rw)) = body (lw_resp rw) @ concat bs"
proof (induction bs arbitrary: rw)
  case (Cons b bs)
  from Cons.IH [of "logw_Write rw b"] logw_Write_writable [OF Cons.prems, of b] show ?case by simp
qed simp

lemma finish_body: "writable rw \<Longrightarrow> body (resp_finish (logw_finish rw False)) = body (lw_resp rw)"
  using flushHeader_valid [of rw]
  by (auto simp: writable_def fresh_def logw_finish_def resp_finish_def resp_WriteHeader_def)

text \<open>Writes that are refused: the status that was sent, or is set, allows no body.\<close>

definition barred :: "logw \<Rightarrow> bool" where
  "barred rw \<longleftrightarrow> (\<exists>c h. sent (lw_resp rw) = Some (c, h) \<and> \<not> body_allowed c) \<or>
     fresh rw \<and> valid_code (lw_status rw) \<and> \<not> body_allowed (sent_code (lw_status rw))"

lemma resp_Write_barred:
  assumes "sent (resp_WriteHeader r 200) = Some (c, h)" and "\<not> body_allowed c"
  shows "body (snd (resp_Write r b)) = body r"
  using assms by (auto simp: resp_Write_def Let_def resp_WriteHeader_def split: if_splits)

lemma logw_Write_barred:
  assumes "barred rw"
  shows "barred (logw_Write rw b) \<and> body (lw_resp (logw_Write rw b)) = body (lw_resp rw)"
proof (cases "sent (lw_resp rw)")
  case (Some x)
  obtain c h where x: "sent (lw_resp rw) = Some (c, h)" "\<not> body_allowed c"
    using assms Some by (auto simp: barred_def fresh_def)
  then have "sent (resp_WriteHeader (lw_resp rw) 200) = Some (c, h)" by simp
  from resp_Write_barred [OF this x(2), of b] x(1) have "body (lw_resp (logw_Write rw b)) = body (lw_resp rw)"
    by (simp add: logw_Write_resp [OF HOL.refl] flushHeader_stays)
  moreover have "sent (lw_resp (logw_Write rw b)) = Some (c, h)" using x(1) by simp
  ultimately show ?thesis using x(2) by (auto simp: barred_def)
next
  case None
  with assms have f: "fresh rw" "valid_code (lw_status rw)" "\<not> body_allowed (sent_code (lw_status rw))"
    by (auto simp: barred_def)
  note fin = flushHeader_finish(1) [OF None]
  from resp_Write_barred [OF fin f(3), of b] f flushHeader_valid [OF f(2)] logw_Write_fresh(1) [OF f(1), of b]
  show ?thesis by (simp add: logw_Write_resp [OF HOL.refl] barred_def fresh_def)
qed

lemma fold_write_barred:
  "barred rw \<Longrightarrow> barred (fold (\<lambda>x w. logw_Write w x) bs rw) \<and>
     body (lw_resp (fold (\<lambda>x w. logw_Write w x) bs rw)) = body (lw_resp rw)"
proof (induction bs arbitrary: rw)
  case (Cons b bs)
  from Cons.IH [of "logw_Write rw b"] logw_Write_barred [OF Cons.prems, of b] show ?case by simp
qed simp

lemma barred_acts:
  "barred (inner rw) \<Longrightarrow> barred (inner (fold (compw_act C) (map WriteBody bs) rw)) \<and>
     body (lw_resp (inner (fold (compw_act C) (map WriteBody bs) rw))) = body (lw_resp (inner rw))"
proof (induction bs arbitrary: rw)
  case (Cons b bs)
  let ?rw = "compw_act C (WriteBody b) rw"
  have "barred (inner ?rw)" "body (lw_resp (inner ?rw)) = body (lw_resp (inner rw))"
    using fold_write_barred [OF Cons.prems, of "comp_write C (enc rw) (the (cw rw)) b"] logw_Write_barred [OF Cons.prems, of b]
    by (auto simp: compw_Write_def split: option.splits)
  with Cons.IH [of ?rw] show ?case by simp
qed simp

lemma barred_close:
  "barred (inner rw) \<Longrightarrow> barred (compw_close C rw) \<and> body (lw_resp (compw_close C rw)) = body (lw_resp (inner rw))"
  using fold_write_barred by (auto simp: compw_close_def split: option.splits)

lemma barred_finish: "barred rw \<Longrightarrow> body (resp_finish (logw_finish rw False)) = body (lw_resp rw)"
  using flushHeader_valid [of rw]
  by (auto simp: barred_def fresh_def logw_finish_def resp_finish_def resp_WriteHeader_def flushHeader_stays)

lemma plain_writes:
  assumes "cw rw = None" and "writable (inner rw)"
  shows "cw (fold (compw_act C) (map WriteBody bs) rw) = None \<and>
    writable (inner (fold (compw_act C) (map WriteBody bs) rw)) \<and>
    body (lw_resp (inner (fold (compw_act C) (map WriteBody bs) rw))) = body (lw_resp (inner rw)) @ concat bs"
  using assms
proof (induction bs arbitrary: rw)
  case Nil
  then show ?case by simp
next
  case (Cons b bs)
  let ?rw = "compw_act C (WriteBody b) rw"
  have "cw ?rw = None" "inner ?rw = fold (\<lambda>x w. logw_Write w x) [b] (inner rw)"
    using Cons.prems by (simp_all add: compw_Write_def)
  with fold_write_writable [OF Cons.prems(2), of "[b]"] Cons.IH [of ?rw] show ?case by simp
qed

lemma comp_writes:
  assumes "cw rw = Some chunks" and "writable (inner rw)"
  shows "writable (compw_close C (fold (compw_act C) (map WriteBody bs) rw)) \<and>
    body (lw_resp (compw_close C (fold (compw_act C) (map WriteBody bs) rw)))
      = body (lw_resp (inner rw)) @ comp_output C (enc rw) chunks bs"
  using assms
proof (induction bs arbitrary: rw chunks)
  case Nil
  then show ?case using fold_write_writable [OF Nil.prems(2), of "comp_close C (enc rw) chunks"]
    by (simp add: compw_close_def)
next
  case (Cons b bs)
  let ?rw = "compw_act C (WriteBody b) rw"
  have "cw ?rw = Some (chunks @ [b])" "enc ?rw = enc rw"
      "inner ?rw = fold (\<lambda>x w. logw_Write w x) (comp_write C (enc rw) chunks b) (inner rw)"
    using Cons.prems by (simp_all add: compw_Write_def)
  with fold_write_writable [OF Cons.prems(2), of "comp_write C (enc rw) chunks b"] Cons.IH [of ?rw "chunks @ [b]"]
  show ?case by simp
qed

lemma set_headers:
  "fold (compw_act C) (map (\<lambda>(k, v). SetHeader k v) kvs) rw =
     rw\<lparr>inner := (inner rw)\<lparr>lw_resp := (lw_resp (inner rw))\<lparr>hdrs := hdrs (lw_resp (inner rw)) ++ map_of (rev kvs)\<rparr>\<rparr>\<rparr>"
proof (induction kvs arbitrary: rw)
  case Nil
  then show ?case by simp
next
  case (Cons p kvs)
  obtain k v where p: "p = (k, v)" by (cases p)
  have "(hdrs (lw_resp (inner rw)))(k \<mapsto> v) ++ map_of (rev kvs)
      = hdrs (lw_resp (inner rw)) ++ map_of (rev kvs @ [(k, v)])"
    by (simp add: map_add_assoc [symmetric] flip: map_add_upd_left)
  with Cons p show ?case by (simp add: logw_Set_def fun_upd_def)
qed

text \<open>The status and headers that are or will be sent.\<close>

definition interims :: "(string \<rightharpoonup> string) \<Rightarrow> int \<Rightarrow> (int \<times> (string \<rightharpoonup> string)) list" where
  "interims h c = (if interim_code c then [(c, h)] else [])"

definition settled :: "(string \<rightharpoonup> string) \<Rightarrow> int \<Rightarrow> logw \<Rightarrow> bool" where
  "settled h c rw \<longleftrightarrow> fresh rw \<and> lw_status rw = c \<and> hdrs (lw_resp rw) = h \<and> interim (lw_resp rw) = [] \<or>
     sent (lw_resp rw) = Some (sent_code c, h) \<and> interim (lw_resp rw) = interims h c"

lemma settled_Write: "settled h c rw \<Longrightarrow> settled h c (logw_Write rw b)"
  unfolding settled_def interims_def using logw_Write_fresh [of rw b] interim_stays [of rw _ b] by auto

lemma settled_fold: "settled h c rw \<Longrightarrow> settled h c (fold (\<lambda>x w. logw_Write w x) bs rw)"
  by (induction bs arbitrary: rw) (auto intro: settled_Write)

lemma settled_body: "settled h c (inner rw) \<Longrightarrow> settled h c (inner (fold (compw_act C) (map WriteBody bs) rw))"
proof (induction bs arbitrary: rw)
  case Nil
  then show ?case by simp
next
  case (Cons b bs)
  from Cons.prems have "settled h c (inner (compw_act C (WriteBody b) rw))"
    by (auto simp: compw_Write_def intro: settled_Write settled_fold split: option.splits)
  from Cons.IH [OF this] show ?case by simp
qed

lemma settled_close: "settled h c (inner rw) \<Longrightarrow> settled h c (compw_close C rw)"
  by (auto simp: compw_close_def intro: settled_fold split: option.splits)

lemma settled_finish:
  "settled h c rw \<Longrightarrow> sent (resp_finish (logw_finish rw False)) = Some (sent_code c, h) \<and>
     interim (resp_finish (logw_finish rw False)) = interims h c"
  unfolding settled_def interims_def using logw_finish_fresh [of rw] logw_finish_sent [of rw _ False] by auto

definition negotiated :: "string \<Rightarrow> string" where
  "negotiated accept = (if contains_str accept ''gzip'' then ''gzip''
     else if contains_str accept ''deflate'' then ''deflate'' else [])"

definition compressible :: "(string \<times> string) list \<Rightarrow> bool" where
  "compressible kvs \<longleftrightarrow> header_get (map_of (rev kvs)) ''Content-Type'' \<in> {''application/json'', ''text/plain''}"

definition reply :: "(string \<times> string) list \<Rightarrow> int \<Rightarrow> string list \<Rightarrow> wact list" where
  "reply kvs c bs = map (\<lambda>(k, v). SetHeader k v) kvs @ WriteHeader c # map WriteBody bs"

lemma run_reply:
  assumes "valid_code c" and "r = run_stack C accept (finished (reply kvs c bs))"
  shows "\<exists>h. sent r = Some (sent_code c, h) \<and> interim r = interims h c \<and>
    (if negotiated accept \<noteq> [] \<and> compressible kvs
     then h = (map_of (rev kvs))(''Content-Encoding'' \<mapsto> negotiated accept) \<and>
       body r = (if body_allowed (sent_code c) then comp_output C (negotiated accept) [] bs else [])
     else h = map_of (rev kvs) \<and> body r = (if body_allowed (sent_code c) then concat bs else []))"
proof -
  define H where "H = map_of (rev kvs)"
  define w where "w = (new_logw new_response)\<lparr>lw_resp := new_response\<lparr>hdrs := H\<rparr>\<rparr>"
  define rw where "rw = \<lparr>inner = w, cw = None, enc = negotiated accept\<rparr>"
  have "fold (compw_act C) (map (\<lambda>(k, v). SetHeader k v) kvs) (new_compw (new_logw new_response) accept) = rw"
    by (simp add: set_headers new_compw_def rw_def w_def H_def negotiated_def new_logw_def new_response_def)
  then have r: "r =
      resp_finish (logw_finish (compw_close C (fold (compw_act C) (map WriteBody bs) (compw_WriteHeader rw c))) False)"
    by (simp add: assms(2) run_stack_def finished_def reply_def)
  have w: "fresh w" "hdrs (lw_resp w) = H" "body (lw_resp w) = []" "interim (lw_resp w) = []"
    by (simp_all add: w_def fresh_def new_logw_def new_response_def)
  have need: "needCompression rw \<longleftrightarrow> compressible kvs"
    by (simp add: needCompression_def compressible_def rw_def w(2) H_def Let_def)
  have mode: "settled h c v \<and> (if body_allowed (sent_code c) then writable v else barred v)"
    if "fresh v" "lw_status v = c" "hdrs (lw_resp v) = h" "interim (lw_resp v) = []" for v h
    using that assms(1) by (auto simp: settled_def writable_def barred_def) (simp add: fresh_def)
  show ?thesis
  proof (cases "negotiated accept \<noteq> [] \<and> compressible kvs")
    case True
    define w1 where "w1 = logw_WriteHeader (logw_Set w ''Content-Encoding'' (negotiated accept)) c"
    define rw1 where "rw1 = rw\<lparr>inner := w1, cw := Some []\<rparr>"
    let ?h = "H(''Content-Encoding'' \<mapsto> negotiated accept)"
    have wh: "compw_WriteHeader rw c = rw1"
      using True need by (simp add: compw_WriteHeader_def rw_def w1_def rw1_def)
    have "fresh w1" "lw_status w1 = c" "hdrs (lw_resp w1) = ?h" "interim (lw_resp w1) = []" "body (lw_resp w1) = []"
      using w by (simp_all add: w1_def) (simp_all add: logw_WriteHeader_def logw_Set_def)
    with mode [of w1 ?h] have s: "settled ?h c (inner rw1)" "body (lw_resp (inner rw1)) = []" "cw rw1 = Some []"
        "if body_allowed (sent_code c) then writable (inner rw1) else barred (inner rw1)" "enc rw1 = negotiated accept"
      by (auto simp: rw1_def rw_def)
    let ?f = "compw_close C (fold (compw_act C) (map WriteBody bs) rw1)"
    have "body r = (if body_allowed (sent_code c) then comp_output C (negotiated accept) [] bs else [])"
      using comp_writes [OF s(3), of C bs] barred_acts [of rw1 C bs] s(2,4,5) finish_body [of ?f] barred_finish [of ?f]
        barred_close [of "fold (compw_act C) (map WriteBody bs) rw1" C]
      by (auto simp: r wh split: if_splits)
    with settled_finish [OF settled_close [OF settled_body [OF s(1)]]] True show ?thesis by (simp add: r wh H_def)
  next
    case False
    define w1 where "w1 = logw_WriteHeader w c"
    define rw1 where "rw1 = rw\<lparr>inner := w1\<rparr>"
    have wh: "compw_WriteHeader rw c = rw1"
      using False need by (auto simp: compw_WriteHeader_def rw_def w1_def rw1_def)
    have "fresh w1" "lw_status w1 = c" "hdrs (lw_resp w1) = H" "interim (lw_resp w1) = []" "body (lw_resp w1) = []"
      using w by (simp_all add: w1_def) (simp_all add: logw_WriteHeader_def)
    with mode [of w1 H] have s: "settled H c (inner rw1)" "body (lw_resp (inner rw1)) = []" "cw rw1 = None"
        "if body_allowed (sent_code c) then writable (inner rw1) else barred (inner rw1)"
      by (auto simp: rw1_def rw_def)
    let ?g = "fold (compw_act C) (map WriteBody bs) rw1"
    have "body r = (if body_allowed (sent_code c) then concat bs else [])"
    proof (cases "body_allowed (sent_code c)")
      case True
      with plain_writes [OF s(3), of C bs] s(2,4) finish_body [of "inner ?g"] show ?thesis
        by (simp add: r wh compw_close_def)
    next
      case F: False
      with barred_acts [of rw1 C bs] barred_close [of ?g C] barred_finish [of "compw_close C ?g"] s(2,4)
      show ?thesis by (simp add: r wh)
    qed
    with settled_finish [OF settled_close [OF settled_body [OF s(1)]]] False show ?thesis by (auto simp: r wh H_def)
  qed
qed

section \<open>Properties\<close>

text \<open>C26. Compression is transparent: for a handler that sets headers, a status from 100 to 999 and writes a
  body in any chunks, the client gets that status, where an interim one (1xx without 101) comes
  first with the same headers and the final status is then 200. The response is
  compressed exactly when the client accepts gzip or deflate and the content type is json or plain
  text: it is then labelled with the encoding and its body decodes to what the handler wrote; otherwise
  the headers are the handler's and the body is what the handler wrote. With a status that allows no
  body (101, 204, 304) every write is refused and the body is empty.\<close>

theorem compress_transparent:
  assumes "comp_ok C" and "100 \<le> c" and "c \<le> 999"
    and "r = run_stack C accept (finished (reply kvs c bs))"
  shows "\<exists>h. sent r = Some (if interim_code c then 200 else c, h) \<and>
    interim r = (if interim_code c then [(c, h)] else []) \<and>
    (if negotiated accept \<noteq> [] \<and> compressible kvs
     then h = (map_of (rev kvs))(''Content-Encoding'' \<mapsto> negotiated accept)
     else h = map_of (rev kvs)) \<and>
    (if c = 101 \<or> c = 204 \<or> c = 304 then body r = []
     else if negotiated accept \<noteq> [] \<and> compressible kvs
       then decompress C (negotiated accept) (body r) = Some (concat bs)
     else body r = concat bs)"
proof -
  have v: "valid_code c" "sent_code c = (if interim_code c then 200 else c)"
    using assms(2,3) by (auto simp: valid_code_def sent_code_def)
  have b: "body_allowed (sent_code c) \<longleftrightarrow> \<not> (c = 101 \<or> c = 204 \<or> c = 304)"
    by (auto simp: v(2) body_allowed_def interim_code_def)
  have "negotiated accept \<noteq> [] \<Longrightarrow> negotiated accept \<in> {''gzip'', ''deflate''}"
    by (simp add: negotiated_def split: if_splits)
  with assms(1) have dec: "decompress C (negotiated accept) (comp_output C (negotiated accept) [] bs) = Some (concat bs)"
    if "negotiated accept \<noteq> []"
    using that unfolding comp_ok_def by blast
  obtain h where h: "sent r = Some (sent_code c, h)" "interim r = interims h c"
    "if negotiated accept \<noteq> [] \<and> compressible kvs
     then h = (map_of (rev kvs))(''Content-Encoding'' \<mapsto> negotiated accept) \<and>
       body r = (if body_allowed (sent_code c) then comp_output C (negotiated accept) [] bs else [])
     else h = map_of (rev kvs) \<and> body r = (if body_allowed (sent_code c) then concat bs else [])"
    using run_reply [OF v(1) assms(4)] by blast
  show ?thesis
  proof (cases "negotiated accept \<noteq> [] \<and> compressible kvs")
    case True
    with h(3) have "h = (map_of (rev kvs))(''Content-Encoding'' \<mapsto> negotiated accept)"
      "body r = (if body_allowed (sent_code c) then comp_output C (negotiated accept) [] bs else [])" by simp_all
    with True dec h(1,2) b v(2) show ?thesis by (intro exI [of _ h]) (simp add: interims_def)
  next
    case False
    with h(3) have "h = map_of (rev kvs)" "body r = (if body_allowed (sent_code c) then concat bs else [])"
      by (simp_all only: if_False)
    with False h(1,2) b v(2) show ?thesis by (intro exI [of _ h]) (simp only: interims_def if_False, simp)
  qed
qed

text \<open>A compressor for the witness: it writes nothing before it is closed, and then a mark and the text.\<close>

definition sample_comp :: complib where
  "sample_comp = \<lparr>comp_write = (\<lambda>_ _ _. []), comp_close = (\<lambda>e chunks. [hd e # concat chunks]),
     decompress = (\<lambda>e b. (case b of [] \<Rightarrow> None | x # r \<Rightarrow> if x = hd e then Some r else None))\<rparr>"

lemma sample_comp_ok: "comp_ok sample_comp"
proof -
  have "comp_output sample_comp e chunks bs = hd e # concat chunks @ concat bs" for e chunks bs
    by (induction bs arbitrary: chunks) (simp_all add: sample_comp_def)
  then show ?thesis by (simp add: comp_ok_def) (simp add: sample_comp_def)
qed

theorem compress_transparent_witness:
  "\<exists>h. sent (run_stack sample_comp ''br, gzip'' (finished (reply [(''Content-Type'', ''text/plain'')] 201 [''ab'', ''c''])))
      = Some (201, h) \<and> h ''Content-Encoding'' = Some ''gzip''"
proof -
  have "negotiated ''br, gzip'' = ''gzip''" "compressible [(''Content-Type'', ''text/plain'')]"
    by (simp_all add: negotiated_def compressible_def header_get_def)
  with compress_transparent [OF sample_comp_ok _ _ refl, of 201 "''br, gzip''" "[(''Content-Type'', ''text/plain'')]" "[''ab'', ''c'']"]
  show ?thesis by (auto simp: interim_code_def)
qed

text \<open>The status the client sees is the last one the handler set before it wrote, or 200 if it set
  none or an interim one (500 if it is not a status): for every sequence of calls in which no status follows a write.\<close>

theorem http_status:
  assumes "header_first as"
  shows "\<exists>h. sent (run_stack C accept (finished as)) = Some (sent_code (final_status 0 as), h)"
  by (rule run_stack_status [OF assms])

theorem http_status_witness:
  "\<exists>h. sent (run_stack sample_comp [] (finished [WriteHeader 401, WriteHeader 202])) = Some (202, h)"
  using http_status [of "[WriteHeader 401, WriteHeader 202]" sample_comp "[]"]
  by (simp add: sent_code_def valid_code_def interim_code_def)

end
