(* ===== verification/HttpServer.thy ===== *)
theory HttpServer
  imports EndToEnd Auth IPFilter Http
begin

text \<open>
  The http server: \<open>internal/http/server/handlers.go\<close>, the routes and the middleware chain
  of \<open>internal/http/server/server.go\<close>, and the request id, authentication and filter
  middlewares of \<open>internal/http/middleware\<close>. A request is served from its arrival to the
  response the client gets.
\<close>

section \<open>Requests, libraries and the state of the process\<close>

text \<open>
  \<open>r_head\<close> is \<open>Header.Get\<close> (empty when the header is missing) and \<open>r_body\<close> what reading the
  body gives: the bytes, and the error that ends it if any. \<open>r_now\<close> is the time the clock
  shows while the request is served, in nanoseconds.
\<close>

record hreq =
  r_method :: string
  r_path :: string
  r_head :: "string \<Rightarrow> string"
  r_cookie :: "string \<Rightarrow> string option"
  r_remote :: string
  r_body :: "string gret"
  r_now :: int
  r_ctx :: gctx

text \<open>
  What \<open>chi\<close> makes of a method and a path, given the registered routes: one of them, or its
  own answer, given inside the mounted subrouter (behind its middleware) or by the root.
\<close>

datatype chi_result = Route nat | SubrouterDefault "wact list" | RouterDefault "wact list"

text \<open>The two types of \<open>internal/http/model/model.go\<close>.\<close>

record http_ShortenRequest =
  RequestURL :: string

record http_ShortenResponse =
  Result :: string

record httplibs =
  gzipReader :: "string gret \<Rightarrow> gerr + string gret"
  zlibReader :: "string gret \<Rightarrow> gerr + string gret"
  unmarshalShortenRequest :: "string \<Rightarrow> gerr + http_ShortenRequest"
  unmarshalBatchURLs :: "string \<Rightarrow> gerr + BatchURL list"
  unmarshalStrings :: "string \<Rightarrow> gerr + string list"
  marshalStats :: "Stats option \<Rightarrow> gerr + string"
  marshalShortenResponse :: "http_ShortenResponse \<Rightarrow> gerr + string"
  marshalURLs :: "URL list \<Rightarrow> gerr + string"
  marshalBatchShortened :: "BatchShortened list \<Rightarrow> gerr + string"
  cookieString :: "string \<Rightarrow> string \<Rightarrow> string"
  chiFind :: "(string \<times> string) list \<Rightarrow> string \<Rightarrow> string \<Rightarrow> chi_result"
  compressor :: complib
  jwt :: jwtlib
  parseURL :: "string \<Rightarrow> gerr + purl"

text \<open>
  The state every request acts on: storage, delete queue and random numbers as in
  \<^typ>\<open>'s sys\<close>, the generator of request ids and the generator of user uuids.
\<close>

record 's world = "'s sys" +
  reqids :: "(gerr + string) src"
  uuids :: "(gerr + nat list) src"

record 's Server =
  libs :: httplibs
  storage :: "'s Storage"
  shortenerSvc :: Service
  authorizer :: Auth
  filterMW :: Filter
  trustRequestID :: bool

text \<open>A handler ends with what it did to its writer; \<^const>\<open>None\<close> when a \<open>Push\<close> never returns.\<close>

type_synonym 's handler = "hreq \<Rightarrow> 's world \<Rightarrow> (hout \<times> 's world) option"

section \<open>Reading the body\<close>

definition getContentReader :: "httplibs \<Rightarrow> hreq \<Rightarrow> gerr + string gret" where
  "getContentReader L r =
     (let ce = r_head r ''Content-Encoding'' in
      if ce = ''gzip'' then gzipReader L (r_body r)
      else if ce = ''deflate'' then zlibReader L (r_body r)
      else if ce = [] then Inr (r_body r)
      else Inl (Errmsg ''unknown content encoding''))"

definition readBody :: "httplibs \<Rightarrow> hreq \<Rightarrow> gerr + string" where
  "readBody L r = (case getContentReader L r of
     Inl e \<Rightarrow> Inl e
   | Inr (b, Some e) \<Rightarrow> Inl (Wrap ''cannot read body'' e)
   | Inr (b, None) \<Rightarrow> Inr b)"

section \<open>Handlers\<close>

definition json_reply :: "int \<Rightarrow> string \<Rightarrow> hout" where
  "json_reply code b = finished [SetHeader ''Content-Type'' ''application/json'', WriteHeader code, WriteBody b]"

definition http_Ping :: "'s Server \<Rightarrow> 's handler" where
  "http_Ping srv r w = (case status_Ping (storage srv) (sto w) of
     (Some e, s') \<Rightarrow> Some (finished [WriteHeader 500], w\<lparr>sto := s'\<rparr>)
   | (None, s') \<Rightarrow> Some (finished [WriteHeader 200], w\<lparr>sto := s'\<rparr>))"

text \<open>The error of \<open>statusSvc.Stats\<close> is logged and then overwritten by the one of \<open>Marshal\<close>.\<close>

definition http_Stats :: "'s Server \<Rightarrow> 's handler" where
  "http_Stats srv r w = (case GetRequestID (r_ctx r) of
     None \<Rightarrow> Some (finished [WriteHeader 500], w)
   | Some reqID \<Rightarrow> (case status_Stats (storage srv) (sto w) of
       ((stats, err), s') \<Rightarrow> (case marshalStats (libs srv) stats of
           Inl e \<Rightarrow> Some (finished [WriteHeader 500], w\<lparr>sto := s'\<rparr>)
         | Inr b \<Rightarrow> Some (finished [WriteHeader 200, WriteBody b], w\<lparr>sto := s'\<rparr>))))"

definition http_Resolve :: "'s Server \<Rightarrow> 's handler" where
  "http_Resolve srv r w = (case GetRequestID (r_ctx r) of
     None \<Rightarrow> Some (finished [WriteHeader 500], w)
   | Some reqID \<Rightarrow> (case Resolve (storage srv) (r_path r) (sto w) of
       Panic \<Rightarrow> Some (\<lparr>acts = [], panicked = True\<rparr>, w)
     | Ret ((redirect, Some err), s') \<Rightarrow> Some (finished [WriteHeader
         (if errors_is err (Sentinel ErrInvalidPath) then 400
          else if errors_is err (Sentinel ErrNotFound) then 404
          else if errors_is err (Sentinel ErrDeleted) then 410
          else 500)], w\<lparr>sto := s'\<rparr>)
     | Ret ((redirect, None), s') \<Rightarrow>
         Some (finished [SetHeader ''Location'' redirect, WriteHeader 307], w\<lparr>sto := s'\<rparr>)))"

text \<open>
  The status both shorten handlers choose for an error, and whether they go on to write a
  body; the sentinel stands first in \<open>errors.Is\<close>, as in the code.
\<close>

definition shorten_status :: "gerr option \<Rightarrow> int \<times> bool" where
  "shorten_status oe = (case oe of
     None \<Rightarrow> (201, True)
   | Some err \<Rightarrow>
       if errors_is (Sentinel ErrInvalidURL) err \<or> errors_is (Sentinel ErrUnsupportedURLScheme) err
       then (400, False)
       else if errors_is (Sentinel ErrConflict) err then (409, True)
       else (500, False))"

definition http_Shorten :: "'s Server \<Rightarrow> 's handler" where
  "http_Shorten srv r w = (case GetUserAndReqID (r_ctx r) of
     Inl e \<Rightarrow> Some (finished [WriteHeader 500], w)
   | Inr (u, reqID) \<Rightarrow>
       if r_head r ''Content-Type'' \<noteq> ''application/json'' then Some (finished [WriteHeader 400], w)
       else (case readBody (libs srv) r of
         Inl e \<Rightarrow> Some (finished [], w)
       | Inr bdy \<Rightarrow> (case unmarshalShortenRequest (libs srv) bdy of
           Inl e \<Rightarrow> Some (finished [WriteHeader 400], w)
         | Inr shortenReq \<Rightarrow>
            (case Shorten (parseURL (libs srv)) (storage srv) (shortenerSvc srv) u (RequestURL shortenReq) (sto w) (rnd w) of
              ((result, err), s', r') \<Rightarrow>
               (let w' = w\<lparr>sto := s', rnd := r'\<rparr>; (respStatus, go_on) = shorten_status err in
                if \<not> go_on then Some (finished [WriteHeader respStatus], w')
                else (case marshalShortenResponse (libs srv) \<lparr>Result = result\<rparr> of
                    Inl e \<Rightarrow> Some (finished [WriteHeader 500], w')
                  | Inr b \<Rightarrow> Some (json_reply respStatus b, w')))))))"

definition http_ShortenPlain :: "'s Server \<Rightarrow> 's handler" where
  "http_ShortenPlain srv r w = (case GetUserAndReqID (r_ctx r) of
     Inl e \<Rightarrow> Some (finished [WriteHeader 500], w)
   | Inr (u, reqID) \<Rightarrow> (case readBody (libs srv) r of
       Inl e \<Rightarrow> Some (finished [], w)
     | Inr bdy \<Rightarrow>
        (case Shorten (parseURL (libs srv)) (storage srv) (shortenerSvc srv) u bdy (sto w) (rnd w) of
          ((result, err), s', r') \<Rightarrow>
           (let w' = w\<lparr>sto := s', rnd := r'\<rparr>; (respStatus, go_on) = shorten_status err in
            if \<not> go_on then Some (finished [WriteHeader respStatus], w')
            else Some (finished [SetHeader ''Content-Type'' ''text/plain'', WriteHeader respStatus,
              WriteBody result], w')))))"

definition http_GetAll :: "'s Server \<Rightarrow> 's handler" where
  "http_GetAll srv r w = (case GetUserAndReqID (r_ctx r) of
     Inl e \<Rightarrow> Some (finished [WriteHeader 500], w)
   | Inr (u, reqID) \<Rightarrow> (case GetAll (storage srv) (shortenerSvc srv) u (sto w) of
       ((urls, Some err), s') \<Rightarrow> Some (finished [WriteHeader
         (if errors_is err (Sentinel ErrNotFound) then 204
          else if errors_is err (Sentinel ErrUnauthorized) then 401
          else 500)], w\<lparr>sto := s'\<rparr>)
     | ((urls, None), s') \<Rightarrow> (case marshalURLs (libs srv) urls of
           Inl e \<Rightarrow> Some (finished [WriteHeader 500], w\<lparr>sto := s'\<rparr>)
         | Inr b \<Rightarrow> Some (json_reply 200 b, w\<lparr>sto := s'\<rparr>))))"

definition http_ShortenBatch :: "'s Server \<Rightarrow> 's handler" where
  "http_ShortenBatch srv r w = (case GetUserAndReqID (r_ctx r) of
     Inl e \<Rightarrow> Some (finished [WriteHeader 500], w)
   | Inr (u, reqID) \<Rightarrow>
       if r_head r ''Content-Type'' \<noteq> ''application/json'' then Some (finished [WriteHeader 400], w)
       else (case readBody (libs srv) r of
         Inl e \<Rightarrow> Some (finished [], w)
       | Inr bdy \<Rightarrow> (case unmarshalBatchURLs (libs srv) bdy of
           Inl e \<Rightarrow> Some (finished [WriteHeader 400], w)
         | Inr batch \<Rightarrow>
            (case ShortenBatch (storage srv) (shortenerSvc srv) u batch (sto w) (rnd w) of
              ((shortURLs, Some err), s', r') \<Rightarrow>
                Some (finished [WriteHeader 500], w\<lparr>sto := s', rnd := r'\<rparr>)
            | ((shortURLs, None), s', r') \<Rightarrow> (case marshalBatchShortened (libs srv) shortURLs of
                Inl e \<Rightarrow> Some (finished [WriteHeader 500], w\<lparr>sto := s', rnd := r'\<rparr>)
              | Inr b \<Rightarrow> Some (json_reply 201 b, w\<lparr>sto := s', rnd := r'\<rparr>))))))"

text \<open>
  After the switch over an error of the service there is no return: a second status follows.
  \<open>DeleteBatch\<close> stamps the requests with the time in microseconds.
\<close>

definition http_DeleteBatch :: "'s Server \<Rightarrow> 's handler" where
  "http_DeleteBatch srv r w = (case GetUserAndReqID (r_ctx r) of
     Inl e \<Rightarrow> Some (finished [WriteHeader 500], w)
   | Inr (u, reqID) \<Rightarrow>
       if r_head r ''Content-Type'' \<noteq> ''application/json'' then Some (finished [WriteHeader 400], w)
       else (case readBody (libs srv) r of
         Inl e \<Rightarrow> Some (finished [], w)
       | Inr bdy \<Rightarrow> (case unmarshalStrings (libs srv) bdy of
           Inl e \<Rightarrow> Some (finished [], w)
         | Inr shorts \<Rightarrow> (case DeleteBatch (r_now r div 1000) u shorts (queue w) of
             None \<Rightarrow> None
           | Some (oe, f) \<Rightarrow> Some (finished ((case oe of
                 None \<Rightarrow> []
               | Some err \<Rightarrow> [WriteHeader
                   (if errors_is err (Sentinel ErrUnauthorized) then 401
                    else if errors_is err (Sentinel ErrEmptyBatch) then 400
                    else 500)]) @ [WriteHeader 202]), w\<lparr>queue := f\<rparr>)))))"

section \<open>Middlewares\<close>

text \<open>
  \<open>requestid.go\<close>: the incoming id when it is trusted and not empty, or a new one. This
  middleware is the outermost: when no id can be made, it answers on the plain writer.
\<close>

definition requestid_mw :: "'s Server \<Rightarrow> hreq \<Rightarrow> 's world \<Rightarrow> (gerr + hreq) \<times> 's world" where
  "requestid_mw srv r w =
     (if trustRequestID srv \<and> r_head r ''X-Request-ID'' \<noteq> []
      then (Inr (r\<lparr>r_ctx := SetRequestID (r_ctx r) (r_head r ''X-Request-ID'')\<rparr>), w)
      else (case next_src (reqids w) of
          (Inl e, g) \<Rightarrow> (Inl e, w\<lparr>reqids := g\<rparr>)
        | (Inr u, g) \<Rightarrow> (Inr (r\<lparr>r_ctx := SetRequestID (r_ctx r) u\<rparr>), w\<lparr>reqids := g\<rparr>)))"

text \<open>\<open>auth.go\<close>: the user of the session cookie, or a new one whose token is set as a cookie.\<close>

definition sessionCookieName :: string where
  "sessionCookieName = ''shortySessID''"

definition createOrParseUserFromRequest ::
  "'s Server \<Rightarrow> hreq \<Rightarrow> (gerr + nat list) src \<Rightarrow> (gerr + user \<times> string) \<times> (gerr + nat list) src" where
  "createOrParseUserFromRequest srv r g = (case r_cookie r sessionCookieName of
     None \<Rightarrow> CreateUserAndToken (jwt (libs srv)) (authorizer srv) (r_now r) g
   | Some v \<Rightarrow> CreateOrParseUserFromJWTString (jwt (libs srv)) (authorizer srv) (r_now r) v g)"

definition setCookie :: "'s Server \<Rightarrow> string \<Rightarrow> wact list" where
  "setCookie srv token =
     (if token \<noteq> [] then [SetHeader ''Set-Cookie'' (cookieString (libs srv) sessionCookieName token)] else [])"

definition auth_mw :: "'s Server \<Rightarrow> 's handler \<Rightarrow> 's handler" where
  "auth_mw srv h r w = (case GetRequestID (r_ctx r) of
     None \<Rightarrow> Some (finished [WriteHeader 500], w)
   | Some requestID \<Rightarrow> (case createOrParseUserFromRequest srv r (uuids w) of
       (Inl e, g) \<Rightarrow> Some (finished [WriteHeader 500], w\<lparr>uuids := g\<rparr>)
     | (Inr (u, token), g) \<Rightarrow>
         (case h (r\<lparr>r_ctx := SetUserContext (r_ctx r) u\<rparr>) (w\<lparr>uuids := g\<rparr>) of
            None \<Rightarrow> None
          | Some (out, w') \<Rightarrow> Some (out\<lparr>acts := setCookie srv token @ acts out\<rparr>, w'))))"

text \<open>\<open>filter.go\<close>; \<open>block\<close> is set when there are no subnets.\<close>

definition filter_mw :: "'s Server \<Rightarrow> 's handler \<Rightarrow> 's handler" where
  "filter_mw srv h r w =
     (if Subnets (filterMW srv) \<noteq> [] \<and>
        CheckRequestParams (filterMW srv) (r_remote r) (r_head r ''X-Real-IP'') (r_head r ''X-Forwarded-For'')
      then h r w
      else Some (finished [WriteHeader 403], w))"

section \<open>Routes and the whole chain\<close>

text \<open>\<open>registerHandlers\<close>: the routes in the order they are registered, with what stands before each handler.\<close>

definition routes :: "'s Server \<Rightarrow> ((string \<times> string) \<times> 's handler) list" where
  "routes srv = [
     ((''GET'', ''/api/user/urls''), auth_mw srv (http_GetAll srv)),
     ((''DELETE'', ''/api/user/urls''), auth_mw srv (http_DeleteBatch srv)),
     ((''POST'', ''/api/shorten''), auth_mw srv (http_Shorten srv)),
     ((''POST'', ''/api/shorten/batch''), auth_mw srv (http_ShortenBatch srv)),
     ((''POST'', ''/''), auth_mw srv (http_ShortenPlain srv)),
     ((''GET'', ''/{path}''), http_Resolve srv),
     ((''GET'', ''/ping''), http_Ping srv),
     ((''GET'', ''/api/internal/stats''), filter_mw srv (http_Stats srv))]"

definition patterns :: "(string \<times> string) list" where
  "patterns = [(''GET'', ''/api/user/urls''), (''DELETE'', ''/api/user/urls''), (''POST'', ''/api/shorten''),
     (''POST'', ''/api/shorten/batch''), (''POST'', ''/''), (''GET'', ''/{path}''), (''GET'', ''/ping''),
     (''GET'', ''/api/internal/stats'')]"

definition route :: "'s Server \<Rightarrow> 's handler" where
  "route srv r w = (case chiFind (libs srv) (map fst (routes srv)) (r_method r) (r_path r) of
     Route i \<Rightarrow> snd (routes srv ! i) r w
   | SubrouterDefault as \<Rightarrow> auth_mw srv (\<lambda>r w. Some (finished as, w)) r w
   | RouterDefault as \<Rightarrow> Some (finished as, w))"

text \<open>\<open>getRouterWithMiddleware\<close>: request id, then logging around compression around the routes.\<close>

definition http_serve :: "'s Server \<Rightarrow> hreq \<Rightarrow> 's world \<Rightarrow> (response \<times> 's world) option" where
  "http_serve srv r w = (case requestid_mw srv r w of
     (Inl e, w1) \<Rightarrow> Some (resp_WriteHeader new_response 500, w1)
   | (Inr r1, w1) \<Rightarrow> (case route srv r1 w1 of
       None \<Rightarrow> None
     | Some (out, w2) \<Rightarrow> Some (run_stack (compressor (libs srv)) (r_head r1 ''Accept-Encoding'') out, w2)))"

section \<open>Facts\<close>

lemma patterns_routes: "map fst (routes srv) = patterns"
  by (simp add: routes_def patterns_def)

text \<open>
  What the code relies on of the router: every route is found by the requests its pattern
  stands for, a parameter matching one path segment that is not the name of a fixed route,
  and only by requests with the method of the route.
\<close>

definition chi_ok :: "httplibs \<Rightarrow> bool" where
  "chi_ok L \<longleftrightarrow>
     (\<forall>i < length patterns. i \<noteq> 5 \<longrightarrow>
        chiFind L patterns (fst (patterns ! i)) (snd (patterns ! i)) = Route i) \<and>
     (\<forall>p. p \<noteq> [] \<longrightarrow> CHR ''/'' \<notin> set p \<longrightarrow> p \<noteq> ''ping'' \<longrightarrow>
        chiFind L patterns ''GET'' (CHR ''/'' # p) = Route 5) \<and>
     (\<forall>m p i. chiFind L patterns m p = Route i \<longrightarrow> i < length patterns \<and> fst (patterns ! i) = m)"

lemma chi_fixed:
  assumes "chi_ok L"
  shows "chiFind L patterns ''GET'' ''/api/user/urls'' = Route 0"
    and "chiFind L patterns ''DELETE'' ''/api/user/urls'' = Route 1"
    and "chiFind L patterns ''POST'' ''/api/shorten'' = Route 2"
    and "chiFind L patterns ''POST'' ''/api/shorten/batch'' = Route 3"
    and "chiFind L patterns ''POST'' ''/'' = Route 4"
    and "chiFind L patterns ''GET'' ''/ping'' = Route 6"
    and "chiFind L patterns ''GET'' ''/api/internal/stats'' = Route 7"
proof -
  have r: "i < length patterns \<Longrightarrow> i \<noteq> 5 \<Longrightarrow>
      chiFind L patterns (fst (patterns ! i)) (snd (patterns ! i)) = Route i" for i
    using assms by (simp add: chi_ok_def)
  show "chiFind L patterns ''GET'' ''/api/user/urls'' = Route 0" using r [of 0] by (simp add: patterns_def)
  show "chiFind L patterns ''DELETE'' ''/api/user/urls'' = Route 1" using r [of 1] by (simp add: patterns_def)
  show "chiFind L patterns ''POST'' ''/api/shorten'' = Route 2" using r [of 2] by (simp add: patterns_def)
  show "chiFind L patterns ''POST'' ''/api/shorten/batch'' = Route 3" using r [of 3] by (simp add: patterns_def)
  show "chiFind L patterns ''POST'' ''/'' = Route 4" using r [of 4] by (simp add: patterns_def)
  show "chiFind L patterns ''GET'' ''/ping'' = Route 6" using r [of 6] by (simp add: patterns_def)
  show "chiFind L patterns ''GET'' ''/api/internal/stats'' = Route 7" using r [of 7] by (simp add: patterns_def)
qed

lemma chi_param:
  "chi_ok L \<Longrightarrow> p \<noteq> [] \<Longrightarrow> CHR ''/'' \<notin> set p \<Longrightarrow> p \<noteq> ''ping'' \<Longrightarrow>
     chiFind L patterns ''GET'' (CHR ''/'' # p) = Route 5"
  by (simp add: chi_ok_def)

text \<open>The request that reaches the routes, once an id is there.\<close>

lemma requestid_mw_cases:
  assumes "requestid_mw srv r w = (x, w1)"
  shows "\<exists>g. w1 = w\<lparr>reqids := g\<rparr> \<and> (\<forall>r1. x = Inr r1 \<longrightarrow> (\<exists>i. r1 = r\<lparr>r_ctx := SetRequestID (r_ctx r) i\<rparr>))"
proof (cases "trustRequestID srv \<and> r_head r ''X-Request-ID'' \<noteq> []")
  case True
  with assms show ?thesis by (auto simp: requestid_mw_def intro!: exI [of _ "reqids w"])
next
  case False
  with assms show ?thesis by (auto simp: requestid_mw_def next_src_def split: sum.splits)
qed

text \<open>The service answers unless the generator of request ids fails.\<close>

definition has_id :: "'s Server \<Rightarrow> hreq \<Rightarrow> 's world \<Rightarrow> bool" where
  "has_id srv r w \<longleftrightarrow> trustRequestID srv \<and> r_head r ''X-Request-ID'' \<noteq> [] \<or> \<not> isl (reqids w 0)"

lemma http_serve_routed:
  assumes "has_id srv r w"
  shows "\<exists>i g. http_serve srv r w =
    (case route srv (r\<lparr>r_ctx := SetRequestID (r_ctx r) i\<rparr>) (w\<lparr>reqids := g\<rparr>) of
       None \<Rightarrow> None
     | Some (out, w2) \<Rightarrow> Some (run_stack (compressor (libs srv)) (r_head r ''Accept-Encoding'') out, w2))"
proof -
  obtain x w1 where m: "requestid_mw srv r w = (x, w1)" by (cases "requestid_mw srv r w")
  moreover have "\<not> isl x" using assms m
    by (auto simp: has_id_def requestid_mw_def next_src_def split: sum.splits if_splits)
  then obtain r1 where "x = Inr r1" by (cases x) auto
  moreover from requestid_mw_cases [OF m] this obtain g i where
    "w1 = w\<lparr>reqids := g\<rparr>" "r1 = r\<lparr>r_ctx := SetRequestID (r_ctx r) i\<rparr>" by auto
  ultimately show ?thesis by (intro exI [of _ i] exI [of _ g]) (simp add: http_serve_def split: option.split)
qed

lemma nth_routes [simp]:
  "snd (routes srv ! 0) = auth_mw srv (http_GetAll srv)"
  "snd (routes srv ! 1) = auth_mw srv (http_DeleteBatch srv)"
  "snd (routes srv ! Suc 0) = auth_mw srv (http_DeleteBatch srv)"
  "snd (routes srv ! 2) = auth_mw srv (http_Shorten srv)"
  "snd (routes srv ! 3) = auth_mw srv (http_ShortenBatch srv)"
  "snd (routes srv ! 4) = auth_mw srv (http_ShortenPlain srv)"
  "snd (routes srv ! 5) = http_Resolve srv"
  "snd (routes srv ! 6) = http_Ping srv"
  "snd (routes srv ! 7) = filter_mw srv (http_Stats srv)"
  by (simp_all add: routes_def)

text \<open>A request to a route behind authentication, once its user is known.\<close>

lemma http_serve_auth:
  assumes "has_id srv r w" and "chiFind (libs srv) patterns (r_method r) (r_path r) = Route i"
    and "snd (routes srv ! i) = auth_mw srv h"
    and "createOrParseUserFromRequest srv r (uuids w) = (Inr (u, tok), g)"
  obtains rid g' where "http_serve srv r w =
    (case h (r\<lparr>r_ctx := SetUserContext (SetRequestID (r_ctx r) rid) u\<rparr>) (w\<lparr>reqids := g', uuids := g\<rparr>) of
       None \<Rightarrow> None
     | Some (out, w2) \<Rightarrow> Some (run_stack (compressor (libs srv)) (r_head r ''Accept-Encoding'')
         (out\<lparr>acts := setCookie srv tok @ acts out\<rparr>), w2))"
proof -
  from http_serve_routed [OF assms(1)] obtain rid g' where s: "http_serve srv r w =
      (case route srv (r\<lparr>r_ctx := SetRequestID (r_ctx r) rid\<rparr>) (w\<lparr>reqids := g'\<rparr>) of
         None \<Rightarrow> None
       | Some (out, w2) \<Rightarrow> Some (run_stack (compressor (libs srv)) (r_head r ''Accept-Encoding'') out, w2))" by blast
  have "createOrParseUserFromRequest srv (r\<lparr>r_ctx := c\<rparr>) (uuids w) = (Inr (u, tok), g)" for c
    using assms(4) by (simp add: createOrParseUserFromRequest_def cong: option.case_cong)
  then have "route srv (r\<lparr>r_ctx := SetRequestID (r_ctx r) rid\<rparr>) (w\<lparr>reqids := g'\<rparr>) =
      (case h (r\<lparr>r_ctx := SetUserContext (SetRequestID (r_ctx r) rid) u\<rparr>) (w\<lparr>reqids := g', uuids := g\<rparr>) of
         None \<Rightarrow> None
       | Some (out, w2) \<Rightarrow> Some (out\<lparr>acts := setCookie srv tok @ acts out\<rparr>, w2))"
    using assms(2,3) by (simp add: route_def patterns_routes auth_mw_def)
  with s show ?thesis by (intro that [of rid g']) (auto split: option.splits)
qed

lemma GetUserAndReqID_set [simp]: "GetUserAndReqID (SetUserContext (SetRequestID c i) u) = Inr (u, i)"
  by (simp add: GetUserAndReqID_def)

text \<open>The headers set before the reply of the handler.\<close>

definition cookies :: "'s Server \<Rightarrow> string \<Rightarrow> (string \<times> string) list" where
  "cookies srv tok = (if tok \<noteq> [] then [(''Set-Cookie'', cookieString (libs srv) sessionCookieName tok)] else [])"

lemma finished_simps [simp]: "acts (finished as) = as" "panicked (finished as) = False"
  "(finished as)\<lparr>acts := bs\<rparr> = finished bs"
  by (simp_all add: finished_def)

lemma setCookie_reply:
  "setCookie srv tok @ [WriteHeader c] = reply (cookies srv tok) c []"
  "setCookie srv tok @ [SetHeader k v, WriteHeader c, WriteBody b] = reply (cookies srv tok @ [(k, v)]) c [b]"
  "[WriteHeader c] = reply [] c []"
  "[SetHeader k v, WriteHeader c] = reply [(k, v)] c []"
  by (simp_all add: setCookie_def cookies_def reply_def)

lemma reply_status:
  assumes "valid_code c"
  shows "\<exists>h. sent (run_stack C accept (finished (reply kvs c bs))) = Some (sent_code c, h)"
  using run_reply [OF assms HOL.refl, of C accept kvs bs] by blast

lemma reply_plain:
  assumes "valid_code c" and "\<not> compressible kvs"
  shows "sent (run_stack C accept (finished (reply kvs c bs))) = Some (sent_code c, map_of (rev kvs))"
    and "body (run_stack C accept (finished (reply kvs c bs))) = (if body_allowed (sent_code c) then concat bs else [])"
  using run_reply [OF assms(1) HOL.refl, of C accept kvs bs] assms(2) by auto

lemma not_compressible [simp]: "\<not> compressible []" "\<not> compressible [(''Location'', v)]"
  "\<not> compressible (cookies srv tok)"
  by (simp_all add: compressible_def header_get_def cookies_def)

lemma code_simps [simp]:
  "valid_code 200" "valid_code 202" "valid_code 307" "valid_code 400" "valid_code 404" "valid_code 410"
  "valid_code 500" "valid_code 403" "valid_code 401" "valid_code 201" "valid_code 409"
  "sent_code 200 = 200" "sent_code 202 = 202" "sent_code 307 = 307" "sent_code 400 = 400"
  "sent_code 404 = 404" "sent_code 410 = 410" "sent_code 500 = 500" "sent_code 403 = 403"
  "sent_code 401 = 401" "sent_code 201 = 201" "sent_code 409 = 409"
  by (simp_all add: valid_code_def sent_code_def interim_code_def)

text \<open>Statuses with which a body is sent.\<close>

definition bodied :: "int \<Rightarrow> bool" where
  "bodied c \<longleftrightarrow> valid_code c \<and> body_allowed (sent_code c)"

lemma bodied_simps [simp]: "bodied 200" "bodied 201" "bodied 400" "bodied 409" "bodied 500"
  by (simp_all add: bodied_def body_allowed_def)

context url_storage
begin

lemma http_resolve:
  assumes "ok (sto w)" and "storage srv = st" and "chi_ok (libs srv)" and "has_id srv r w"
    and "r_method r = ''GET''" and "r_path r = CHR ''/'' # p"
    and "p \<noteq> []" and "CHR ''/'' \<notin> set p" and "p \<noteq> ''ping''"
  shows "\<exists>resp w'. http_serve srv r w = Some (resp, w') \<and> body resp = [] \<and>
    ok (sto w') \<and> view (sto w') = view (sto w) \<and> queue w' = queue w \<and>
    sent resp = Some (if \<not> list_all pathChar p then (400, \<lambda>_. None) else
      case view (sto w) p of
        None \<Rightarrow> (404, \<lambda>_. None)
      | Some en \<Rightarrow> if e_deleted en then (410, \<lambda>_. None) else (307, [''Location'' \<mapsto> e_orig en]))"
proof -
  from http_serve_routed [OF assms(4)] obtain i g where s: "http_serve srv r w =
      (case route srv (r\<lparr>r_ctx := SetRequestID (r_ctx r) i\<rparr>) (w\<lparr>reqids := g\<rparr>) of
         None \<Rightarrow> None
       | Some (out, w2) \<Rightarrow> Some (run_stack (compressor (libs srv)) (r_head r ''Accept-Encoding'') out, w2))" by blast
  have rt: "route srv (r\<lparr>r_ctx := SetRequestID (r_ctx r) i\<rparr>) (w\<lparr>reqids := g\<rparr>) =
      http_Resolve srv (r\<lparr>r_ctx := SetRequestID (r_ctx r) i\<rparr>) (w\<lparr>reqids := g\<rparr>)"
    using assms(5-9) chi_param [OF assms(3)] by (simp add: route_def patterns_routes)
  obtain x where x: "Resolve st (CHR ''/'' # p) (sto w) = Ret x"
    by (cases "Resolve st (CHR ''/'' # p) (sto w)")
      (auto simp: Resolve_def split: option.splits prod.splits)
  obtain red oe s' where xx: "x = ((red, oe), s')" by (metis surj_pair)
  note st' = resolve_state [OF assms(1) x [unfolded xx]]
  note run = reply_plain [where bs = "[]" and accept = "r_head r ''Accept-Encoding''" and C = "compressor (libs srv)"]
  show ?thesis
  proof (cases oe)
    case None
    then have v: "list_all pathChar p" "\<exists>en. view (sto w) p = Some en \<and> \<not> e_deleted en \<and> red = e_orig en"
      using resolve_result [OF assms(1), of p] x xx by (auto simp: Let_def split: option.splits if_splits)
    have "http_serve srv r w = Some (run_stack (compressor (libs srv)) (r_head r ''Accept-Encoding'')
        (finished (reply [(''Location'', red)] 307 [])), w\<lparr>reqids := g, sto := s'\<rparr>)"
      using x None assms(2,6) by (simp add: s rt http_Resolve_def xx reply_def)
    with v st' run [of 307 "[(''Location'', red)]"] show ?thesis by auto
  next
    case (Some err)
    let ?c = "if errors_is err (Sentinel ErrInvalidPath) then 400
          else if errors_is err (Sentinel ErrNotFound) then 404
          else if errors_is err (Sentinel ErrDeleted) then 410 else 500 :: int"
    have "http_serve srv r w = Some (run_stack (compressor (libs srv)) (r_head r ''Accept-Encoding'')
        (finished (reply [] ?c [])), w\<lparr>reqids := g, sto := s'\<rparr>)"
      using x Some assms(2,6) by (simp add: s rt http_Resolve_def xx reply_def)
    moreover have "?c = (if \<not> list_all pathChar p then 400 else if view (sto w) p = None then 404 else 410)"
      "list_all pathChar p \<Longrightarrow> view (sto w) p = Some en \<Longrightarrow> e_deleted en" for en
      using resolve_result [OF assms(1), of p] x xx Some by (auto simp: Let_def split: option.splits if_splits)
    ultimately show ?thesis using st' run [of 400 "[]"] run [of 404 "[]"] run [of 410 "[]"]
      by (auto split: option.splits)
  qed
qed

end

section \<open>What a client receives\<close>

lemma readBody_ctx: "readBody L (r\<lparr>r_ctx := c\<rparr>) = readBody L r"
proof -
  have "getContentReader L (r\<lparr>r_ctx := c\<rparr>) = getContentReader L r"
    unfolding getContentReader_def by (simp add: Let_def)
  then show ?thesis unfolding readBody_def by simp
qed

text \<open>The body as the client reads it, decoded according to the response's own label.\<close>

definition received :: "complib \<Rightarrow> response \<Rightarrow> string option" where
  "received C resp = (case sent resp of
     None \<Rightarrow> None
   | Some (_, h) \<Rightarrow> (case h ''Content-Encoding'' of
       None \<Rightarrow> Some (body resp)
     | Some e \<Rightarrow> decompress C e (body resp)))"

lemma received_reply:
  assumes "comp_ok C" and "bodied c" and "\<forall>(k, v) \<in> set kvs. k \<noteq> ''Content-Encoding''"
  shows "received C (run_stack C accept (finished (reply kvs c bs))) = Some (concat bs)"
proof -
  have n: "negotiated accept \<noteq> [] \<Longrightarrow> negotiated accept \<in> {''gzip'', ''deflate''}"
    by (simp add: negotiated_def split: if_splits)
  have "map_of (rev kvs) ''Content-Encoding'' = None" using assms(3) by (auto simp: map_of_eq_None_iff)
  moreover have "valid_code c" "body_allowed (sent_code c)" using assms(2) by (simp_all add: bodied_def)
  ultimately show ?thesis
    using run_reply [OF \<open>valid_code c\<close> HOL.refl, of C accept kvs bs] n assms(1)
    by (cases "negotiated accept \<noteq> [] \<and> compressible kvs") (auto simp: received_def comp_ok_def)
qed

lemma cookies_encoding: "(k, v) \<in> set (cookies srv tok) \<Longrightarrow> k \<noteq> ''Content-Encoding''"
  by (auto simp: cookies_def split: if_splits)

text \<open>A reply without status and body is a bare 200.\<close>

lemma empty_reply_status:
  "\<exists>h. sent (run_stack C accept (finished (setCookie srv tok))) = Some (200, h)"
proof -
  have "header_first (setCookie srv tok)" "final_status 0 (setCookie srv tok) = 0"
    by (simp_all add: setCookie_def)
  from run_stack_status [OF this(1), of C accept] this(2) show ?thesis by (simp add: sent_code_def)
qed

text \<open>A request that cannot be given an id or a user is answered with status 500.\<close>

lemma http_serve_no_id:
  assumes "\<not> has_id srv r w" and "http_serve srv r w = Some (resp, w')"
  shows "\<exists>h. sent resp = Some (500, h)"
  using assms
  by (auto simp: has_id_def http_serve_def requestid_mw_def next_src_def resp_WriteHeader_def new_response_def
      split: sum.splits)

lemma http_serve_no_user:
  assumes "has_id srv r w" and "chiFind (libs srv) patterns (r_method r) (r_path r) = Route i"
    and "snd (routes srv ! i) = auth_mw srv h" and "createOrParseUserFromRequest srv r (uuids w) = (Inl e, g)"
    and "http_serve srv r w = Some (resp, w')"
  shows "\<exists>h. sent resp = Some (500, h)"
proof -
  have "createOrParseUserFromRequest srv (r\<lparr>r_ctx := c\<rparr>) (uuids w) = (Inl e, g)" for c
    using assms(4) by (simp add: createOrParseUserFromRequest_def cong: option.case_cong)
  with http_serve_routed [OF assms(1)] assms(2,3,5) reply_status [of 500 "compressor (libs srv)" "r_head r ''Accept-Encoding''" "[]" "[]"]
  show ?thesis by (auto simp: route_def patterns_routes auth_mw_def reply_def)
qed

section \<open>Shortening over http\<close>

text \<open>What \<open>POST /\<close> does once the user is known and the body is read.\<close>

definition plain_outcome :: "'s Server \<Rightarrow> string \<Rightarrow> string gret \<Rightarrow> wact list" where
  "plain_outcome srv tok res = (case shorten_status (snd res) of
     (c, False) \<Rightarrow> reply (cookies srv tok) c []
   | (c, True) \<Rightarrow> reply (cookies srv tok @ [(''Content-Type'', ''text/plain'')]) c [fst res])"

lemma http_plain:
  assumes "has_id srv r w" and "chi_ok (libs srv)" and "r_method r = ''POST''" and "r_path r = ''/''"
    and "createOrParseUserFromRequest srv r (uuids w) = (Inr (u, tok), g)"
    and "readBody (libs srv) r = Inr bdy"
    and "Shorten (parseURL (libs srv)) (storage srv) (shortenerSvc srv) u bdy (sto w) (rnd w) = (res, s', r')"
  shows "\<exists>g'. http_serve srv r w = Some (run_stack (compressor (libs srv)) (r_head r ''Accept-Encoding'')
     (finished (plain_outcome srv tok res)), w\<lparr>reqids := g', uuids := g, sto := s', rnd := r'\<rparr>)"
proof -
  have f: "chiFind (libs srv) patterns (r_method r) (r_path r) = Route 4"
    using chi_fixed(5) [OF assms(2)] assms(3,4) by simp
  obtain rid g' where s: "http_serve srv r w =
    (case http_ShortenPlain srv (r\<lparr>r_ctx := SetUserContext (SetRequestID (r_ctx r) rid) u\<rparr>)
        (w\<lparr>reqids := g', uuids := g\<rparr>) of
       None \<Rightarrow> None
     | Some (out, w2) \<Rightarrow> Some (run_stack (compressor (libs srv)) (r_head r ''Accept-Encoding'')
         (out\<lparr>acts := setCookie srv tok @ acts out\<rparr>), w2))"
    by (rule http_serve_auth [OF assms(1) f _ assms(5)]) simp_all
  have "readBody (libs srv) (r\<lparr>r_ctx := c\<rparr>) = Inr bdy" for c
    using assms(6) by (simp add: readBody_ctx)
  moreover obtain c b where "shorten_status (snd res) = (c, b)" by (cases "shorten_status (snd res)")
  moreover obtain served oe where "res = (served, oe)" by (cases res)
  ultimately show ?thesis using assms(7)
    by (intro exI [of _ g'])
      (auto simp: s http_ShortenPlain_def plain_outcome_def Let_def setCookie_def cookies_def reply_def)
qed

lemma http_plain_unread:
  assumes "has_id srv r w" and "chi_ok (libs srv)" and "r_method r = ''POST''" and "r_path r = ''/''"
    and "createOrParseUserFromRequest srv r (uuids w) = (Inr (u, tok), g)"
    and "readBody (libs srv) r = Inl e" and "http_serve srv r w = Some (resp, w')"
  shows "\<exists>h. sent resp = Some (200, h)"
proof -
  have f: "chiFind (libs srv) patterns (r_method r) (r_path r) = Route 4"
    using chi_fixed(5) [OF assms(2)] assms(3,4) by simp
  obtain rid g' where s: "http_serve srv r w =
    (case http_ShortenPlain srv (r\<lparr>r_ctx := SetUserContext (SetRequestID (r_ctx r) rid) u\<rparr>)
        (w\<lparr>reqids := g', uuids := g\<rparr>) of
       None \<Rightarrow> None
     | Some (out, w2) \<Rightarrow> Some (run_stack (compressor (libs srv)) (r_head r ''Accept-Encoding'')
         (out\<lparr>acts := setCookie srv tok @ acts out\<rparr>), w2))"
    by (rule http_serve_auth [OF assms(1) f _ assms(5)]) simp_all
  have "readBody (libs srv) (r\<lparr>r_ctx := c\<rparr>) = Inl e" for c
    using assms(6) by (simp add: readBody_ctx)
  with s assms(7) empty_reply_status show ?thesis by (auto simp: http_ShortenPlain_def)
qed

lemma shorten_status_201: "shorten_status oe = (201, b) \<longleftrightarrow> oe = None \<and> b"
  by (auto simp: shorten_status_def split: option.splits)

lemma shorten_status_valid: "shorten_status oe = (c, b) \<Longrightarrow> valid_code c \<and> sent_code c = c \<and> bodied c"
  by (auto simp: shorten_status_def split: option.splits if_splits)

lemma plain_outcome_status:
  assumes "shorten_status (snd res) = (c, b)"
  shows "\<exists>h. sent (run_stack C accept (finished (plain_outcome srv tok res))) = Some (c, h)"
  using shorten_status_valid [OF assms] assms reply_status [of c C accept]
  by (auto simp: plain_outcome_def split: bool.splits)

text \<open>A created link: everything a status 201 on \<open>POST /\<close> tells.\<close>

lemma http_plain_201:
  assumes "chi_ok (libs srv)" and "comp_ok (compressor (libs srv))"
    and "r_method r = ''POST''" and "r_path r = ''/''"
    and "http_serve srv r w = Some (resp, w1)" and "sent resp = Some (201, h)"
  obtains u tok g bdy served r' where "createOrParseUserFromRequest srv r (uuids w) = (Inr (u, tok), g)"
    "readBody (libs srv) r = Inr bdy" "queue w1 = queue w" "rnd w1 = r'"
    "Shorten (parseURL (libs srv)) (storage srv) (shortenerSvc srv) u bdy (sto w) (rnd w) = ((served, None), sto w1, r')"
    "received (compressor (libs srv)) resp = Some served"
proof -
  have f: "chiFind (libs srv) patterns (r_method r) (r_path r) = Route 4"
    using chi_fixed(5) [OF assms(1)] assms(3,4) by simp
  have i: "has_id srv r w" using http_serve_no_id assms(5,6) by fastforce
  obtain uu g where c: "createOrParseUserFromRequest srv r (uuids w) = (uu, g)"
    by (cases "createOrParseUserFromRequest srv r (uuids w)")
  have "\<not> isl uu" using http_serve_no_user [OF i f nth_routes(6) _ assms(5)] c assms(6) by (cases uu) auto
  then obtain u tok where u: "createOrParseUserFromRequest srv r (uuids w) = (Inr (u, tok), g)"
    using c by (cases uu) auto
  have "\<not> isl (readBody (libs srv) r)"
    using http_plain_unread [OF i assms(1,3,4) u _ assms(5)] assms(6) by (cases "readBody (libs srv) r") auto
  then obtain bdy where b: "readBody (libs srv) r = Inr bdy" by (cases "readBody (libs srv) r") auto
  obtain served oe s' r' where sh: "Shorten (parseURL (libs srv)) (storage srv) (shortenerSvc srv) u bdy (sto w) (rnd w)
      = ((served, oe), s', r')" by (metis surj_pair)
  from http_plain [OF i assms(1,3,4) u b sh] assms(5) have r: "resp = run_stack (compressor (libs srv))
      (r_head r ''Accept-Encoding'') (finished (plain_outcome srv tok (served, oe)))"
      "sto w1 = s'" "queue w1 = queue w" "rnd w1 = r'" by auto
  obtain c go where st: "shorten_status oe = (c, go)" by (cases "shorten_status oe")
  with plain_outcome_status [of "(served, oe)" c go "compressor (libs srv)" "r_head r ''Accept-Encoding''" srv tok]
    r(1) assms(6) have "c = 201" by auto
  with st have oe: "oe = None" "go" using shorten_status_201 by auto
  have "received (compressor (libs srv)) resp = Some served"
    using received_reply [OF assms(2) bodied_simps(2), of "cookies srv tok @ [(''Content-Type'', ''text/plain'')]" _ "[served]"]
      cookies_encoding r(1) oe st \<open>c = 201\<close> by (fastforce simp: plain_outcome_def)
  with that [OF u b r(3,4)] sh r(2) oe(1) show ?thesis by blast
qed

section \<open>A sample server\<close>

text \<open>A router that looks for the exact path first and then for a single segment.\<close>

definition sample_chi :: "(string \<times> string) list \<Rightarrow> string \<Rightarrow> string \<Rightarrow> chi_result" where
  "sample_chi ps m p = (case filter (\<lambda>i. ps ! i = (m, p)) [0..<length ps] of
     i # _ \<Rightarrow> Route i
   | [] \<Rightarrow> (if m = ''GET'' \<and> 5 < length ps \<and> 1 < length p \<and> CHR ''/'' \<notin> set (tl p) then Route 5
        else RouterDefault [WriteHeader 404]))"

definition sample_httplibs :: httplibs where
  "sample_httplibs = \<lparr>
     gzipReader = (\<lambda>_. Inl (Errmsg ''gzip'')), zlibReader = (\<lambda>_. Inl (Errmsg ''zlib'')),
     unmarshalShortenRequest = (\<lambda>b. Inr \<lparr>RequestURL = b\<rparr>), unmarshalBatchURLs = (\<lambda>_. Inr []),
     unmarshalStrings = (\<lambda>b. Inr (if b = [] then [] else Split b (CHR '',''))),
     marshalStats = (\<lambda>_. Inr ''stats''), marshalShortenResponse = (\<lambda>x. Inr (Result x)), marshalURLs = (\<lambda>_. Inr ''urls''),
     marshalBatchShortened = (\<lambda>_. Inr ''batch''), cookieString = (\<lambda>n v. n @ ''='' @ v),
     chiFind = sample_chi, compressor = sample_comp, jwt = sample_jwt, parseURL = sample_parse\<rparr>"

lemma filter_head: "filter P xs = x # ys \<Longrightarrow> x \<in> set xs \<and> P x"
  by (auto dest: filter_eq_ConsD)

lemma sample_chi_found:
  assumes "sample_chi patterns m p = Route i"
  shows "i < length patterns \<and> fst (patterns ! i) = m"
proof (cases "filter (\<lambda>i. patterns ! i = (m, p)) [0..<length patterns]")
  case Nil
  with assms have "m = ''GET''" "i = 5" by (auto simp: sample_chi_def split: if_splits)
  then show ?thesis by (simp add: patterns_def)
next
  case (Cons j js)
  with assms have "j = i" by (simp add: sample_chi_def)
  with filter_head [OF Cons] show ?thesis by simp
qed

lemma sample_chi_table:
  "list_all (\<lambda>i. i = 5 \<or> sample_chi patterns (fst (patterns ! i)) (snd (patterns ! i)) = Route i) [0..<8]"
  "list_all (\<lambda>i. i = 5 \<or> fst (patterns ! i) \<noteq> ''GET'' \<or>
     tl (snd (patterns ! i)) \<in> {[], ''ping''} \<or> CHR ''/'' \<in> set (tl (snd (patterns ! i)))) [0..<8]"
  "length patterns = 8"
  by code_simp+

lemma sample_chi_ok: "chi_ok sample_httplibs"
proof -
  have f: "i < 8 \<Longrightarrow> i \<noteq> 5 \<Longrightarrow> sample_chi patterns (fst (patterns ! i)) (snd (patterns ! i)) = Route i" for i
    using sample_chi_table(1) by (auto simp: list_all_iff)
  have "sample_chi patterns ''GET'' (CHR ''/'' # p) = Route 5"
    if "p \<noteq> []" "CHR ''/'' \<notin> set p" "p \<noteq> ''ping''" for p
  proof (cases "filter (\<lambda>i. patterns ! i = (''GET'', CHR ''/'' # p)) [0..<length patterns]")
    case Nil
    with that show ?thesis by (simp add: sample_chi_def sample_chi_table(3))
  next
    case (Cons j js)
    with filter_head [OF Cons] have j: "j < 8" "patterns ! j = (''GET'', CHR ''/'' # p)"
      by (simp_all add: sample_chi_table(3))
    have "j = 5 \<or> fst (patterns ! j) \<noteq> ''GET'' \<or>
        tl (snd (patterns ! j)) \<in> {[], ''ping''} \<or> CHR ''/'' \<in> set (tl (snd (patterns ! j)))"
      using bspec [OF sample_chi_table(2) [unfolded list_all_iff], of j] j(1) by simp
    with j(2) that have "j = 5" by simp
    with Cons show ?thesis by (simp add: sample_chi_def)
  qed
  with f sample_chi_found show ?thesis
    unfolding chi_ok_def by (simp add: sample_httplibs_def sample_chi_table(3))
qed

definition sample_filter :: Filter where
  "sample_filter = \<lparr>subnets = [\<lparr>pfx_addr = Addr4 0x0a000000, pfx_bits = 8\<rparr>], trustXFF = False, trustXRealIP = False\<rparr>"

definition sample_server :: "'s Storage \<Rightarrow> 's Server" where
  "sample_server st = \<lparr>libs = sample_httplibs, storage = st, shortenerSvc = sample_service,
     authorizer = auth_New ''k'', filterMW = sample_filter, trustRequestID = False\<rparr>"

definition sample_world :: "'s \<Rightarrow> 's world" where
  "sample_world s = \<lparr>sto = s, queue = sample_queue, rnd = sample_rnd, reqids = (\<lambda>_. Inr ''rid''),
     uuids = (\<lambda>_. Inr sample_uuid)\<rparr>"

text \<open>A json request from a client outside the trusted subnet, with or without the cookie of user \<open>u1\<close>.\<close>

definition sample_hreq :: "string \<Rightarrow> string \<Rightarrow> string \<Rightarrow> bool \<Rightarrow> hreq" where
  "sample_hreq m p b c = \<lparr>r_method = m, r_path = p,
     r_head = (\<lambda>h. if h = ''Content-Type'' then ''application/json'' else []),
     r_cookie = (\<lambda>n. if c then Some ''Tu1'' else None), r_remote = ''8.8.8.8:1'',
     r_body = (b, None), r_now = 0, r_ctx = []\<rparr>"

lemma sample_has_id [simp]: "has_id (sample_server st) r (sample_world s)"
  by (simp add: has_id_def sample_world_def)

lemma sample_server_simps [simp]:
  "libs (sample_server st) = sample_httplibs" "storage (sample_server st) = st"
  "shortenerSvc (sample_server st) = sample_service" "filterMW (sample_server st) = sample_filter"
  "sto (sample_world s) = s" "queue (sample_world s) = sample_queue" "rnd (sample_world s) = sample_rnd"
  "uuids (sample_world s) = (\<lambda>_. Inr sample_uuid)" "parseURL sample_httplibs = sample_parse"
  "compressor sample_httplibs = sample_comp"
  by (simp_all add: sample_server_def sample_world_def sample_httplibs_def)

lemma sample_hreq_simps [simp]:
  "r_method (sample_hreq m p b c) = m" "r_path (sample_hreq m p b c) = p" "r_now (sample_hreq m p b c) = 0"
  "readBody sample_httplibs (sample_hreq m p b c) = Inr b"
  "r_head (sample_hreq m p b c) ''Content-Type'' = ''application/json''"
  "r_remote (sample_hreq m p b c) = ''8.8.8.8:1''"
  by (simp_all add: sample_hreq_def readBody_def getContentReader_def)

lemma sample_user [simp]:
  "createOrParseUserFromRequest (sample_server st) (sample_hreq m p b True) g = (Inr (owner_user, []), g)"
  by (simp add: createOrParseUserFromRequest_def sample_hreq_def CreateOrParseUserFromJWTString_def
      getUserFromJWT_def sample_server_def sample_httplibs_def sample_jwt_def jwt_key_def auth_New_def
      NewWithID_def owner_user_def)

section \<open>Properties\<close>

text \<open>C39. Following a short link over http on a database: for every path \<open>/p\<close> with \<open>p\<close> not empty, without a slash and
  other than \<open>ping\<close>, the answer has no body and is 400 when \<open>p\<close> has characters other than letters and digits, otherwise 404
  for an unknown path, 410 for a deleted one and 307 with the original url as \<open>Location\<close> for a live one;
  the entries of the table and the delete queue stay as they were.\<close>

theorem http_resolve_database:
  assumes "pgx_pool pool tbl up" and "up (pool_st (sto w))" and "storage srv = database_storage pool"
    and "chi_ok (libs srv)" and "has_id srv r w"
    and "r_method r = ''GET''" and "r_path r = CHR ''/'' # p"
    and "p \<noteq> []" and "CHR ''/'' \<notin> set p" and "p \<noteq> ''ping''"
  shows "\<exists>resp w'. http_serve srv r w = Some (resp, w') \<and> body resp = [] \<and>
    database_view tbl (sto w') = database_view tbl (sto w) \<and> queue w' = queue w \<and>
    sent resp = Some (if \<not> list_all pathChar p then (400, \<lambda>_. None) else
      case database_view tbl (sto w) p of
        None \<Rightarrow> (404, \<lambda>_. None)
      | Some en \<Rightarrow> if e_deleted en then (410, \<lambda>_. None) else (307, [''Location'' \<mapsto> e_orig en]))"
proof -
  have "database_ok up (sto w)" using assms(2) by (simp add: database_ok_def)
  from url_storage.http_resolve [OF pgx_pool.is_storage [OF assms(1)] this assms(3-10)] show ?thesis by blast
qed

theorem http_resolve_database_witness:
  "\<exists>resp w'. http_serve (sample_server (database_storage sql_pool)) (sample_hreq ''GET'' ''/zz'' [] False)
      (sample_world (sample_db [sample_row ''zz'' ''http://a.b'' False])) = Some (resp, w') \<and>
    sent resp = Some (307, [''Location'' \<mapsto> ''http://a.b''])"
proof -
  let ?db = "sample_db [sample_row ''zz'' ''http://a.b'' False]"
  have v: "database_view sq_table ?db ''zz'' =
      Some \<lparr>e_orig = ''http://a.b'', e_user = ''u1'', e_deleted = False\<rparr>"
    by (simp add: database_view_def sample_db_def sample_row_def row_entry_def)
  have "list_all pathChar ''zz''" by code_simp
  then show ?thesis
    using http_resolve_database [OF pg.pgx_pool_axioms, of "sample_world ?db" "sample_server (database_storage sql_pool)"
        "sample_hreq ''GET'' ''/zz'' [] False" "''zz''"] v
    by (auto simp: sample_chi_ok table_inv_def)
qed

text \<open>C19. What \<open>POST /\<close> answers to a known or new user whose body can be read: 201 when the link was
  created, 409 when the url is already there, 400 when its scheme is refused, 500 otherwise; a body
  that is no url falls under 500, because the sentinel and the error are swapped in \<open>errors.Is\<close>.\<close>

theorem http_shorten_status:
  assumes "has_id srv r w" and "chi_ok (libs srv)" and "r_method r = ''POST''" and "r_path r = ''/''"
    and "createOrParseUserFromRequest srv r (uuids w) = (Inr (u, tok), g)" and "readBody (libs srv) r = Inr bdy"
    and "Shorten (parseURL (libs srv)) (storage srv) (shortenerSvc srv) u bdy (sto w) (rnd w) = ((served, oe), s', r')"
  shows "\<exists>resp w' h. http_serve srv r w = Some (resp, w') \<and> sto w' = s' \<and>
    sent resp = Some (case parseURL (libs srv) bdy of
        Inl e \<Rightarrow> 500
      | Inr pu \<Rightarrow>
          if redirectScheme (shortenerSvc srv) \<notin> {[], Scheme pu} then 400
          else if oe = None then 201
          else if oe = Some (Sentinel ErrConflict) then 409 else 500, h)"
proof -
  obtain c b where c: "shorten_status oe = (c, b)" by (cases "shorten_status oe")
  have "c = (case parseURL (libs srv) bdy of
        Inl e \<Rightarrow> 500
      | Inr pu \<Rightarrow>
          if redirectScheme (shortenerSvc srv) \<notin> {[], Scheme pu} then 400
          else if oe = None then 201
          else if oe = Some (Sentinel ErrConflict) then 409 else 500)"
    using assms(7) c
    by (auto simp: Shorten_def shorten_status_def errors_join_def map_filter_simps
        split: sum.splits if_splits option.splits prod.splits)
  moreover from http_plain [OF assms] obtain g' where "http_serve srv r w = Some (run_stack (compressor (libs srv))
     (r_head r ''Accept-Encoding'') (finished (plain_outcome srv tok (served, oe))),
     w\<lparr>reqids := g', uuids := g, sto := s', rnd := r'\<rparr>)" by blast
  moreover from plain_outcome_status [of "(served, oe)"] c obtain h where
    "sent (run_stack (compressor (libs srv)) (r_head r ''Accept-Encoding'')
      (finished (plain_outcome srv tok (served, oe)))) = Some (c, h)" by fastforce
  ultimately show ?thesis by simp
qed

theorem http_shorten_status_witness:
  "\<exists>resp w' h. http_serve (sample_server memory_storage) (sample_hreq ''POST'' ''/'' [] True)
      (sample_world sample_mem) = Some (resp, w') \<and> sto w' = sample_mem \<and> sent resp = Some (500, h)"
proof -
  have "sample_parse [] = Inl (Errmsg ''empty url'')" by (simp add: sample_parse_def sample_libs_def)
  moreover from this have "Shorten sample_parse memory_storage sample_service owner_user [] sample_mem sample_rnd =
     (([], errors_join [Some (Sentinel ErrInvalidURL), Some (Errmsg ''empty url'')]), sample_mem, sample_rnd)"
    by (simp add: Shorten_def)
  ultimately show ?thesis
    using http_shorten_status [of "sample_server memory_storage" "sample_hreq ''POST'' ''/'' [] True"
        "sample_world sample_mem" owner_user "[]" _ "[]"] by (simp add: sample_chi_ok)
qed

text \<open>C33. A batch deletion is always answered with 202, whatever the service made of it: the handler
  writes a second status after the error. For a user without a session nothing is queued.\<close>

theorem http_delete_accepted:
  assumes "has_id srv r w" and "chi_ok (libs srv)" and "r_method r = ''DELETE''" and "r_path r = ''/api/user/urls''"
    and "createOrParseUserFromRequest srv r (uuids w) = (Inr (u, tok), g)"
    and "r_head r ''Content-Type'' = ''application/json''" and "readBody (libs srv) r = Inr bdy"
    and "unmarshalStrings (libs srv) bdy = Inr shorts"
    and "DeleteBatch (r_now r div 1000) u shorts (queue w) = Some (oe, f)"
  shows "\<exists>resp w' h. http_serve srv r w = Some (resp, w') \<and> sent resp = Some (202, h) \<and>
    sto w' = sto w \<and> queue w' = f \<and> (IsNew u \<longrightarrow> oe = Some (Sentinel ErrUnauthorized) \<and> f = queue w)"
proof -
  have fi: "chiFind (libs srv) patterns (r_method r) (r_path r) = Route 1"
    using chi_fixed(2) [OF assms(2)] assms(3,4) by simp
  obtain rid g' where s: "http_serve srv r w =
    (case http_DeleteBatch srv (r\<lparr>r_ctx := SetUserContext (SetRequestID (r_ctx r) rid) u\<rparr>)
        (w\<lparr>reqids := g', uuids := g\<rparr>) of
       None \<Rightarrow> None
     | Some (out, w2) \<Rightarrow> Some (run_stack (compressor (libs srv)) (r_head r ''Accept-Encoding'')
         (out\<lparr>acts := setCookie srv tok @ acts out\<rparr>), w2))"
    by (rule http_serve_auth [OF assms(1) fi _ assms(5)]) simp_all
  define pre where "pre = (case oe of None \<Rightarrow> [] | Some err \<Rightarrow> [WriteHeader
     (if errors_is err (Sentinel ErrUnauthorized) then 401
      else if errors_is err (Sentinel ErrEmptyBatch) then 400 else 500)])"
  have "http_serve srv r w = Some (run_stack (compressor (libs srv)) (r_head r ''Accept-Encoding'')
      (finished (setCookie srv tok @ pre @ [WriteHeader 202])), w\<lparr>reqids := g', uuids := g, queue := f\<rparr>)"
    unfolding s http_DeleteBatch_def pre_def using assms(6-9) by (simp add: readBody_ctx)
  moreover have "header_first (setCookie srv tok @ pre @ [WriteHeader 202])"
    "final_status 0 (setCookie srv tok @ pre @ [WriteHeader 202]) = 202"
    by (simp_all add: setCookie_def pre_def split: option.split)
  moreover have "IsNew u \<longrightarrow> oe = Some (Sentinel ErrUnauthorized) \<and> f = queue w"
    using assms(9) by (auto simp: DeleteBatch_def)
  ultimately show ?thesis
    using run_stack_status [of "setCookie srv tok @ pre @ [WriteHeader 202]" "compressor (libs srv)" "r_head r ''Accept-Encoding''"]
    by auto
qed

theorem http_delete_accepted_witness:
  "\<exists>resp w' h. http_serve (sample_server memory_storage) (sample_hreq ''DELETE'' ''/api/user/urls'' [] True)
      (sample_world sample_mem) = Some (resp, w') \<and> sent resp = Some (202, h) \<and> queue w' = sample_queue"
proof -
  have "unmarshalStrings sample_httplibs [] = Inr []" by (simp add: sample_httplibs_def)
  moreover have "DeleteBatch 0 owner_user [] sample_queue = Some (Some (Sentinel ErrEmptyBatch), sample_queue)"
    by (simp add: DeleteBatch_def owner_user_def IsNew_def)
  ultimately show ?thesis
    using http_delete_accepted [of "sample_server memory_storage" "sample_hreq ''DELETE'' ''/api/user/urls'' [] True"
        "sample_world sample_mem" owner_user "[]" "\<lambda>_. Inr sample_uuid" "[]" "[]" "Some (Sentinel ErrEmptyBatch)" sample_queue]
    by (auto simp: sample_chi_ok)
qed

text \<open>C24. The statistics are only for trusted addresses: a request whose addresses do not pass the filter
  (or any request, when no subnets are configured) gets 403 and changes nothing.\<close>

theorem http_stats_guarded:
  assumes "has_id srv r w" and "chi_ok (libs srv)" and "r_method r = ''GET''" and "r_path r = ''/api/internal/stats''"
    and "Subnets (filterMW srv) = [] \<or>
      \<not> CheckRequestParams (filterMW srv) (r_remote r) (r_head r ''X-Real-IP'') (r_head r ''X-Forwarded-For'')"
  shows "\<exists>resp w'. http_serve srv r w = Some (resp, w') \<and> sent resp = Some (403, \<lambda>_. None) \<and> body resp = [] \<and>
    sys.truncate w' = sys.truncate w"
proof -
  from http_serve_routed [OF assms(1)] obtain i g where s: "http_serve srv r w =
      (case route srv (r\<lparr>r_ctx := SetRequestID (r_ctx r) i\<rparr>) (w\<lparr>reqids := g\<rparr>) of
         None \<Rightarrow> None
       | Some (out, w2) \<Rightarrow> Some (run_stack (compressor (libs srv)) (r_head r ''Accept-Encoding'') out, w2))" by blast
  have "route srv (r\<lparr>r_ctx := SetRequestID (r_ctx r) i\<rparr>) (w\<lparr>reqids := g\<rparr>) =
      Some (finished (reply [] 403 []), w\<lparr>reqids := g\<rparr>)"
    using assms(3-5) chi_fixed(7) [OF assms(2)] by (auto simp: route_def patterns_routes filter_mw_def reply_def)
  with reply_plain [of 403 "[]" "compressor (libs srv)" "r_head r ''Accept-Encoding''" "[]"] show ?thesis
    by (simp add: s sys.truncate_def)
qed

theorem http_stats_guarded_witness:
  "\<exists>resp w'. http_serve (sample_server memory_storage) (sample_hreq ''GET'' ''/api/internal/stats'' [] True)
      (sample_world sample_mem) = Some (resp, w') \<and> sent resp = Some (403, \<lambda>_. None)"
proof -
  have "\<not> CheckRequestParams sample_filter ''8.8.8.8:1'' [] []" by code_simp
  moreover have "r_head (sample_hreq ''GET'' ''/api/internal/stats'' [] True) k = []" if "k \<noteq> ''Content-Type''" for k
    using that by (simp add: sample_hreq_def)
  ultimately show ?thesis
    using http_stats_guarded [of "sample_server memory_storage" "sample_hreq ''GET'' ''/api/internal/stats'' [] True"
        "sample_world sample_mem"] by (auto simp: sample_chi_ok)
qed

text \<open>Without a valid session a client learns nothing and changes nothing in the storage: the listing
  of \<open>GET /api/user/urls\<close> is answered with 401, no body, and a cookie with the token of a new user.\<close>

theorem http_listing_needs_session:
  assumes "has_id srv r w" and "chi_ok (libs srv)" and "r_method r = ''GET''" and "r_path r = ''/api/user/urls''"
    and "\<forall>v. r_cookie r sessionCookieName = Some v \<longrightarrow>
      isl (getUserFromJWT (jwt (libs srv)) (authorizer srv) (r_now r) v)"
    and "createOrParseUserFromRequest srv r (uuids w) = (Inr (u, tok), g)" and "tok \<noteq> []"
  shows "\<exists>resp w'. http_serve srv r w = Some (resp, w') \<and> body resp = [] \<and> sys.truncate w' = sys.truncate w \<and>
    sent resp = Some (401, [''Set-Cookie'' \<mapsto> cookieString (libs srv) sessionCookieName tok])"
proof -
  have fi: "chiFind (libs srv) patterns (r_method r) (r_path r) = Route 0"
    using chi_fixed(1) [OF assms(2)] assms(3,4) by simp
  obtain rid g' where s: "http_serve srv r w =
    (case http_GetAll srv (r\<lparr>r_ctx := SetUserContext (SetRequestID (r_ctx r) rid) u\<rparr>)
        (w\<lparr>reqids := g', uuids := g\<rparr>) of
       None \<Rightarrow> None
     | Some (out, w2) \<Rightarrow> Some (run_stack (compressor (libs srv)) (r_head r ''Accept-Encoding'')
         (out\<lparr>acts := setCookie srv tok @ acts out\<rparr>), w2))"
    by (rule http_serve_auth [OF assms(1) fi _ assms(6)]) simp_all
  have "CreateUserAndToken (jwt (libs srv)) (authorizer srv) (r_now r) (uuids w) = (Inr (u, tok), g)"
    using assms(5,6) by (auto simp: createOrParseUserFromRequest_def CreateOrParseUserFromJWTString_def
        isl_def split: option.splits sum.splits)
  then have "IsNew u" using CreateUserAndToken_ok by (fastforce simp: IsNew_def)
  then have "http_serve srv r w = Some (run_stack (compressor (libs srv)) (r_head r ''Accept-Encoding'')
      (finished (reply (cookies srv tok) 401 [])), w\<lparr>reqids := g', uuids := g\<rparr>)"
    unfolding s http_GetAll_def by (simp add: GetAll_def setCookie_reply(1))
  moreover have "map_of (rev (cookies srv tok)) = [''Set-Cookie'' \<mapsto> cookieString (libs srv) sessionCookieName tok]"
    using assms(7) by (simp add: cookies_def)
  ultimately show ?thesis
    using reply_plain [of 401 "cookies srv tok" "compressor (libs srv)" "r_head r ''Accept-Encoding''" "[]"]
    by (simp add: sys.truncate_def)
qed

theorem http_listing_needs_session_witness:
  "\<exists>resp w' h. http_serve (sample_server memory_storage) (sample_hreq ''GET'' ''/api/user/urls'' [] False)
      (sample_world sample_mem) = Some (resp, w') \<and> sent resp = Some (401, h) \<and> h ''Set-Cookie'' \<noteq> None"
proof -
  let ?r = "sample_hreq ''GET'' ''/api/user/urls'' [] False"
  have "\<exists>u tok g. createOrParseUserFromRequest (sample_server memory_storage) ?r (\<lambda>_. Inr sample_uuid) = (Inr (u, tok), g)
      \<and> tok \<noteq> []"
    by (simp add: createOrParseUserFromRequest_def sample_hreq_def CreateUserAndToken_def user_New_def next_src_def
        createJWT_def newToken_def sample_server_def sample_httplibs_def sample_jwt_def auth_New_def
        defaultJWTCookieExpiration_def)
  then obtain u tok g where c: "createOrParseUserFromRequest (sample_server memory_storage) ?r (\<lambda>_. Inr sample_uuid)
      = (Inr (u, tok), g)" "tok \<noteq> []" by blast
  have "r_cookie ?r sessionCookieName = None" by (simp add: sample_hreq_def)
  with http_listing_needs_session [of "sample_server memory_storage" ?r "sample_world sample_mem" u tok g] c
  show ?thesis by (auto simp: sample_chi_ok)
qed

end
