(* ===== verification/HttpRun.thy ===== *)
theory HttpRun
  imports HttpServer
begin

text \<open>
  Whole runs of the http server: every request, through the complete chain, acts on storage
  and delete queue as at most one request to the services does, so what holds for sequences
  of service requests holds for sequences of http requests and flushes.
\<close>

section \<open>Every http request is at most one request to the services\<close>

text \<open>
  What a handler does to storage, queue and random numbers is what at most one service
  request does to them; \<open>P\<close> restricts that request.
\<close>

definition served_as :: "'s Server \<Rightarrow> 's world \<Rightarrow> 's world \<Rightarrow> req list \<Rightarrow> bool" where
  "served_as srv w w' qs \<longleftrightarrow> length qs \<le> 1 \<and>
     serve_all (parseURL (libs srv)) (storage srv) (shortenerSvc srv) qs (sys.truncate w) = Some (sys.truncate w')"

definition simulated :: "'s Server \<Rightarrow> (hreq \<Rightarrow> req \<Rightarrow> bool) \<Rightarrow> 's handler \<Rightarrow> bool" where
  "simulated srv P h \<longleftrightarrow> (\<forall>r w out w'. h r w = Some (out, w') \<longrightarrow>
     (\<exists>qs. served_as srv w w' qs \<and> list_all (P r) qs))"

fun no_delete :: "req \<Rightarrow> bool" where
  "no_delete (ReqDelete now usr shorts) \<longleftrightarrow> False"
| "no_delete _ \<longleftrightarrow> True"

fun own_delete :: "hreq \<Rightarrow> req \<Rightarrow> bool" where
  "own_delete r (ReqDelete now usr shorts) \<longleftrightarrow> GetUserFromContext (r_ctx r) = Some usr \<and> \<not> IsNew usr"
| "own_delete r _ \<longleftrightarrow> True"

lemma truncate_simps [simp]:
  "sto (sys.truncate w) = sto w" "queue (sys.truncate w) = queue w" "rnd (sys.truncate w) = rnd w"
  "sys.truncate (w\<lparr>reqids := g\<rparr>) = sys.truncate w" "sys.truncate (w\<lparr>uuids := g2\<rparr>) = sys.truncate w"
  by (simp_all add: sys.truncate_def)

lemma simulatedI:
  assumes "\<And>r w out w'. h r w = Some (out, w') \<Longrightarrow> sys.truncate w' \<noteq> sys.truncate w \<Longrightarrow>
     \<exists>q. serve (parseURL (libs srv)) (storage srv) (shortenerSvc srv) q (sys.truncate w) = Some (sys.truncate w') \<and> P r q"
  shows "simulated srv P h"
  unfolding simulated_def
proof (intro allI impI)
  fix r w out w'
  assume h: "h r w = Some (out, w')"
  show "\<exists>qs. served_as srv w w' qs \<and> list_all (P r) qs"
  proof (cases "sys.truncate w' = sys.truncate w")
    case True
    then show ?thesis by (intro exI [of _ "[]"]) (simp add: served_as_def)
  next
    case False
    from assms [OF h this] obtain q where
      "serve (parseURL (libs srv)) (storage srv) (shortenerSvc srv) q (sys.truncate w) = Some (sys.truncate w') \<and> P r q" ..
    then show ?thesis by (intro exI [of _ "[q]"]) (simp add: served_as_def)
  qed
qed

lemma simulated_Ping: "simulated srv (\<lambda>_. no_delete) (http_Ping srv)"
proof (rule simulatedI)
  fix r w out w'
  assume "http_Ping srv r w = Some (out, w')"
  moreover obtain oe s' where "status_Ping (storage srv) (sto w) = (oe, s')" by (metis surj_pair)
  ultimately show "\<exists>q. serve (parseURL (libs srv)) (storage srv) (shortenerSvc srv) q (sys.truncate w)
      = Some (sys.truncate w') \<and> no_delete q"
    by (intro exI [of _ ReqPing]) (auto simp: http_Ping_def sys.truncate_def split: option.splits)
qed

lemma simulated_Stats: "simulated srv (\<lambda>_. no_delete) (http_Stats srv)"
proof (rule simulatedI)
  fix r w out w'
  assume h: "http_Stats srv r w = Some (out, w')" and n: "sys.truncate w' \<noteq> sys.truncate w"
  obtain res oe s' where s: "status_Stats (storage srv) (sto w) = ((res, oe), s')" by (metis surj_pair)
  with h n have "w' = w\<lparr>sto := s'\<rparr>" by (auto simp: http_Stats_def split: option.splits sum.splits)
  with s show "\<exists>q. serve (parseURL (libs srv)) (storage srv) (shortenerSvc srv) q (sys.truncate w)
      = Some (sys.truncate w') \<and> no_delete q"
    by (intro exI [of _ ReqStats]) (simp add: sys.truncate_def)
qed

lemma simulated_Resolve: "simulated srv (\<lambda>_. no_delete) (http_Resolve srv)"
proof (rule simulatedI)
  fix r w out w'
  assume h: "http_Resolve srv r w = Some (out, w')" and n: "sys.truncate w' \<noteq> sys.truncate w"
  then obtain red oe s' where r: "Resolve (storage srv) (r_path r) (sto w) = Ret ((red, oe), s')"
    by (cases "Resolve (storage srv) (r_path r) (sto w)") (auto simp: http_Resolve_def split: option.splits)
  with n h have "w' = w\<lparr>sto := s'\<rparr>" by (auto simp: http_Resolve_def split: option.splits)
  with r show "\<exists>q. serve (parseURL (libs srv)) (storage srv) (shortenerSvc srv) q (sys.truncate w)
      = Some (sys.truncate w') \<and> no_delete q"
    by (intro exI [of _ "ReqResolve (r_path r)"]) (simp add: sys.truncate_def)
qed

lemma simulated_Shorten: "simulated srv (\<lambda>_. no_delete) (http_Shorten srv)"
proof (rule simulatedI)
  fix r w out w'
  assume h: "http_Shorten srv r w = Some (out, w')" and n: "sys.truncate w' \<noteq> sys.truncate w"
  then obtain u i bdy req where b: "GetUserAndReqID (r_ctx r) = Inr (u, i)" "readBody (libs srv) r = Inr bdy"
      "unmarshalShortenRequest (libs srv) bdy = Inr req" "r_head r ''Content-Type'' = ''application/json''"
    by (auto simp: http_Shorten_def split: sum.splits if_splits)
  obtain served oe s' r' where sh:
    "Shorten (parseURL (libs srv)) (storage srv) (shortenerSvc srv) u (RequestURL req) (sto w) (rnd w) = ((served, oe), s', r')"
    by (metis surj_pair)
  with b h have "w' = w\<lparr>sto := s', rnd := r'\<rparr>"
    by (auto simp: http_Shorten_def Let_def split: prod.splits if_splits sum.splits)
  with sh show "\<exists>q. serve (parseURL (libs srv)) (storage srv) (shortenerSvc srv) q (sys.truncate w)
      = Some (sys.truncate w') \<and> no_delete q"
    by (intro exI [of _ "ReqShorten u (RequestURL req)"]) (simp add: sys.truncate_def)
qed

lemma simulated_ShortenPlain: "simulated srv (\<lambda>_. no_delete) (http_ShortenPlain srv)"
proof (rule simulatedI)
  fix r w out w'
  assume h: "http_ShortenPlain srv r w = Some (out, w')" and n: "sys.truncate w' \<noteq> sys.truncate w"
  then obtain u i bdy where b: "GetUserAndReqID (r_ctx r) = Inr (u, i)" "readBody (libs srv) r = Inr bdy"
    by (auto simp: http_ShortenPlain_def split: sum.splits)
  obtain served oe s' r' where sh:
    "Shorten (parseURL (libs srv)) (storage srv) (shortenerSvc srv) u bdy (sto w) (rnd w) = ((served, oe), s', r')"
    by (metis surj_pair)
  with b h have "w' = w\<lparr>sto := s', rnd := r'\<rparr>"
    by (auto simp: http_ShortenPlain_def Let_def split: prod.splits if_splits)
  with sh show "\<exists>q. serve (parseURL (libs srv)) (storage srv) (shortenerSvc srv) q (sys.truncate w)
      = Some (sys.truncate w') \<and> no_delete q"
    by (intro exI [of _ "ReqShorten u bdy"]) (simp add: sys.truncate_def)
qed

lemma simulated_GetAll: "simulated srv (\<lambda>_. no_delete) (http_GetAll srv)"
proof (rule simulatedI)
  fix r w out w'
  assume h: "http_GetAll srv r w = Some (out, w')" and n: "sys.truncate w' \<noteq> sys.truncate w"
  then obtain u i where b: "GetUserAndReqID (r_ctx r) = Inr (u, i)"
    by (auto simp: http_GetAll_def split: sum.splits)
  obtain us oe s' where g: "GetAll (storage srv) (shortenerSvc srv) u (sto w) = ((us, oe), s')" by (metis surj_pair)
  with h b have "w' = w\<lparr>sto := s'\<rparr>" by (auto simp: http_GetAll_def split: option.splits sum.splits)
  with g show "\<exists>q. serve (parseURL (libs srv)) (storage srv) (shortenerSvc srv) q (sys.truncate w)
      = Some (sys.truncate w') \<and> no_delete q"
    by (intro exI [of _ "ReqGetAll u"]) (simp add: sys.truncate_def)
qed

lemma simulated_ShortenBatch: "simulated srv (\<lambda>_. no_delete) (http_ShortenBatch srv)"
proof (rule simulatedI)
  fix r w out w'
  assume h: "http_ShortenBatch srv r w = Some (out, w')" and n: "sys.truncate w' \<noteq> sys.truncate w"
  then obtain u i bdy b where b: "GetUserAndReqID (r_ctx r) = Inr (u, i)" "readBody (libs srv) r = Inr bdy"
      "unmarshalBatchURLs (libs srv) bdy = Inr b" "r_head r ''Content-Type'' = ''application/json''"
    by (auto simp: http_ShortenBatch_def split: sum.splits if_splits)
  obtain res oe s' r' where sh:
    "ShortenBatch (storage srv) (shortenerSvc srv) u b (sto w) (rnd w) = ((res, oe), s', r')"
    by (metis surj_pair)
  with b h have "w' = w\<lparr>sto := s', rnd := r'\<rparr>"
    by (auto simp: http_ShortenBatch_def split: option.splits sum.splits)
  with sh show "\<exists>q. serve (parseURL (libs srv)) (storage srv) (shortenerSvc srv) q (sys.truncate w)
      = Some (sys.truncate w') \<and> no_delete q"
    by (intro exI [of _ "ReqBatch u b"]) (simp add: sys.truncate_def)
qed

lemma simulated_DeleteBatch: "simulated srv own_delete (http_DeleteBatch srv)"
proof (rule simulatedI)
  fix r w out w'
  assume h: "http_DeleteBatch srv r w = Some (out, w')" and n: "sys.truncate w' \<noteq> sys.truncate w"
  then obtain u i bdy shorts where b: "GetUserAndReqID (r_ctx r) = Inr (u, i)" "readBody (libs srv) r = Inr bdy"
      "unmarshalStrings (libs srv) bdy = Inr shorts" "r_head r ''Content-Type'' = ''application/json''"
    by (auto simp: http_DeleteBatch_def split: sum.splits if_splits)
  with h obtain oe f where d: "DeleteBatch (r_now r div 1000) u shorts (queue w) = Some (oe, f)" "w' = w\<lparr>queue := f\<rparr>"
    by (auto simp: http_DeleteBatch_def split: option.splits)
  have "f \<noteq> queue w" using n d(2) by (auto simp: sys.truncate_def)
  then have "\<not> IsNew u" using d(1) by (auto simp: DeleteBatch_def)
  moreover have "GetUserFromContext (r_ctx r) = Some u"
    using b(1) by (auto simp: GetUserAndReqID_def split: option.splits)
  ultimately show "\<exists>q. serve (parseURL (libs srv)) (storage srv) (shortenerSvc srv) q (sys.truncate w)
      = Some (sys.truncate w') \<and> own_delete r q"
    using d by (intro exI [of _ "ReqDelete (r_now r div 1000) u shorts"]) (simp add: sys.truncate_def)
qed

text \<open>The request asks, with a valid session cookie, for deletions in the name of user \<open>uid\<close>.\<close>

definition deleting :: "'s Server \<Rightarrow> string \<Rightarrow> hreq \<Rightarrow> bool" where
  "deleting srv uid r \<longleftrightarrow> r_method r = ''DELETE'' \<and> (\<exists>v u. r_cookie r sessionCookieName = Some v \<and>
     getUserFromJWT (jwt (libs srv)) (authorizer srv) (r_now r) v = Inr u \<and> ID u = uid)"

lemma auth_user_cookie:
  assumes "createOrParseUserFromRequest srv r g = (Inr (u, tok), g')" and "\<not> IsNew u"
  shows "\<exists>v. r_cookie r sessionCookieName = Some v \<and>
    getUserFromJWT (jwt (libs srv)) (authorizer srv) (r_now r) v = Inr u"
proof (cases "r_cookie r sessionCookieName")
  case None
  with assms CreateUserAndToken_ok show ?thesis
    by (fastforce simp: createOrParseUserFromRequest_def IsNew_def)
next
  case (Some v)
  show ?thesis
  proof (cases "getUserFromJWT (jwt (libs srv)) (authorizer srv) (r_now r) v")
    case (Inl e)
    with Some assms CreateUserAndToken_ok show ?thesis
      by (fastforce simp: createOrParseUserFromRequest_def CreateOrParseUserFromJWTString_def IsNew_def)
  next
    case (Inr u')
    with Some assms show ?thesis
      by (auto simp: createOrParseUserFromRequest_def CreateOrParseUserFromJWTString_def)
  qed
qed

lemma auth_mw_cases:
  assumes "auth_mw srv h r w = Some (out, w')"
  obtains (same) "sys.truncate w' = sys.truncate w"
  | (inner) u tok g out' where "createOrParseUserFromRequest srv r (uuids w) = (Inr (u, tok), g)"
      "h (r\<lparr>r_ctx := SetUserContext (r_ctx r) u\<rparr>) (w\<lparr>uuids := g\<rparr>) = Some (out', w')"
proof (cases "GetRequestID (r_ctx r)")
  case None
  with assms same show ?thesis by (auto simp: auth_mw_def)
next
  case (Some i)
  obtain x g where x: "createOrParseUserFromRequest srv r (uuids w) = (x, g)"
    by (cases "createOrParseUserFromRequest srv r (uuids w)")
  with Some assms same inner show ?thesis by (auto simp: auth_mw_def split: sum.splits option.splits)
qed

lemma served_as_frame: "served_as srv (w\<lparr>uuids := g\<rparr>) w' qs = served_as srv w w' qs"
  by (simp add: served_as_def)

lemma served_as_same: "sys.truncate w' = sys.truncate w \<Longrightarrow> served_as srv w w' []"
  by (simp add: served_as_def)

lemma simulated_auth:
  assumes "simulated srv (\<lambda>_. P) h" shows "simulated srv (\<lambda>_. P) (auth_mw srv h)"
  unfolding simulated_def
proof (intro allI impI)
  fix r w out w'
  assume "auth_mw srv h r w = Some (out, w')"
  then show "\<exists>qs. served_as srv w w' qs \<and> list_all P qs"
  proof (cases rule: auth_mw_cases)
    case same
    then show ?thesis by (intro exI [of _ "[]"]) (simp add: served_as_same)
  next
    case (inner u tok g out')
    from assms [unfolded simulated_def, rule_format, OF inner(2)] show ?thesis by (simp add: served_as_frame)
  qed
qed

lemma simulated_filter:
  assumes "simulated srv P h" shows "simulated srv P (filter_mw srv h)"
  unfolding simulated_def
proof (intro allI impI)
  fix r w out w'
  assume "filter_mw srv h r w = Some (out, w')"
  then have "h r w = Some (out, w') \<or> w' = w" by (auto simp: filter_mw_def split: if_splits)
  then show "\<exists>qs. served_as srv w w' qs \<and> list_all (P r) qs"
  proof
    assume "h r w = Some (out, w')"
    then show ?thesis using assms [unfolded simulated_def] by blast
  next
    assume "w' = w"
    then show ?thesis by (intro exI [of _ "[]"]) (simp add: served_as_same)
  qed
qed

definition harmless :: "'s Server \<Rightarrow> hreq \<Rightarrow> req \<Rightarrow> bool" where
  "harmless srv r q \<longleftrightarrow> (\<forall>k uid. deletes k uid q \<longrightarrow> deleting srv uid r)"

lemma no_delete_harmless: "no_delete q \<Longrightarrow> harmless srv r q"
  by (cases q) (simp_all add: harmless_def)

lemma auth_delete:
  assumes "auth_mw srv (http_DeleteBatch srv) r w = Some (out, w')" and "r_method r = ''DELETE''"
  shows "\<exists>qs. served_as srv w w' qs \<and> list_all (harmless srv r) qs"
  using assms(1)
proof (cases rule: auth_mw_cases)
  case same
  then show ?thesis by (intro exI [of _ "[]"]) (simp add: served_as_same)
next
  case (inner u tok g out')
  from simulated_DeleteBatch [unfolded simulated_def, rule_format, OF inner(2)]
  obtain qs where qs: "served_as srv w w' qs" "list_all (own_delete (r\<lparr>r_ctx := SetUserContext (r_ctx r) u\<rparr>)) qs"
    by (auto simp: served_as_frame)
  have "harmless srv r q" if "own_delete (r\<lparr>r_ctx := SetUserContext (r_ctx r) u\<rparr>) q" for q
    using that auth_user_cookie [OF inner(1)] assms(2) by (cases q) (auto simp: harmless_def deleting_def)
  with qs show ?thesis by (auto simp: list_all_iff)
qed

lemma chi_found:
  "chi_ok L \<Longrightarrow> chiFind L patterns m p = Route i \<Longrightarrow> i < 8 \<and> fst (patterns ! i) = m"
proof -
  assume "chi_ok L" "chiFind L patterns m p = Route i"
  then have "i < length patterns \<and> fst (patterns ! i) = m" unfolding chi_ok_def by blast
  moreover have "length patterns = 8" by (simp add: patterns_def)
  ultimately show ?thesis by simp
qed

lemma less_8_cases: "i < 8 \<Longrightarrow> i = 0 \<or> i = 1 \<or> i = 2 \<or> i = 3 \<or> i = 4 \<or> i = 5 \<or> i = 6 \<or> i = (7 :: nat)"
  by linarith

lemmas simulated_handlers =
  simulated_auth [OF simulated_GetAll] simulated_auth [OF simulated_Shorten] simulated_auth [OF simulated_ShortenBatch]
  simulated_auth [OF simulated_ShortenPlain] simulated_Resolve simulated_Ping simulated_filter [OF simulated_Stats]

lemma simulated_route:
  assumes "i < 8" and "i \<noteq> 1" shows "simulated srv (\<lambda>_. no_delete) (snd (routes srv ! i))"
  using less_8_cases [OF assms(1)] assms(2) simulated_handlers by auto

lemma route_serves:
  assumes "chi_ok (libs srv)" and "route srv r w = Some (out, w')"
  shows "\<exists>qs. served_as srv w w' qs \<and> list_all (harmless srv r) qs"
proof (cases "chiFind (libs srv) patterns (r_method r) (r_path r)")
  case (Route i)
  with chi_found [OF assms(1)] have i: "i < 8" "fst (patterns ! i) = r_method r" by simp_all
  from Route assms(2) have h: "snd (routes srv ! i) r w = Some (out, w')" by (simp add: route_def patterns_routes)
  show ?thesis
  proof (cases "i = 1")
    case True
    with i(2) have "r_method r = ''DELETE''" by (simp add: patterns_def)
    with auth_delete h True show ?thesis by simp
  next
    case False
    from simulated_route [OF i(1) False, unfolded simulated_def, rule_format, OF h] show ?thesis
      using no_delete_harmless by (fastforce simp: list_all_iff)
  qed
next
  case (SubrouterDefault as)
  then have "auth_mw srv (\<lambda>r w. Some (finished as, w)) r w = Some (out, w')"
    using assms(2) by (simp add: route_def patterns_routes)
  then have "sys.truncate w' = sys.truncate w" by (cases rule: auth_mw_cases) auto
  then show ?thesis by (intro exI [of _ "[]"]) (simp add: served_as_same)
next
  case (RouterDefault as)
  then have "w' = w" using assms(2) by (simp add: route_def patterns_routes)
  then show ?thesis by (intro exI [of _ "[]"]) (simp add: served_as_same)
qed

lemma requestid_mw_truncate: "requestid_mw srv r w = (x, w1) \<Longrightarrow> sys.truncate w1 = sys.truncate w"
  using requestid_mw_cases by fastforce

lemma http_serve_serves:
  assumes "chi_ok (libs srv)" and "http_serve srv r w = Some (resp, w')"
  shows "\<exists>qs. served_as srv w w' qs \<and> list_all (harmless srv r) qs"
proof -
  obtain x w1 where m: "requestid_mw srv r w = (x, w1)" by (cases "requestid_mw srv r w")
  note t = requestid_mw_truncate [OF m]
  show ?thesis
  proof (cases x)
    case (Inl e)
    with m t assms(2) show ?thesis by (intro exI [of _ "[]"]) (auto simp: http_serve_def served_as_same)
  next
    case (Inr r1)
    from requestid_mw_cases [OF m] Inr obtain i where r1: "r1 = r\<lparr>r_ctx := SetRequestID (r_ctx r) i\<rparr>" by auto
    obtain out where "route srv r1 w1 = Some (out, w')"
      using assms(2) m Inr by (auto simp: http_serve_def split: option.splits)
    from route_serves [OF assms(1) this] obtain qs where qs: "served_as srv w1 w' qs" "list_all (harmless srv r1) qs" by blast
    have "harmless srv r1 q = harmless srv r q" for q by (simp add: harmless_def deleting_def r1)
    with qs t show ?thesis by (intro exI [of _ qs]) (simp add: served_as_def list_all_iff)
  qed
qed

section \<open>Properties\<close>

text \<open>C6. Every http request, through routing, middlewares and handler, does to storage, delete queue and
  random numbers what at most one call of a service does; deletions are only asked for by \<open>DELETE\<close>
  requests with a valid session cookie, in the name of its user.\<close>

theorem http_refines_services:
  assumes "chi_ok (libs srv)" and "http_serve srv r w = Some (resp, w')"
  shows "\<exists>qs. length qs \<le> 1 \<and>
    serve_all (parseURL (libs srv)) (storage srv) (shortenerSvc srv) qs (sys.truncate w) = Some (sys.truncate w') \<and>
    (\<forall>q \<in> set qs. \<forall>k uid. deletes k uid q \<longrightarrow> deleting srv uid r)"
  using http_serve_serves [OF assms] by (auto simp: served_as_def harmless_def list_all_iff)

theorem http_refines_services_witness:
  "\<exists>resp w' qs. http_serve (sample_server memory_storage) (sample_hreq ''DELETE'' ''/api/user/urls'' ''ab'' True)
      (sample_world sample_mem) = Some (resp, w') \<and> length qs \<le> 1 \<and>
    serve_all sample_parse memory_storage sample_service qs (sys.truncate (sample_world sample_mem)) = Some (sys.truncate w')"
proof -
  have "\<not> Option.is_none (http_serve (sample_server memory_storage)
      (sample_hreq ''DELETE'' ''/api/user/urls'' ''ab'' True) (sample_world sample_mem))" by code_simp
  then obtain resp w' where s: "http_serve (sample_server memory_storage)
      (sample_hreq ''DELETE'' ''/api/user/urls'' ''ab'' True) (sample_world sample_mem) = Some (resp, w')"
    by (auto simp: Option.is_none_def)
  from http_refines_services [OF _ s] s show ?thesis by (auto simp: sample_chi_ok)
qed

end
