(* ===== verification/Grpc.thy ===== *)
theory Grpc
  imports HttpRun
begin

text \<open>
  The grpc server: \<open>internal/grpc/server/handlers.go\<close>, the chain of interceptors set up by
  \<open>internal/grpc/server/server.go\<close> and the interceptors of \<open>internal/grpc/interceptors\<close>
  (request id, logging, filter, authentication). It works on the same services, storage and
  configuration as the http server, so it takes the same \<^typ>\<open>'s Server\<close> and \<^typ>\<open>'s world\<close>.
\<close>

section \<open>Calls and answers\<close>

datatype code = OK | InvalidArgument | NotFound | FailedPrecondition | PermissionDenied | Internal | Unauthenticated

datatype greq =
    StatsRequest
  | ResolveRequest string
  | ShortenRequest string
  | ShortenBatchRequest "(string \<times> string) list"
  | DeleteBatchRequest "string list"
  | GetAllRequest

datatype gresp =
    StatsResponse int int
  | ResolveResponse string
  | ShortenResponse string
  | ShortenBatchResponse "(string \<times> string) list"
  | GetAllResponse "(string \<times> string) list"

text \<open>The method names of the service description that \<open>protoc\<close> generated.\<close>

fun FullMethod :: "greq \<Rightarrow> string" where
  "FullMethod StatsRequest = ''/shorty.shortener/Stats''"
| "FullMethod (ResolveRequest _) = ''/shorty.shortener/Resolve''"
| "FullMethod (ShortenRequest _) = ''/shorty.shortener/Shorten''"
| "FullMethod (ShortenBatchRequest _) = ''/shorty.shortener/ShortenBatch''"
| "FullMethod (DeleteBatchRequest _) = ''/shorty.shortener/DeleteBatch''"
| "FullMethod GetAllRequest = ''/shorty.shortener/GetAll''"

text \<open>
  A call with its metadata (\<open>metadata.FromIncomingContext\<close>), the peer's address, the time
  and what \<open>grpc.SendHeader\<close> returns.
\<close>

record gcall =
  g_req :: greq
  g_md :: "(string \<Rightarrow> string list) option"
  g_peer :: "string option"
  g_now :: int
  g_send_err :: "gerr option"
  g_ctx :: gctx

text \<open>
  The result of a handler or interceptor: a response that may be nil and a status error that
  may be nil, or a panic; \<open>g_header\<close> are the session tokens sent so far. A status made with
  code \<open>OK\<close> is no error.
\<close>

datatype gout = Done "gresp option" "(code \<times> string) option" | Panicked

type_synonym 's ghandler = "gcall \<Rightarrow> 's world \<Rightarrow> (gout \<times> string list \<times> 's world) option"

definition gerror :: "code \<Rightarrow> string \<Rightarrow> gout" where
  "gerror c m = Done None (if c = OK then None else Some (c, m))"

definition ErrRequestCtx :: string where
  "ErrRequestCtx = ''request context error''"

section \<open>Handlers\<close>

definition grpc_Stats :: "'s Server \<Rightarrow> 's ghandler" where
  "grpc_Stats srv c w = (case status_Stats (storage srv) (sto w) of
     ((_, Some err), s') \<Rightarrow> Some (gerror Internal ''internal error occured'', [], w\<lparr>sto := s'\<rparr>)
   | ((None, None), s') \<Rightarrow> Some (Panicked, [], w\<lparr>sto := s'\<rparr>)
   | ((Some resp, None), s') \<Rightarrow>
       Some (Done (Some (StatsResponse (URLs resp) (Users resp))) None, [], w\<lparr>sto := s'\<rparr>))"

definition grpc_Resolve :: "'s Server \<Rightarrow> string \<Rightarrow> 's ghandler" where
  "grpc_Resolve srv path c w = (case GetRequestID (g_ctx c) of
     None \<Rightarrow> Some (gerror Internal ErrRequestCtx, [], w)
   | Some reqID \<Rightarrow> (case Resolve (storage srv) path (sto w) of
       Panic \<Rightarrow> Some (Panicked, [], w)
     | Ret ((result, Some err), s') \<Rightarrow> Some
         (if errors_is err (Sentinel ErrInvalidPath) then gerror InvalidArgument ''invalid path''
          else if errors_is err (Sentinel ErrNotFound) then gerror NotFound ''path is not found''
          else if errors_is err (Sentinel ErrDeleted) then gerror FailedPrecondition ''path is deleted''
          else gerror Internal ''internal error occurred'', [], w\<lparr>sto := s'\<rparr>)
     | Ret ((result, None), s') \<Rightarrow> Some (Done (Some (ResolveResponse result)) None, [], w\<lparr>sto := s'\<rparr>)))"

text \<open>
  The message of \<open>InvalidArgument\<close> is \<open>err.Error()\<close>; with the sentinel first in \<open>errors.Is\<close> only
  a bare sentinel gets there.
\<close>

definition grpc_Shorten :: "'s Server \<Rightarrow> string \<Rightarrow> 's ghandler" where
  "grpc_Shorten srv url c w = (case GetUserAndReqID (g_ctx c) of
     Inl e \<Rightarrow> Some (gerror Internal ErrRequestCtx, [], w)
   | Inr (u, reqID) \<Rightarrow>
      (case Shorten (parseURL (libs srv)) (storage srv) (shortenerSvc srv) u url (sto w) (rnd w) of
         ((result, oe), s', r') \<Rightarrow> Some
           (case oe of
              None \<Rightarrow> Done (Some (ShortenResponse result)) None
            | Some err \<Rightarrow>
                if errors_is (Sentinel ErrInvalidURL) err \<or> errors_is (Sentinel ErrUnsupportedURLScheme) err
                then gerror InvalidArgument (case err of Sentinel s \<Rightarrow> sentinel_text s | _ \<Rightarrow> [])
                else if errors_is (Sentinel ErrConflict) err
                then Done (Some (ShortenResponse result)) (Some (FailedPrecondition, ''url conflict''))
                else gerror Internal ''internal error'', [], w\<lparr>sto := s', rnd := r'\<rparr>)))"

definition grpc_ShortenBatch :: "'s Server \<Rightarrow> (string \<times> string) list \<Rightarrow> 's ghandler" where
  "grpc_ShortenBatch srv batch c w = (case GetUserAndReqID (g_ctx c) of
     Inl e \<Rightarrow> Some (gerror Internal ErrRequestCtx, [], w)
   | Inr (u, reqID) \<Rightarrow>
      (case ShortenBatch (storage srv) (shortenerSvc srv) u
          (map (\<lambda>(i, url). \<lparr>BID = i, BURL = url\<rparr>) batch) (sto w) (rnd w) of
         ((shortURLs, Some err), s', r') \<Rightarrow>
           Some (gerror Internal ''internal error'', [], w\<lparr>sto := s', rnd := r'\<rparr>)
       | ((shortURLs, None), s', r') \<Rightarrow>
           Some (Done (Some (ShortenBatchResponse (map (\<lambda>x. (SID x, SShort x)) shortURLs))) None, [],
             w\<lparr>sto := s', rnd := r'\<rparr>)))"

text \<open>The typed nil response of \<open>DeleteBatch\<close> is sent as an empty message, as nil is.\<close>

definition grpc_DeleteBatch :: "'s Server \<Rightarrow> string list \<Rightarrow> 's ghandler" where
  "grpc_DeleteBatch srv hashes c w = (case GetUserAndReqID (g_ctx c) of
     Inl e \<Rightarrow> Some (gerror Internal ErrRequestCtx, [], w)
   | Inr (u, reqID) \<Rightarrow> (case DeleteBatch (g_now c div 1000) u hashes (queue w) of
       None \<Rightarrow> None
     | Some (Some err, f) \<Rightarrow> Some
         (if errors_is (Sentinel ErrUnauthorized) err then gerror Unauthenticated ''unauthorized''
          else if errors_is (Sentinel ErrEmptyBatch) err then gerror InvalidArgument ''empty batch''
          else gerror Internal ''delete error'', [], w\<lparr>queue := f\<rparr>)
     | Some (None, f) \<Rightarrow> Some (gerror OK ''accepted'', [], w\<lparr>queue := f\<rparr>)))"

definition grpc_GetAll :: "'s Server \<Rightarrow> 's ghandler" where
  "grpc_GetAll srv c w = (case GetUserAndReqID (g_ctx c) of
     Inl e \<Rightarrow> Some (gerror Internal ErrRequestCtx, [], w)
   | Inr (u, reqID) \<Rightarrow> (case GetAll (storage srv) (shortenerSvc srv) u (sto w) of
       ((urls, Some err), s') \<Rightarrow> Some
         (if errors_is err (Sentinel ErrNotFound) then gerror NotFound ''no urls''
          else gerror Internal ''internal error'', [], w\<lparr>sto := s'\<rparr>)
     | ((urls, None), s') \<Rightarrow>
         Some (Done (Some (GetAllResponse (map (\<lambda>v. (Short v, Orig v)) urls))) None, [], w\<lparr>sto := s'\<rparr>)))"

definition grpc_handler :: "'s Server \<Rightarrow> 's ghandler" where
  "grpc_handler srv c = (case g_req c of
     StatsRequest \<Rightarrow> grpc_Stats srv c
   | ResolveRequest p \<Rightarrow> grpc_Resolve srv p c
   | ShortenRequest u \<Rightarrow> grpc_Shorten srv u c
   | ShortenBatchRequest b \<Rightarrow> grpc_ShortenBatch srv b c
   | DeleteBatchRequest hs \<Rightarrow> grpc_DeleteBatch srv hs c
   | GetAllRequest \<Rightarrow> grpc_GetAll srv c)"

section \<open>Interceptors\<close>

definition md_Get :: "(string \<Rightarrow> string list) option \<Rightarrow> string \<Rightarrow> string list" where
  "md_Get md k = (case md of None \<Rightarrow> [] | Some m \<Rightarrow> m k)"

definition getRequestIDFromContext :: "gcall \<Rightarrow> string option" where
  "getRequestIDFromContext c = (case md_Get (g_md c) ''x-request-id'' of [] \<Rightarrow> None | i # _ \<Rightarrow> Some i)"

definition requestid_int :: "'s Server \<Rightarrow> 's ghandler \<Rightarrow> 's ghandler" where
  "requestid_int srv h c w =
     (case (if trustRequestID srv then getRequestIDFromContext c else None) of
        Some reqID \<Rightarrow> h (c\<lparr>g_ctx := SetRequestID (g_ctx c) reqID\<rparr>) w
      | None \<Rightarrow> (case next_src (reqids w) of
            (Inl e, g) \<Rightarrow> Some (gerror Internal ''cannot generate request id'', [], w\<lparr>reqids := g\<rparr>)
          | (Inr u, g) \<Rightarrow> h (c\<lparr>g_ctx := SetRequestID (g_ctx c) u\<rparr>) (w\<lparr>reqids := g\<rparr>)))"

text \<open>\<open>logging.go\<close>: a panic is recovered; the unnamed results stay nil.\<close>

definition logging_int :: "'s ghandler \<Rightarrow> 's ghandler" where
  "logging_int h c w = (case h c w of
     Some (Panicked, toks, w') \<Rightarrow> Some (Done None None, toks, w')
   | r \<Rightarrow> r)"

definition filter_methods :: "string list" where
  "filter_methods = [''/shorty.shortener/Stats'']"

fun methodMatch :: "string list \<Rightarrow> string \<Rightarrow> bool" where
  "methodMatch [] m = False"
| "methodMatch (x # xs) m = (x = m \<or> methodMatch xs m)"

definition filter_int :: "'s Server \<Rightarrow> 's ghandler \<Rightarrow> 's ghandler" where
  "filter_int srv h c w =
     (if \<not> methodMatch filter_methods (FullMethod (g_req c)) then h c w
      else if Subnets (filterMW srv) = [] then Some (gerror PermissionDenied ''denied'', [], w)
      else
        (let remoteAddr = (case g_peer c of Some a \<Rightarrow> a | None \<Rightarrow> []);
             xff = (case md_Get (g_md c) ''x-forwarded-for'' of [] \<Rightarrow> [] | v # _ \<Rightarrow> v);
             xRealIP = (case md_Get (g_md c) ''x-real-ip'' of [] \<Rightarrow> [] | v # _ \<Rightarrow> v)
         in if CheckRequestParams (filterMW srv) remoteAddr xRealIP xff then h c w
            else Some (gerror PermissionDenied ''denied'', [], w)))"

definition sessionKey :: string where
  "sessionKey = ''shorty-sess-id''"

definition createOrParseUserFromMetadata ::
  "'s Server \<Rightarrow> int \<Rightarrow> (string \<Rightarrow> string list) \<Rightarrow> (gerr + nat list) src \<Rightarrow>
     (gerr + user \<times> string) \<times> (gerr + nat list) src" where
  "createOrParseUserFromMetadata srv now md g = (case md sessionKey of
     [] \<Rightarrow> CreateUserAndToken (jwt (libs srv)) (authorizer srv) now g
   | v # _ \<Rightarrow> CreateOrParseUserFromJWTString (jwt (libs srv)) (authorizer srv) now v g)"

definition auth_int :: "'s Server \<Rightarrow> 's ghandler \<Rightarrow> 's ghandler" where
  "auth_int srv h c w = (case g_md c of
     None \<Rightarrow> Some (gerror Internal ''cannot get metadata'', [], w)
   | Some md \<Rightarrow> (case createOrParseUserFromMetadata srv (g_now c) md (uuids w) of
       (Inl e, g) \<Rightarrow> Some (gerror Internal ''cannot create user session'', [], w\<lparr>uuids := g\<rparr>)
     | (Inr (u, token), g) \<Rightarrow>
         if token \<noteq> [] \<and> g_send_err c \<noteq> None
         then Some (gerror Internal ''cannot send header'', [], w\<lparr>uuids := g\<rparr>)
         else (case h (c\<lparr>g_ctx := SetUserContext (g_ctx c) u\<rparr>) (w\<lparr>uuids := g\<rparr>) of
             None \<Rightarrow> None
           | Some (out, toks, w') \<Rightarrow> Some (out, (if token \<noteq> [] then [token] else []) @ toks, w'))))"

text \<open>\<open>NewServer\<close> chains request id, logging, filter and authentication, the first outermost.\<close>

definition grpc_serve :: "'s Server \<Rightarrow> 's ghandler" where
  "grpc_serve srv = requestid_int srv (logging_int (filter_int srv (auth_int srv (grpc_handler srv))))"

text \<open>What the caller sees: a status other than \<open>OK\<close> replaces the message.\<close>

definition client_sees :: "gout \<Rightarrow> code \<times> gresp option" where
  "client_sees out = (case out of
     Done resp None \<Rightarrow> (OK, resp)
   | Done resp (Some (c, m)) \<Rightarrow> (c, None)
   | Panicked \<Rightarrow> (Internal, None))"

section \<open>Facts\<close>

lemma gerror_simps [simp]: "c \<noteq> OK \<Longrightarrow> gerror c m = Done None (Some (c, m))" "gerror OK m = Done None None"
  by (simp_all add: gerror_def)

lemma methodMatch_iff: "methodMatch xs m \<longleftrightarrow> m \<in> set xs"
  by (induction xs) auto

lemma filter_int_other: "g_req c \<noteq> StatsRequest \<Longrightarrow> filter_int srv h c w = h c w"
  by (cases "g_req c") (simp_all add: filter_int_def filter_methods_def)

text \<open>A call can be given a request id.\<close>

definition call_id :: "'s Server \<Rightarrow> gcall \<Rightarrow> 's world \<Rightarrow> bool" where
  "call_id srv c w \<longleftrightarrow> trustRequestID srv \<and> getRequestIDFromContext c \<noteq> None \<or> \<not> isl (reqids w 0)"

lemma requestid_int_eq:
  assumes "call_id srv c w"
  obtains i g where "requestid_int srv h c w = h (c\<lparr>g_ctx := SetRequestID (g_ctx c) i\<rparr>) (w\<lparr>reqids := g\<rparr>)"
proof (cases "if trustRequestID srv then getRequestIDFromContext c else None")
  case None
  with assms have "\<not> isl (reqids w 0)" by (auto simp: call_id_def split: if_splits)
  then obtain i g where i: "next_src (reqids w) = (Inr i, g)"
    by (cases "reqids w 0") (auto simp: next_src_def)
  show ?thesis by (rule that [of i g])
    (simp only: requestid_int_def None i option.case prod.case sum.case)
next
  case (Some i)
  show ?thesis by (rule that [of i "reqids w"]) (simp add: requestid_int_def Some)
qed

text \<open>The call as it reaches a handler other than \<open>Stats\<close>, once its user is known.\<close>

lemma grpc_serve_handler:
  assumes "call_id srv c w" and "g_req c \<noteq> StatsRequest" and "g_md c = Some md"
    and "createOrParseUserFromMetadata srv (g_now c) md (uuids w) = (Inr (u, tok), g)"
    and "tok = [] \<or> g_send_err c = None"
  obtains i g' where "grpc_serve srv c w =
    (case grpc_handler srv (c\<lparr>g_ctx := SetUserContext (SetRequestID (g_ctx c) i) u\<rparr>) (w\<lparr>reqids := g', uuids := g\<rparr>) of
       None \<Rightarrow> None
     | Some (out, toks, w') \<Rightarrow> Some (if out = Panicked then Done None None else out,
         (if tok \<noteq> [] then [tok] else []) @ toks, w'))"
proof -
  obtain i g' where s: "grpc_serve srv c w =
    logging_int (filter_int srv (auth_int srv (grpc_handler srv))) (c\<lparr>g_ctx := SetRequestID (g_ctx c) i\<rparr>) (w\<lparr>reqids := g'\<rparr>)"
    unfolding grpc_serve_def by (rule requestid_int_eq [OF assms(1)])
  have a: "auth_int srv (grpc_handler srv) (c\<lparr>g_ctx := SetRequestID (g_ctx c) i\<rparr>) (w\<lparr>reqids := g'\<rparr>) =
    (case grpc_handler srv (c\<lparr>g_ctx := SetUserContext (SetRequestID (g_ctx c) i) u\<rparr>) (w\<lparr>reqids := g', uuids := g\<rparr>) of
       None \<Rightarrow> None
     | Some (out, toks, w') \<Rightarrow> Some (out, (if tok \<noteq> [] then [tok] else []) @ toks, w'))"
    unfolding auth_int_def using assms(3-5) by (auto split: option.split)
  show ?thesis
    by (rule that [of i g']) (simp add: s logging_int_def filter_int_other assms(2) a split: option.split gout.split)
qed

section \<open>Every call is at most one request to the services\<close>

definition gsimulated :: "'s Server \<Rightarrow> (gcall \<Rightarrow> req \<Rightarrow> bool) \<Rightarrow> 's ghandler \<Rightarrow> bool" where
  "gsimulated srv P h \<longleftrightarrow> (\<forall>c w out toks w'. h c w = Some (out, toks, w') \<longrightarrow>
     (\<exists>qs. served_as srv w w' qs \<and> list_all (P c) qs))"

fun own_gdelete :: "gcall \<Rightarrow> req \<Rightarrow> bool" where
  "own_gdelete c (ReqDelete now usr shorts) \<longleftrightarrow>
     (\<exists>hs. g_req c = DeleteBatchRequest hs) \<and> GetUserFromContext (g_ctx c) = Some usr \<and> \<not> IsNew usr"
| "own_gdelete c _ \<longleftrightarrow> True"

lemma gsimulatedI:
  assumes "\<And>c w out toks w'. h c w = Some (out, toks, w') \<Longrightarrow> sys.truncate w' \<noteq> sys.truncate w \<Longrightarrow>
     \<exists>q. serve (parseURL (libs srv)) (storage srv) (shortenerSvc srv) q (sys.truncate w) = Some (sys.truncate w') \<and> P c q"
  shows "gsimulated srv P h"
  unfolding gsimulated_def
proof (intro allI impI)
  fix c w out toks w'
  assume h: "h c w = Some (out, toks, w')"
  show "\<exists>qs. served_as srv w w' qs \<and> list_all (P c) qs"
  proof (cases "sys.truncate w' = sys.truncate w")
    case True
    then show ?thesis by (intro exI [of _ "[]"]) (simp add: served_as_same)
  next
    case False
    from assms [OF h this] obtain q where
      "serve (parseURL (libs srv)) (storage srv) (shortenerSvc srv) q (sys.truncate w) = Some (sys.truncate w') \<and> P c q" ..
    then show ?thesis by (intro exI [of _ "[q]"]) (simp add: served_as_def)
  qed
qed

text \<open>Each handler, as the service request it makes.\<close>

lemma grpc_Stats_serve:
  "grpc_Stats srv c w = Some (out, toks, w') \<Longrightarrow>
     serve (parseURL (libs srv)) (storage srv) (shortenerSvc srv) ReqStats (sys.truncate w) = Some (sys.truncate w')"
  by (auto simp: grpc_Stats_def sys.truncate_def split: prod.splits option.splits)

lemma grpc_Resolve_serve:
  assumes "grpc_Resolve srv p c w = Some (out, toks, w')" and "sys.truncate w' \<noteq> sys.truncate w"
  shows "serve (parseURL (libs srv)) (storage srv) (shortenerSvc srv) (ReqResolve p) (sys.truncate w) = Some (sys.truncate w')"
proof -
  from assms obtain red oe s' where r: "Resolve (storage srv) p (sto w) = Ret ((red, oe), s')"
    by (cases "Resolve (storage srv) p (sto w)") (auto simp: grpc_Resolve_def split: option.splits)
  with assms have "w' = w\<lparr>sto := s'\<rparr>" by (auto simp: grpc_Resolve_def split: option.splits)
  with r show ?thesis by (simp add: sys.truncate_def)
qed

lemma grpc_Shorten_serve:
  assumes "grpc_Shorten srv url c w = Some (out, toks, w')" and "sys.truncate w' \<noteq> sys.truncate w"
  shows "\<exists>u. serve (parseURL (libs srv)) (storage srv) (shortenerSvc srv) (ReqShorten u url) (sys.truncate w)
    = Some (sys.truncate w')"
proof -
  from assms obtain u i where b: "GetUserAndReqID (g_ctx c) = Inr (u, i)"
    by (auto simp: grpc_Shorten_def split: sum.splits)
  obtain served oe s' r' where sh:
    "Shorten (parseURL (libs srv)) (storage srv) (shortenerSvc srv) u url (sto w) (rnd w) = ((served, oe), s', r')"
    by (metis surj_pair)
  with b assms(1) have "w' = w\<lparr>sto := s', rnd := r'\<rparr>" by (simp add: grpc_Shorten_def)
  with sh show ?thesis by (intro exI [of _ u]) (simp add: sys.truncate_def)
qed

lemma grpc_ShortenBatch_serve:
  assumes "grpc_ShortenBatch srv batch c w = Some (out, toks, w')" and "sys.truncate w' \<noteq> sys.truncate w"
  shows "\<exists>u b. serve (parseURL (libs srv)) (storage srv) (shortenerSvc srv) (ReqBatch u b) (sys.truncate w)
    = Some (sys.truncate w')"
proof -
  let ?b = "map (\<lambda>(i, url). \<lparr>BID = i, BURL = url\<rparr>) batch"
  from assms obtain u i where b: "GetUserAndReqID (g_ctx c) = Inr (u, i)"
    by (auto simp: grpc_ShortenBatch_def split: sum.splits)
  obtain res oe s' r' where sh:
    "ShortenBatch (storage srv) (shortenerSvc srv) u ?b (sto w) (rnd w) = ((res, oe), s', r')" by (metis surj_pair)
  with b assms(1) have "w' = w\<lparr>sto := s', rnd := r'\<rparr>"
    by (auto simp: grpc_ShortenBatch_def split: option.splits)
  with sh show ?thesis by (intro exI [of _ u] exI [of _ ?b]) (simp add: sys.truncate_def)
qed

lemma grpc_GetAll_serve:
  assumes "grpc_GetAll srv c w = Some (out, toks, w')" and "sys.truncate w' \<noteq> sys.truncate w"
  shows "\<exists>u. serve (parseURL (libs srv)) (storage srv) (shortenerSvc srv) (ReqGetAll u) (sys.truncate w)
    = Some (sys.truncate w')"
proof -
  from assms obtain u i where b: "GetUserAndReqID (g_ctx c) = Inr (u, i)"
    by (auto simp: grpc_GetAll_def split: sum.splits)
  obtain us oe s' where g: "GetAll (storage srv) (shortenerSvc srv) u (sto w) = ((us, oe), s')" by (metis surj_pair)
  with b assms(1) have "w' = w\<lparr>sto := s'\<rparr>" by (auto simp: grpc_GetAll_def split: option.splits)
  with g show ?thesis by (intro exI [of _ u]) (simp add: sys.truncate_def)
qed

lemma grpc_DeleteBatch_serve:
  assumes "grpc_DeleteBatch srv hs c w = Some (out, toks, w')" and "sys.truncate w' \<noteq> sys.truncate w"
  shows "\<exists>u now. GetUserFromContext (g_ctx c) = Some u \<and> \<not> IsNew u \<and>
    serve (parseURL (libs srv)) (storage srv) (shortenerSvc srv) (ReqDelete now u hs) (sys.truncate w)
    = Some (sys.truncate w')"
proof -
  from assms obtain u i where b: "GetUserAndReqID (g_ctx c) = Inr (u, i)"
    by (auto simp: grpc_DeleteBatch_def split: sum.splits)
  with assms(1) obtain oe f where d: "DeleteBatch (g_now c div 1000) u hs (queue w) = Some (oe, f)" "w' = w\<lparr>queue := f\<rparr>"
    by (auto simp: grpc_DeleteBatch_def split: option.splits)
  have "f \<noteq> queue w" using assms(2) d(2) by (auto simp: sys.truncate_def)
  then have "\<not> IsNew u" using d(1) by (auto simp: DeleteBatch_def)
  moreover have "GetUserFromContext (g_ctx c) = Some u"
    using b by (auto simp: GetUserAndReqID_def split: option.splits)
  ultimately show ?thesis using d
    by (intro exI [of _ u] exI [of _ "g_now c div 1000"]) (simp add: sys.truncate_def)
qed

lemma gsimulated_handler: "gsimulated srv own_gdelete (grpc_handler srv)"
proof (rule gsimulatedI)
  fix c w out toks w'
  assume h: "grpc_handler srv c w = Some (out, toks, w')" and n: "sys.truncate w' \<noteq> sys.truncate w"
  show "\<exists>q. serve (parseURL (libs srv)) (storage srv) (shortenerSvc srv) q (sys.truncate w)
      = Some (sys.truncate w') \<and> own_gdelete c q"
  proof (cases "g_req c")
    case StatsRequest
    with h have "grpc_Stats srv c w = Some (out, toks, w')" by (simp add: grpc_handler_def)
    from grpc_Stats_serve [OF this] show ?thesis by (intro exI [of _ ReqStats]) simp
  next
    case (ResolveRequest p)
    with h have "grpc_Resolve srv p c w = Some (out, toks, w')" by (simp add: grpc_handler_def)
    from grpc_Resolve_serve [OF this n] show ?thesis by (intro exI [of _ "ReqResolve p"]) simp
  next
    case (ShortenRequest url)
    with h have "grpc_Shorten srv url c w = Some (out, toks, w')" by (simp add: grpc_handler_def)
    from grpc_Shorten_serve [OF this n] obtain u where
      "serve (parseURL (libs srv)) (storage srv) (shortenerSvc srv) (ReqShorten u url) (sys.truncate w)
        = Some (sys.truncate w')" ..
    then show ?thesis by (intro exI [of _ "ReqShorten u url"]) simp
  next
    case (ShortenBatchRequest batch)
    with h have "grpc_ShortenBatch srv batch c w = Some (out, toks, w')" by (simp add: grpc_handler_def)
    from grpc_ShortenBatch_serve [OF this n] obtain u b where
      "serve (parseURL (libs srv)) (storage srv) (shortenerSvc srv) (ReqBatch u b) (sys.truncate w)
        = Some (sys.truncate w')" by blast
    then show ?thesis by (intro exI [of _ "ReqBatch u b"]) simp
  next
    case (DeleteBatchRequest hs)
    with h have "grpc_DeleteBatch srv hs c w = Some (out, toks, w')" by (simp add: grpc_handler_def)
    from grpc_DeleteBatch_serve [OF this n] obtain u now where
      "GetUserFromContext (g_ctx c) = Some u" "\<not> IsNew u"
      "serve (parseURL (libs srv)) (storage srv) (shortenerSvc srv) (ReqDelete now u hs) (sys.truncate w)
        = Some (sys.truncate w')" by blast
    with DeleteBatchRequest show ?thesis by (intro exI [of _ "ReqDelete now u hs"]) simp
  next
    case GetAllRequest
    with h have "grpc_GetAll srv c w = Some (out, toks, w')" by (simp add: grpc_handler_def)
    from grpc_GetAll_serve [OF this n] obtain u where
      "serve (parseURL (libs srv)) (storage srv) (shortenerSvc srv) (ReqGetAll u) (sys.truncate w)
        = Some (sys.truncate w')" ..
    then show ?thesis by (intro exI [of _ "ReqGetAll u"]) simp
  qed
qed

text \<open>The call asks, with a valid session, for deletions in the name of user \<open>uid\<close>.\<close>

definition gdeleting :: "'s Server \<Rightarrow> string \<Rightarrow> gcall \<Rightarrow> bool" where
  "gdeleting srv uid c \<longleftrightarrow> (\<exists>hs. g_req c = DeleteBatchRequest hs) \<and>
     (\<exists>md v vs u. g_md c = Some md \<and> md sessionKey = v # vs \<and>
       getUserFromJWT (jwt (libs srv)) (authorizer srv) (g_now c) v = Inr u \<and> ID u = uid)"

definition gharmless :: "'s Server \<Rightarrow> gcall \<Rightarrow> req \<Rightarrow> bool" where
  "gharmless srv c q \<longleftrightarrow> (\<forall>k uid. deletes k uid q \<longrightarrow> gdeleting srv uid c)"

lemma md_user_cookie:
  assumes "createOrParseUserFromMetadata srv now md g = (Inr (u, tok), g')" and "\<not> IsNew u"
  shows "\<exists>v vs. md sessionKey = v # vs \<and> getUserFromJWT (jwt (libs srv)) (authorizer srv) now v = Inr u"
proof (cases "md sessionKey")
  case Nil
  with assms CreateUserAndToken_ok show ?thesis
    by (fastforce simp: createOrParseUserFromMetadata_def IsNew_def)
next
  case (Cons v vs)
  show ?thesis
  proof (cases "getUserFromJWT (jwt (libs srv)) (authorizer srv) now v")
    case (Inl e)
    with Cons assms CreateUserAndToken_ok show ?thesis
      by (fastforce simp: createOrParseUserFromMetadata_def CreateOrParseUserFromJWTString_def IsNew_def)
  next
    case (Inr u')
    with Cons assms show ?thesis
      by (auto simp: createOrParseUserFromMetadata_def CreateOrParseUserFromJWTString_def)
  qed
qed

lemma auth_int_cases:
  assumes "auth_int srv h c w = Some (out, toks, w')"
  obtains (same) "sys.truncate w' = sys.truncate w"
  | (inner) md u tok g toks' where "g_md c = Some md"
      "createOrParseUserFromMetadata srv (g_now c) md (uuids w) = (Inr (u, tok), g)"
      "h (c\<lparr>g_ctx := SetUserContext (g_ctx c) u\<rparr>) (w\<lparr>uuids := g\<rparr>) = Some (out, toks', w')"
proof (cases "g_md c")
  case None
  with assms same show ?thesis by (auto simp: auth_int_def)
next
  case (Some md)
  obtain x g where x: "createOrParseUserFromMetadata srv (g_now c) md (uuids w) = (x, g)"
    by (cases "createOrParseUserFromMetadata srv (g_now c) md (uuids w)")
  with Some assms same inner show ?thesis by (auto simp: auth_int_def split: sum.splits option.splits if_splits)
qed

lemma auth_int_serves:
  assumes "auth_int srv (grpc_handler srv) c w = Some (out, toks, w')"
  shows "\<exists>qs. served_as srv w w' qs \<and> list_all (gharmless srv c) qs"
  using assms
proof (cases rule: auth_int_cases)
  case same
  then show ?thesis by (intro exI [of _ "[]"]) (simp add: served_as_same)
next
  case (inner md u tok g toks')
  from gsimulated_handler [unfolded gsimulated_def, rule_format, OF inner(3)]
  obtain qs where qs: "served_as srv w w' qs"
      "list_all (own_gdelete (c\<lparr>g_ctx := SetUserContext (g_ctx c) u\<rparr>)) qs"
    by (auto simp: served_as_frame)
  have "gharmless srv c q" if "own_gdelete (c\<lparr>g_ctx := SetUserContext (g_ctx c) u\<rparr>) q" for q
    using that md_user_cookie [OF inner(2)] inner(1) by (cases q) (auto simp: gharmless_def gdeleting_def)
  with qs show ?thesis by (auto simp: list_all_iff)
qed

lemma filter_int_cases:
  "filter_int srv h c w = Some (out, toks, w') \<Longrightarrow> h c w = Some (out, toks, w') \<or> w' = w"
  by (auto simp: filter_int_def Let_def split: if_splits)

lemma logging_int_cases:
  "logging_int h c w = Some (out, toks, w') \<Longrightarrow> \<exists>out'. h c w = Some (out', toks, w')"
  by (auto simp: logging_int_def split: option.splits gout.splits)

lemma requestid_int_cases:
  assumes "requestid_int srv h c w = Some (out, toks, w')"
  obtains (same) "sys.truncate w' = sys.truncate w"
  | (inner) i g where "h (c\<lparr>g_ctx := SetRequestID (g_ctx c) i\<rparr>) (w\<lparr>reqids := g\<rparr>) = Some (out, toks, w')"
proof (cases "if trustRequestID srv then getRequestIDFromContext c else None")
  case None
  obtain x g where x: "next_src (reqids w) = (x, g)" by (cases "next_src (reqids w)")
  show ?thesis
  proof (cases x)
    case (Inl e)
    with assms None x have "w' = w\<lparr>reqids := g\<rparr>" unfolding requestid_int_def by simp
    with same show ?thesis by simp
  next
    case (Inr i)
    with assms None x have "h (c\<lparr>g_ctx := SetRequestID (g_ctx c) i\<rparr>) (w\<lparr>reqids := g\<rparr>) = Some (out, toks, w')"
      unfolding requestid_int_def by simp
    with inner show ?thesis by blast
  qed
next
  case (Some i)
  with assms have "h (c\<lparr>g_ctx := SetRequestID (g_ctx c) i\<rparr>) (w\<lparr>reqids := reqids w\<rparr>) = Some (out, toks, w')"
    unfolding requestid_int_def by simp
  with inner show ?thesis by blast
qed

lemma grpc_serve_serves:
  assumes "grpc_serve srv c w = Some (out, toks, w')"
  shows "\<exists>qs. served_as srv w w' qs \<and> list_all (gharmless srv c) qs"
  using assms unfolding grpc_serve_def
proof (cases rule: requestid_int_cases)
  case same
  then show ?thesis by (intro exI [of _ "[]"]) (simp add: served_as_same)
next
  case (inner i g)
  let ?c = "c\<lparr>g_ctx := SetRequestID (g_ctx c) i\<rparr>" and ?w = "w\<lparr>reqids := g\<rparr>"
  from logging_int_cases [OF inner] obtain out' where
    "filter_int srv (auth_int srv (grpc_handler srv)) ?c ?w = Some (out', toks, w')" by blast
  from filter_int_cases [OF this] show ?thesis
  proof
    assume "auth_int srv (grpc_handler srv) ?c ?w = Some (out', toks, w')"
    moreover have "gharmless srv ?c = gharmless srv c" by (intro ext) (simp add: gharmless_def gdeleting_def)
    moreover have "served_as srv ?w w' = served_as srv w w'" by (intro ext) (simp add: served_as_def)
    ultimately show ?thesis using auth_int_serves by metis
  next
    assume "w' = ?w"
    then show ?thesis by (intro exI [of _ "[]"]) (simp add: served_as_same)
  qed
qed

section \<open>Resolving and shortening over grpc\<close>

text \<open>The outcome of \<open>Shorten\<close> through the whole chain.\<close>

lemma grpc_shorten:
  assumes "call_id srv c w" and "g_req c = ShortenRequest url" and "g_md c = Some md"
    and "createOrParseUserFromMetadata srv (g_now c) md (uuids w) = (Inr (u, tok), g)"
    and "tok = [] \<or> g_send_err c = None"
    and "Shorten (parseURL (libs srv)) (storage srv) (shortenerSvc srv) u url (sto w) (rnd w) = ((served, oe), s', r')"
  shows "\<exists>out toks w'. grpc_serve srv c w = Some (out, toks, w') \<and> sto w' = s' \<and> queue w' = queue w \<and>
    client_sees out = (case parseURL (libs srv) url of
        Inl e \<Rightarrow> (Internal, None)
      | Inr pu \<Rightarrow>
          if redirectScheme (shortenerSvc srv) \<notin> {[], Scheme pu} then (InvalidArgument, None)
          else if oe = None then (OK, Some (ShortenResponse served))
          else if oe = Some (Sentinel ErrConflict) then (FailedPrecondition, None) else (Internal, None))"
proof -
  obtain i g' where s: "grpc_serve srv c w =
    (case grpc_handler srv (c\<lparr>g_ctx := SetUserContext (SetRequestID (g_ctx c) i) u\<rparr>) (w\<lparr>reqids := g', uuids := g\<rparr>) of
       None \<Rightarrow> None
     | Some (out, toks, w') \<Rightarrow> Some (if out = Panicked then Done None None else out,
         (if tok \<noteq> [] then [tok] else []) @ toks, w'))"
    by (rule grpc_serve_handler [OF assms(1) _ assms(3-5)]) (simp add: assms(2))
  show ?thesis
    using assms(6)
    by (auto simp: s grpc_handler_def grpc_Shorten_def assms(2) Shorten_def client_sees_def errors_join_def
        map_filter_simps split: sum.splits if_splits option.splits prod.splits)
qed

context url_storage
begin

lemma grpc_resolve:
  assumes "ok (sto w)" and "storage srv = st" and "call_id srv c w" and "g_req c = ResolveRequest path"
    and "g_md c = Some md" and "createOrParseUserFromMetadata srv (g_now c) md (uuids w) = (Inr (u, tok), g)"
    and "tok = [] \<or> g_send_err c = None"
  shows "\<exists>out toks w'. grpc_serve srv c w = Some (out, toks, w') \<and> view (sto w') = view (sto w) \<and> ok (sto w') \<and>
    client_sees out = (case path of
        [] \<Rightarrow> (OK, None)
      | x # p \<Rightarrow>
          if x \<noteq> CHR ''/'' \<or> \<not> list_all pathChar p then (InvalidArgument, None)
          else (case view (sto w) p of
              None \<Rightarrow> (NotFound, None)
            | Some en \<Rightarrow> if e_deleted en then (FailedPrecondition, None)
                else (OK, Some (ResolveResponse (e_orig en)))))"
proof -
  obtain i g' where s: "grpc_serve srv c w =
    (case grpc_handler srv (c\<lparr>g_ctx := SetUserContext (SetRequestID (g_ctx c) i) u\<rparr>) (w\<lparr>reqids := g', uuids := g\<rparr>) of
       None \<Rightarrow> None
     | Some (out, toks, w') \<Rightarrow> Some (if out = Panicked then Done None None else out,
         (if tok \<noteq> [] then [tok] else []) @ toks, w'))"
    by (rule grpc_serve_handler [OF assms(3) _ assms(5-7)]) (simp add: assms(4))
  note hd = s grpc_handler_def grpc_Resolve_def assms(2,4)
  show ?thesis
  proof (cases path)
    case Nil
    then have "Resolve st path (sto w) = Panic" by (simp add: Resolve_def)
    then show ?thesis using assms(1) Nil by (simp add: hd client_sees_def)
  next
    case (Cons x p)
    show ?thesis
    proof (cases "x = CHR ''/''")
      case False
      then have "Resolve st path (sto w) =
          Ret (([], errors_join [Some (Sentinel ErrInvalidPath), Some (Errmsg ''path is not starts with /'')]), sto w)"
        using Cons by (simp add: Resolve_def)
      then show ?thesis using assms(1) Cons False
        by (simp add: hd client_sees_def errors_join_def map_filter_simps)
    next
      case True
      obtain red oe s' where r: "Resolve st (CHR ''/'' # p) (sto w) = Ret ((red, oe), s')"
        by (cases "Resolve st (CHR ''/'' # p) (sto w)")
          (auto simp: Resolve_def split: option.splits prod.splits)
      note st' = resolve_state [OF assms(1) r]
      have "oe = (if \<not> list_all pathChar p then Some (Join [Sentinel ErrInvalidPath, the (validate_loop p)])
          else case view (sto w) p of
            None \<Rightarrow> Some (Join [Sentinel ErrResolverStorage, Sentinel ErrNotFound])
          | Some en \<Rightarrow> if e_deleted en then Some (Join [Sentinel ErrResolverStorage, Sentinel ErrDeleted]) else None)"
        "oe = None \<Longrightarrow> red = e_orig (the (view (sto w) p))"
        using resolve_result [OF assms(1), of p] r by (auto simp: Let_def split: option.splits if_splits)
      then show ?thesis using st' r Cons True
        by (auto simp: hd client_sees_def split: option.splits)
    qed
  qed
qed

end

section \<open>Properties\<close>

definition sample_call :: "greq \<Rightarrow> bool \<Rightarrow> gcall" where
  "sample_call q c = \<lparr>g_req = q, g_md = Some (\<lambda>k. if c \<and> k = sessionKey then [''Tu1''] else []),
     g_peer = Some ''8.8.8.8:1'', g_now = 0, g_send_err = None, g_ctx = []\<rparr>"

lemma sample_call_simps [simp]:
  "g_req (sample_call q c) = q" "g_peer (sample_call q c) = Some ''8.8.8.8:1''" "g_send_err (sample_call q c) = None"
  "g_md (sample_call q c) = Some (\<lambda>k. if c \<and> k = sessionKey then [''Tu1''] else [])" "g_now (sample_call q c) = 0"
  by (simp_all add: sample_call_def)

lemma sample_call_id [simp]: "call_id (sample_server st) c (sample_world s)"
  by (simp add: call_id_def sample_world_def)

lemma sample_md_user [simp]:
  "createOrParseUserFromMetadata (sample_server st) 0 (\<lambda>k. if k = sessionKey then [''Tu1''] else []) g
     = (Inr (owner_user, []), g)"
  by (simp add: createOrParseUserFromMetadata_def CreateOrParseUserFromJWTString_def
      getUserFromJWT_def sample_server_def sample_httplibs_def sample_jwt_def jwt_key_def auth_New_def
      NewWithID_def owner_user_def)

text \<open>C34. What a grpc client sees of \<open>Resolve\<close> on file storage, for every path: the original url, or
  \<open>InvalidArgument\<close>, \<open>NotFound\<close>, \<open>FailedPrecondition\<close> for an invalid, unknown and deleted path; and for
  the empty path success with no message, because the panic of the resolver is recovered by the
  logging interceptor, which then returns nil twice.\<close>

theorem grpc_resolve_file:
  assumes "file_ok (sto w)" and "storage srv = file_storage" and "call_id srv c w" and "g_req c = ResolveRequest path"
    and "g_md c = Some md" and "createOrParseUserFromMetadata srv (g_now c) md (uuids w) = (Inr (u, tok), g)"
    and "tok = [] \<or> g_send_err c = None"
  shows "\<exists>out toks w'. grpc_serve srv c w = Some (out, toks, w') \<and> file_view (sto w') = file_view (sto w) \<and>
    client_sees out = (case path of
        [] \<Rightarrow> (OK, None)
      | x # p \<Rightarrow>
          if x \<noteq> CHR ''/'' \<or> \<not> list_all pathChar p then (InvalidArgument, None)
          else (case file_view (sto w) p of
              None \<Rightarrow> (NotFound, None)
            | Some en \<Rightarrow> if e_deleted en then (FailedPrecondition, None)
                else (OK, Some (ResolveResponse (e_orig en)))))"
  using url_storage.grpc_resolve [OF fil.url_storage_axioms assms] by blast

theorem grpc_resolve_file_witness:
  "\<exists>out toks w'. grpc_serve (sample_server file_storage) (sample_call (ResolveRequest []) True)
      (sample_world (sample_file True)) = Some (out, toks, w') \<and> client_sees out = (OK, None)"
  using grpc_resolve_file [of "sample_world (sample_file True)" "sample_server file_storage"
      "sample_call (ResolveRequest []) True" "[]" "\<lambda>k. if k = sessionKey then [''Tu1''] else []" owner_user "[]"
      "\<lambda>_. Inr sample_uuid"] by (auto simp: file_ok_def sample_file_ok)

text \<open>The statistics are guarded over grpc as over http: a \<open>Stats\<close> call whose addresses do not pass
  the filter is denied before authentication and the handler, and changes nothing; the other methods are
  never filtered.\<close>

theorem grpc_stats_guarded:
  assumes "call_id srv c w" and "g_req c = StatsRequest"
    and "Subnets (filterMW srv) = [] \<or> \<not> CheckRequestParams (filterMW srv)
      (case g_peer c of Some a \<Rightarrow> a | None \<Rightarrow> [])
      (case md_Get (g_md c) ''x-real-ip'' of [] \<Rightarrow> [] | v # _ \<Rightarrow> v)
      (case md_Get (g_md c) ''x-forwarded-for'' of [] \<Rightarrow> [] | v # _ \<Rightarrow> v)"
  shows "\<exists>w'. grpc_serve srv c w = Some (Done None (Some (PermissionDenied, ''denied'')), [], w') \<and>
    sys.truncate w' = sys.truncate w \<and> uuids w' = uuids w"
proof -
  obtain i g where s: "grpc_serve srv c w =
    logging_int (filter_int srv (auth_int srv (grpc_handler srv))) (c\<lparr>g_ctx := SetRequestID (g_ctx c) i\<rparr>) (w\<lparr>reqids := g\<rparr>)"
    unfolding grpc_serve_def by (rule requestid_int_eq [OF assms(1)])
  have "filter_int srv h (c\<lparr>g_ctx := x\<rparr>) w1 = Some (gerror PermissionDenied ''denied'', [], w1)" for h x w1
    unfolding filter_int_def using assms(2,3) by (auto simp: Let_def filter_methods_def)
  then show ?thesis by (simp add: s logging_int_def)
qed

theorem grpc_stats_guarded_witness:
  "\<exists>w'. grpc_serve (sample_server memory_storage) (sample_call StatsRequest True) (sample_world sample_mem)
      = Some (Done None (Some (PermissionDenied, ''denied'')), [], w')"
proof -
  have "\<not> CheckRequestParams sample_filter ''8.8.8.8:1'' [] []" by code_simp
  moreover have "sessionKey \<noteq> ''x-real-ip''" "sessionKey \<noteq> ''x-forwarded-for''" by (simp_all add: sessionKey_def)
  ultimately show ?thesis
    using grpc_stats_guarded [of "sample_server memory_storage" "sample_call StatsRequest True" "sample_world sample_mem"]
    by (auto simp: md_Get_def)
qed

text \<open>C35. What a grpc client sees of \<open>Shorten\<close>: the short url when the link was created,
  \<open>InvalidArgument\<close> for a refused scheme, \<open>Internal\<close> for a string that is no url and for every other
  error; a conflict is \<open>FailedPrecondition\<close>, and the existing short url the handler returns with it
  never reaches the client.\<close>

theorem grpc_shorten_codes:
  assumes "call_id srv c w" and "g_req c = ShortenRequest url" and "g_md c = Some md"
    and "createOrParseUserFromMetadata srv (g_now c) md (uuids w) = (Inr (u, tok), g)"
    and "tok = [] \<or> g_send_err c = None"
    and "Shorten (parseURL (libs srv)) (storage srv) (shortenerSvc srv) u url (sto w) (rnd w) = ((served, oe), s', r')"
  shows "\<exists>out toks w'. grpc_serve srv c w = Some (out, toks, w') \<and> sto w' = s' \<and>
    client_sees out = (case parseURL (libs srv) url of
        Inl e \<Rightarrow> (Internal, None)
      | Inr pu \<Rightarrow>
          if redirectScheme (shortenerSvc srv) \<notin> {[], Scheme pu} then (InvalidArgument, None)
          else if oe = None then (OK, Some (ShortenResponse served))
          else if oe = Some (Sentinel ErrConflict) then (FailedPrecondition, None) else (Internal, None))"
  using grpc_shorten [OF assms] by blast

theorem grpc_shorten_codes_witness:
  "\<exists>out toks w'. grpc_serve (sample_server memory_storage) (sample_call (ShortenRequest []) True)
      (sample_world sample_mem) = Some (out, toks, w') \<and> client_sees out = (Internal, None)"
proof -
  have "sample_parse [] = Inl (Errmsg ''empty url'')" by (simp add: sample_parse_def sample_libs_def)
  moreover from this have "Shorten sample_parse memory_storage sample_service owner_user [] sample_mem sample_rnd =
     (([], errors_join [Some (Sentinel ErrInvalidURL), Some (Errmsg ''empty url'')]), sample_mem, sample_rnd)"
    by (simp add: Shorten_def)
  ultimately show ?thesis
    using grpc_shorten_codes [of "sample_server memory_storage" "sample_call (ShortenRequest []) True"
        "sample_world sample_mem" "[]" "\<lambda>k. if k = sessionKey then [''Tu1''] else []" owner_user "[]"
        "\<lambda>_. Inr sample_uuid"] by auto
qed

end
