(* ===== verification/AppRun.thy ===== *)
theory AppRun
  imports Grpc
begin

text \<open>
  The two servers together: sequences of http requests, grpc calls and flushes of the delete
  queue, all on one storage, and what they keep.
\<close>

section \<open>Sequences of requests to both servers\<close>

datatype event = Request hreq | Call gcall | Flush_queue

fun app_event :: "'s Server \<Rightarrow> event \<Rightarrow> 's world \<Rightarrow> 's world option" where
  "app_event srv (Request r) w = map_option snd (http_serve srv r w)"
| "app_event srv (Call c) w = map_option (\<lambda>(out, toks, w'). w') (grpc_serve srv c w)"
| "app_event srv Flush_queue w = (case flush_deletes (storage srv) (queue w) (sto w) of
     (f, s') \<Rightarrow> Some (w\<lparr>sto := s', queue := f\<rparr>))"

fun app_run :: "'s Server \<Rightarrow> event list \<Rightarrow> 's world \<Rightarrow> 's world option" where
  "app_run srv [] w = Some w"
| "app_run srv (e # es) w = (case app_event srv e w of None \<Rightarrow> None | Some w' \<Rightarrow> app_run srv es w')"

text \<open>The event does not ask for deletions in the name of user \<open>uid\<close>.\<close>

fun spares :: "'s Server \<Rightarrow> string \<Rightarrow> event \<Rightarrow> bool" where
  "spares srv uid (Request r) \<longleftrightarrow> \<not> deleting srv uid r"
| "spares srv uid (Call c) \<longleftrightarrow> \<not> gdeleting srv uid c"
| "spares srv uid Flush_queue \<longleftrightarrow> True"

lemma serve_all_append:
  "serve_all parse st svc (qs @ rs) x = (case serve_all parse st svc qs x of
     None \<Rightarrow> None | Some y \<Rightarrow> serve_all parse st svc rs y)"
  by (induction qs arbitrary: x) (auto split: option.splits)

lemma app_event_serves:
  assumes "chi_ok (libs srv)" and "app_event srv e w = Some w'" and "spares srv uid e"
  shows "\<exists>qs. serve_all (parseURL (libs srv)) (storage srv) (shortenerSvc srv) qs (sys.truncate w)
    = Some (sys.truncate w') \<and> list_all (\<lambda>q. \<forall>k. \<not> deletes k uid q) qs"
proof (cases e)
  case (Request r)
  with assms(2) obtain resp where "http_serve srv r w = Some (resp, w')" by auto
  from http_serve_serves [OF assms(1) this] assms(3) Request show ?thesis
    by (fastforce simp: served_as_def harmless_def list_all_iff)
next
  case (Call c)
  with assms(2) obtain out toks where "grpc_serve srv c w = Some (out, toks, w')" by auto
  from grpc_serve_serves [OF this] assms(3) Call show ?thesis
    by (fastforce simp: served_as_def gharmless_def list_all_iff)
next
  case Flush_queue
  with assms(2) show ?thesis
    by (intro exI [of _ "[FlushQueue]"]) (auto simp: sys.truncate_def split: prod.splits)
qed

lemma app_run_serves:
  assumes "chi_ok (libs srv)" and "app_run srv es w = Some w'" and "list_all (spares srv uid) es"
  shows "\<exists>qs. serve_all (parseURL (libs srv)) (storage srv) (shortenerSvc srv) qs (sys.truncate w)
    = Some (sys.truncate w') \<and> list_all (\<lambda>q. \<forall>k. \<not> deletes k uid q) qs"
  using assms(2,3)
proof (induction es arbitrary: w)
  case Nil
  then show ?case by (intro exI [of _ "[]"]) simp
next
  case (Cons e es)
  then obtain w1 where w1: "app_event srv e w = Some w1" "app_run srv es w1 = Some w'"
    by (auto split: option.splits)
  with Cons obtain qs where qs: "serve_all (parseURL (libs srv)) (storage srv) (shortenerSvc srv) qs (sys.truncate w1)
    = Some (sys.truncate w')" "list_all (\<lambda>q. \<forall>k. \<not> deletes k uid q) qs" by auto
  from app_event_serves [OF assms(1) w1(1), of uid] Cons.prems(2)
  obtain ps where "serve_all (parseURL (libs srv)) (storage srv) (shortenerSvc srv) ps (sys.truncate w)
    = Some (sys.truncate w1)" "list_all (\<lambda>q. \<forall>k. \<not> deletes k uid q) ps" by auto
  with qs show ?case by (intro exI [of _ "ps @ qs"]) (simp add: serve_all_append)
qed

context url_storage
begin

text \<open>A link that \<open>POST /\<close> created: it is in the storage under the path that was answered.\<close>

lemma http_link_created:
  assumes "ok (sto w)" and "storage srv = st" and "chi_ok (libs srv)" and "comp_ok (compressor (libs srv))"
    and "r_method r = ''POST''" and "r_path r = ''/''"
    and "createOrParseUserFromRequest srv r (uuids w) = (Inr (u, tok), g)"
    and "http_serve srv r w = Some (resp, w1)" and "sent resp = Some (201, h)"
  obtains bdy pu p where "readBody (libs srv) r = Inr bdy" "parseURL (libs srv) bdy = Inr pu" "queue w1 = queue w"
    "received (compressor (libs srv)) resp = Some (getServedURL (shortenerSvc srv) p)"
    "random_path (pathLength (shortenerSvc srv)) p" "ok (sto w1)"
    "view (sto w1) p = Some (new_entry u (url_String pu))"
proof -
  obtain bdy served r' where b: "readBody (libs srv) r = Inr bdy" "queue w1 = queue w"
    "Shorten (parseURL (libs srv)) (storage srv) (shortenerSvc srv) u bdy (sto w) (rnd w) = ((served, None), sto w1, r')"
    "received (compressor (libs srv)) resp = Some served"
    using http_plain_201 [OF assms(3-6,8,9)] assms(7) by (metis Inr_inject Pair_inject)
  from Shorten_ok [OF b(3) [unfolded assms(2)] assms(1)] obtain pu p where "parseURL (libs srv) bdy = Inr pu"
    "served = getServedURL (shortenerSvc srv) p" "random_path (pathLength (shortenerSvc srv)) p"
    "view (sto w1) p = Some (new_entry u (url_String pu))" "ok (sto w1)" by auto
  with b that show thesis by simp
qed

text \<open>Requests that spare the links of its user keep it, also in the delete queue.\<close>

lemma app_run_keeps:
  assumes "ok (sto w)" and "storage srv = st" and "chi_ok (libs srv)"
    and "view (sto w) k = Some en" and "\<not> e_deleted en" and "\<not> requested (buf (queue w)) k (e_user en)"
    and "app_run srv es w = Some w'" and "list_all (spares srv (e_user en)) es"
  shows "ok (sto w') \<and> view (sto w') k = Some en \<and> \<not> requested (buf (queue w')) k (e_user en)"
proof -
  from app_run_serves [OF assms(3,7,8)] obtain qs where
    qs: "serve_all (parseURL (libs srv)) st (shortenerSvc srv) qs (sys.truncate w) = Some (sys.truncate w')"
    "list_all (\<lambda>q. \<forall>k. \<not> deletes k (e_user en) q) qs" using assms(2) by auto
  from serve_all_keeps [OF qs(1), of k en] assms(1,4-6) qs(2) show ?thesis by (auto simp: list_all_iff)
qed

text \<open>A link in the storage is followed: \<open>GET\<close> of its path redirects.\<close>

lemma http_link_followed:
  assumes "ok (sto w)" and "storage srv = st" and "chi_ok (libs srv)" and "has_id srv r w"
    and "r_method r = ''GET''" and "r_path r = CHR ''/'' # p"
    and "random_path n p" and "n \<noteq> 0" and "n \<noteq> 4" and "view (sto w) p = Some (new_entry u url)"
  shows "\<exists>resp w'. http_serve srv r w = Some (resp, w') \<and> sent resp = Some (307, [''Location'' \<mapsto> url])"
proof -
  note pp = random_path_valid [OF assms(7)]
  then have np: "p \<noteq> []" "CHR ''/'' \<notin> set p" "p \<noteq> ''ping''"
    using assms(8,9) by (auto simp: list_all_iff pathChar_def IsLetter_def IsDigit_def)
  show ?thesis using http_resolve [OF assms(1-6) np] assms(10) pp by auto
qed

text \<open>A link that \<open>POST /\<close> created, followed after any later requests that spare its owner's links.\<close>

lemma app_link:
  assumes "ok (sto w)" and "storage srv = st" and "chi_ok (libs srv)" and "comp_ok (compressor (libs srv))"
    and "pathLength (shortenerSvc srv) \<noteq> 0" and "pathLength (shortenerSvc srv) \<noteq> 4"
    and "r_method r = ''POST''" and "r_path r = ''/''"
    and "createOrParseUserFromRequest srv r (uuids w) = (Inr (u, tok), g)"
    and "http_serve srv r w = Some (resp, w1)" and "sent resp = Some (201, h)"
    and "\<forall>k. \<not> requested (buf (queue w)) k (ID u)"
    and "app_run srv es w1 = Some w2" and "list_all (spares srv (ID u)) es"
  shows "\<exists>bdy pu p. readBody (libs srv) r = Inr bdy \<and> parseURL (libs srv) bdy = Inr pu \<and>
    received (compressor (libs srv)) resp = Some (getServedURL (shortenerSvc srv) p) \<and>
    (\<forall>r2. r_method r2 = ''GET'' \<longrightarrow> r_path r2 = CHR ''/'' # p \<longrightarrow> has_id srv r2 w2 \<longrightarrow>
      (\<exists>resp2 w3. http_serve srv r2 w2 = Some (resp2, w3) \<and>
        sent resp2 = Some (307, [''Location'' \<mapsto> url_String pu])))"
proof -
  obtain bdy pu p where c: "readBody (libs srv) r = Inr bdy" "parseURL (libs srv) bdy = Inr pu" "queue w1 = queue w"
    "received (compressor (libs srv)) resp = Some (getServedURL (shortenerSvc srv) p)"
    "random_path (pathLength (shortenerSvc srv)) p" "ok (sto w1)"
    "view (sto w1) p = Some (new_entry u (url_String pu))"
    by (rule http_link_created [OF assms(1-4,7-11)])
  have k: "ok (sto w2) \<and> view (sto w2) p = Some (new_entry u (url_String pu))"
    using app_run_keeps [OF c(6) assms(2,3) c(7)] assms(12-14) c(3) by simp
  then have "\<exists>resp2 w3. http_serve srv r2 w2 = Some (resp2, w3) \<and> sent resp2 = Some (307, [''Location'' \<mapsto> url_String pu])"
    if "r_method r2 = ''GET''" "r_path r2 = CHR ''/'' # p" "has_id srv r2 w2" for r2
    using http_link_followed [OF _ assms(2,3) that(3,1,2) c(5) assms(5,6)] by blast
  with c show ?thesis by blast
qed

text \<open>The same for a link that the grpc method \<open>Shorten\<close> created.\<close>

lemma grpc_link_created:
  assumes "ok (sto w)" and "storage srv = st" and "call_id srv c w" and "g_req c = ShortenRequest url"
    and "g_md c = Some md" and "createOrParseUserFromMetadata srv (g_now c) md (uuids w) = (Inr (u, tok), g)"
    and "tok = [] \<or> g_send_err c = None"
    and "grpc_serve srv c w = Some (out, toks, w1)" and "client_sees out = (OK, Some (ShortenResponse served))"
  obtains pu p where "parseURL (libs srv) url = Inr pu" "queue w1 = queue w"
    "served = getServedURL (shortenerSvc srv) p" "random_path (pathLength (shortenerSvc srv)) p" "ok (sto w1)"
    "view (sto w1) p = Some (new_entry u (url_String pu))"
proof -
  obtain served' oe s' r' where s: "Shorten (parseURL (libs srv)) (storage srv) (shortenerSvc srv) u url (sto w) (rnd w)
      = ((served', oe), s', r')" by (metis surj_pair)
  from grpc_shorten [OF assms(3-7) s] assms(8,9) have o: "oe = None" "served' = served" "sto w1 = s'" "queue w1 = queue w"
    by (auto split: sum.splits if_splits)
  from Shorten_ok [OF s [unfolded assms(2) o] assms(1)] obtain pu p where "parseURL (libs srv) url = Inr pu"
    "served = getServedURL (shortenerSvc srv) p" "random_path (pathLength (shortenerSvc srv)) p"
    "view s' p = Some (new_entry u (url_String pu))" "ok s'" by auto
  with o that show thesis by simp
qed

lemma grpc_link_followed:
  assumes "ok (sto w)" and "storage srv = st" and "call_id srv c w" and "g_req c = ResolveRequest (CHR ''/'' # p)"
    and "g_md c = Some md" and "createOrParseUserFromMetadata srv (g_now c) md (uuids w) = (Inr (v, tok), g)"
    and "tok = [] \<or> g_send_err c = None"
    and "random_path n p" and "view (sto w) p = Some (new_entry u url)"
  shows "\<exists>out toks w'. grpc_serve srv c w = Some (out, toks, w') \<and> client_sees out = (OK, Some (ResolveResponse url))"
  using grpc_resolve [OF assms(1-7)] random_path_valid [OF assms(8)] assms(9) by auto

lemma app_grpc_link:
  assumes "ok (sto w)" and "storage srv = st" and "chi_ok (libs srv)"
    and "pathLength (shortenerSvc srv) \<noteq> 0" and "pathLength (shortenerSvc srv) \<noteq> 4"
    and "call_id srv c w" and "g_req c = ShortenRequest url"
    and "g_md c = Some md" and "createOrParseUserFromMetadata srv (g_now c) md (uuids w) = (Inr (u, tok), g)"
    and "tok = [] \<or> g_send_err c = None"
    and "grpc_serve srv c w = Some (out, toks, w1)" and "client_sees out = (OK, Some (ShortenResponse served))"
    and "\<forall>k. \<not> requested (buf (queue w)) k (ID u)"
    and "app_run srv es w1 = Some w2" and "list_all (spares srv (ID u)) es"
  shows "\<exists>pu p. parseURL (libs srv) url = Inr pu \<and> served = getServedURL (shortenerSvc srv) p \<and>
    (\<forall>r2. r_method r2 = ''GET'' \<longrightarrow> r_path r2 = CHR ''/'' # p \<longrightarrow> has_id srv r2 w2 \<longrightarrow>
      (\<exists>resp2 w3. http_serve srv r2 w2 = Some (resp2, w3) \<and> sent resp2 = Some (307, [''Location'' \<mapsto> url_String pu]))) \<and>
    (\<forall>c2 md2 v tok2 g2. g_req c2 = ResolveRequest (CHR ''/'' # p) \<longrightarrow> call_id srv c2 w2 \<longrightarrow> g_md c2 = Some md2 \<longrightarrow>
      createOrParseUserFromMetadata srv (g_now c2) md2 (uuids w2) = (Inr (v, tok2), g2) \<longrightarrow>
      (tok2 = [] \<or> g_send_err c2 = None) \<longrightarrow>
      (\<exists>out2 toks2 w3. grpc_serve srv c2 w2 = Some (out2, toks2, w3) \<and>
        client_sees out2 = (OK, Some (ResolveResponse (url_String pu)))))"
proof -
  obtain pu p where c: "parseURL (libs srv) url = Inr pu" "queue w1 = queue w"
    "served = getServedURL (shortenerSvc srv) p" "random_path (pathLength (shortenerSvc srv)) p" "ok (sto w1)"
    "view (sto w1) p = Some (new_entry u (url_String pu))"
    by (rule grpc_link_created [OF assms(1,2,6-12)])
  have k: "ok (sto w2)" "view (sto w2) p = Some (new_entry u (url_String pu))"
    using app_run_keeps [OF c(5) assms(2,3) c(6)] assms(13-15) c(2) by simp_all
  have "\<exists>resp2 w3. http_serve srv r2 w2 = Some (resp2, w3) \<and> sent resp2 = Some (307, [''Location'' \<mapsto> url_String pu])"
    if "r_method r2 = ''GET''" "r_path r2 = CHR ''/'' # p" "has_id srv r2 w2" for r2
    using http_link_followed [OF k(1) assms(2,3) that(3,1,2) c(4) assms(4,5) k(2)] .
  moreover have "\<exists>out2 toks2 w3. grpc_serve srv c2 w2 = Some (out2, toks2, w3) \<and>
      client_sees out2 = (OK, Some (ResolveResponse (url_String pu)))"
    if "g_req c2 = ResolveRequest (CHR ''/'' # p)" "call_id srv c2 w2" "g_md c2 = Some md2"
      "createOrParseUserFromMetadata srv (g_now c2) md2 (uuids w2) = (Inr (v, tok2), g2)"
      "tok2 = [] \<or> g_send_err c2 = None" for c2 md2 v tok2 g2
    using grpc_link_followed [OF k(1) assms(2) that(2,1,3-5) c(4) k(2)] .
  ultimately show ?thesis using c(1,3) by blast
qed

end

section \<open>Properties\<close>

text \<open>C1. A link created over http on a database works: when \<open>POST /\<close> answers 201 with a short url, then
  after any further http requests, grpc calls and queue flushes, as long as no deletion carries a valid
  session of the same user, a \<open>GET\<close> of that path by anyone is redirected to the url that was posted.\<close>

theorem link_works:
  assumes "pgx_pool pool tbl up" and "up (pool_st (sto w))" and "storage srv = database_storage pool"
    and "chi_ok (libs srv)" and "comp_ok (compressor (libs srv))"
    and "pathLength (shortenerSvc srv) \<noteq> 0" and "pathLength (shortenerSvc srv) \<noteq> 4"
    and "r_method r = ''POST''" and "r_path r = ''/''"
    and "createOrParseUserFromRequest srv r (uuids w) = (Inr (u, tok), g)"
    and "http_serve srv r w = Some (resp, w1)" and "sent resp = Some (201, h)"
    and "\<forall>k. \<not> requested (buf (queue w)) k (ID u)"
    and "app_run srv es w1 = Some w2" and "list_all (spares srv (ID u)) es"
  shows "\<exists>bdy pu p. readBody (libs srv) r = Inr bdy \<and> parseURL (libs srv) bdy = Inr pu \<and>
    received (compressor (libs srv)) resp = Some (getServedURL (shortenerSvc srv) p) \<and>
    (\<forall>r2. r_method r2 = ''GET'' \<longrightarrow> r_path r2 = CHR ''/'' # p \<longrightarrow> has_id srv r2 w2 \<longrightarrow>
      (\<exists>resp2 w3. http_serve srv r2 w2 = Some (resp2, w3) \<and>
        sent resp2 = Some (307, [''Location'' \<mapsto> url_String pu])))"
proof -
  have "database_ok up (sto w)" using assms(2) by (simp add: database_ok_def)
  from url_storage.app_link [OF pgx_pool.is_storage [OF assms(1)] this assms(3-)] show ?thesis .
qed

definition sample_events :: "event list" where
  "sample_events = [Request (sample_hreq ''DELETE'' ''/api/user/urls'' ''01'' False), Flush_queue,
     Call (sample_call (DeleteBatchRequest [''01'']) False)]"

theorem link_works_witness:
  "\<exists>resp w1 w2 p. http_serve (sample_server (database_storage sql_pool)) (sample_hreq ''POST'' ''/'' ''http://a.b'' True)
      (sample_world (sample_db [])) = Some (resp, w1) \<and>
    app_run (sample_server (database_storage sql_pool)) sample_events w1 = Some w2 \<and>
    received sample_comp resp = Some (getServedURL sample_service p) \<and>
    (\<forall>r2. r_method r2 = ''GET'' \<longrightarrow> r_path r2 = CHR ''/'' # p \<longrightarrow>
      has_id (sample_server (database_storage sql_pool)) r2 w2 \<longrightarrow>
      (\<exists>resp2 w3. http_serve (sample_server (database_storage sql_pool)) r2 w2 = Some (resp2, w3) \<and>
        sent resp2 = Some (307, [''Location'' \<mapsto> ''http://a.b''])))"
proof -
  let ?srv = "sample_server (database_storage sql_pool)"
  let ?r = "sample_hreq ''POST'' ''/'' ''http://a.b'' True"
  let ?w = "sample_world (sample_db [])"
  have "map_option (\<lambda>(resp, w1). (map_option fst (sent resp), Option.is_none (app_run ?srv sample_events w1)))
      (http_serve ?srv ?r ?w) = Some (Some 201, False)" by code_simp
  then obtain resp w1 h w2 where s: "http_serve ?srv ?r ?w = Some (resp, w1)" "sent resp = Some (201, h)"
      "app_run ?srv sample_events w1 = Some w2"
    by (auto simp: Option.is_none_def)
  have u: "createOrParseUserFromRequest ?srv ?r (uuids ?w) = (Inr (owner_user, []), uuids ?w)" by simp
  have q: "\<forall>k. \<not> requested (buf (queue ?w)) k (ID owner_user)" by (simp add: requested_def sample_queue_def)
  have sp: "list_all (spares ?srv (ID owner_user)) sample_events"
    by (simp add: sample_events_def deleting_def gdeleting_def) (simp add: sample_hreq_def)
  have "\<exists>bdy pu p. readBody (libs ?srv) ?r = Inr bdy \<and> parseURL (libs ?srv) bdy = Inr pu \<and>
    received (compressor (libs ?srv)) resp = Some (getServedURL (shortenerSvc ?srv) p) \<and>
    (\<forall>r2. r_method r2 = ''GET'' \<longrightarrow> r_path r2 = CHR ''/'' # p \<longrightarrow> has_id ?srv r2 w2 \<longrightarrow>
      (\<exists>resp2 w3. http_serve ?srv r2 w2 = Some (resp2, w3) \<and>
        sent resp2 = Some (307, [''Location'' \<mapsto> url_String pu])))"
    by (rule link_works [OF pg.pgx_pool_axioms _ _ _ _ _ _ _ _ u s(1,2) q s(3) sp])
      (simp_all add: sample_chi_ok sample_comp_ok sample_service_def table_inv_def)
  with s show ?thesis by (auto simp: sample_parse_def sample_libs_def)
qed

text \<open>C3. A link created over grpc works on both servers, on the memory storage: when \<open>Shorten\<close> answers with a
  short url, then after any further http requests, grpc calls and queue flushes that ask for no deletion in
  the name of the same user, a \<open>GET\<close> of its path is redirected to the url, and a grpc \<open>Resolve\<close> answers it.\<close>

theorem grpc_link_works:
  assumes "mem_inv (sto w)" and "storage srv = memory_storage" and "chi_ok (libs srv)"
    and "pathLength (shortenerSvc srv) \<noteq> 0" and "pathLength (shortenerSvc srv) \<noteq> 4"
    and "call_id srv c w" and "g_req c = ShortenRequest url"
    and "g_md c = Some md" and "createOrParseUserFromMetadata srv (g_now c) md (uuids w) = (Inr (u, tok), g)"
    and "tok = [] \<or> g_send_err c = None"
    and "grpc_serve srv c w = Some (out, toks, w1)" and "client_sees out = (OK, Some (ShortenResponse served))"
    and "\<forall>k. \<not> requested (buf (queue w)) k (ID u)"
    and "app_run srv es w1 = Some w2" and "list_all (spares srv (ID u)) es"
  shows "\<exists>pu p. parseURL (libs srv) url = Inr pu \<and> served = getServedURL (shortenerSvc srv) p \<and>
    (\<forall>r2. r_method r2 = ''GET'' \<longrightarrow> r_path r2 = CHR ''/'' # p \<longrightarrow> has_id srv r2 w2 \<longrightarrow>
      (\<exists>resp2 w3. http_serve srv r2 w2 = Some (resp2, w3) \<and> sent resp2 = Some (307, [''Location'' \<mapsto> url_String pu]))) \<and>
    (\<forall>c2 md2 v tok2 g2. g_req c2 = ResolveRequest (CHR ''/'' # p) \<longrightarrow> call_id srv c2 w2 \<longrightarrow> g_md c2 = Some md2 \<longrightarrow>
      createOrParseUserFromMetadata srv (g_now c2) md2 (uuids w2) = (Inr (v, tok2), g2) \<longrightarrow>
      (tok2 = [] \<or> g_send_err c2 = None) \<longrightarrow>
      (\<exists>out2 toks2 w3. grpc_serve srv c2 w2 = Some (out2, toks2, w3) \<and>
        client_sees out2 = (OK, Some (ResolveResponse (url_String pu)))))"
  by (rule mem.app_grpc_link [OF assms])

theorem grpc_link_works_witness:
  "\<exists>out toks w1 w2 p. grpc_serve (sample_server memory_storage) (sample_call (ShortenRequest ''http://a.b'') True)
      (sample_world sample_mem) = Some (out, toks, w1) \<and>
    app_run (sample_server memory_storage) sample_events w1 = Some w2 \<and>
    client_sees out = (OK, Some (ShortenResponse (getServedURL sample_service p))) \<and>
    (\<forall>r2. r_method r2 = ''GET'' \<longrightarrow> r_path r2 = CHR ''/'' # p \<longrightarrow> has_id (sample_server memory_storage) r2 w2 \<longrightarrow>
      (\<exists>resp2 w3. http_serve (sample_server memory_storage) r2 w2 = Some (resp2, w3) \<and>
        sent resp2 = Some (307, [''Location'' \<mapsto> ''http://a.b''])))"
proof -
  let ?srv = "sample_server memory_storage"
  let ?c = "sample_call (ShortenRequest ''http://a.b'') True"
  let ?w = "sample_world sample_mem"
  have "map_option (\<lambda>(out, toks, w1). (client_sees out, Option.is_none (app_run ?srv sample_events w1))) (grpc_serve ?srv ?c ?w)
     = Some ((OK, Some (ShortenResponse ''http://h/01'')), False)" by code_simp
  then obtain out toks w1 w2 where s: "grpc_serve ?srv ?c ?w = Some (out, toks, w1)"
      "client_sees out = (OK, Some (ShortenResponse ''http://h/01''))" "app_run ?srv sample_events w1 = Some w2"
    by (auto simp: Option.is_none_def)
  have u: "createOrParseUserFromMetadata ?srv (g_now ?c) (\<lambda>k. if k = sessionKey then [''Tu1''] else []) (uuids ?w) =
    (Inr (owner_user, []), uuids ?w)" by simp
  have q: "\<forall>k. \<not> requested (buf (queue ?w)) k (ID owner_user)" by (simp add: requested_def sample_queue_def)
  have sp: "list_all (spares ?srv (ID owner_user)) sample_events"
    by (simp add: sample_events_def deleting_def gdeleting_def) (simp add: sample_hreq_def)
  have "\<exists>pu p. parseURL (libs ?srv) ''http://a.b'' = Inr pu \<and> ''http://h/01'' = getServedURL (shortenerSvc ?srv) p \<and>
    (\<forall>r2. r_method r2 = ''GET'' \<longrightarrow> r_path r2 = CHR ''/'' # p \<longrightarrow> has_id ?srv r2 w2 \<longrightarrow>
      (\<exists>resp2 w3. http_serve ?srv r2 w2 = Some (resp2, w3) \<and> sent resp2 = Some (307, [''Location'' \<mapsto> url_String pu])))"
    using grpc_link_works [OF _ _ _ _ _ _ _ _ u _ s(1,2) q s(3) sp]
    by (auto simp: sample_chi_ok sample_service_def)
  with s show ?thesis by (auto simp: sample_parse_def sample_libs_def)
qed

end
