(* ===== verification/AppConfig.thy ===== *)
theory AppConfig
  imports Auth IPFilter
begin

text \<open>
  \<open>internal/config\<close>: configuration from command line, file and environment, their merging,
  and the TLS, authenticator and filter values made from it. The flag parser, the file
  system, the json and url parsers, the environment and the certificate functions are
  parameters.
\<close>

section \<open>Data\<close>

record TLSParams =
  CertPath :: string
  KeyPath :: string
  Enable :: bool
  UseSelfSigned :: bool

record StorageParams =
  DatabaseDSN :: string
  FileStoragePath :: string
  TraceDB :: bool

text \<open>
  \<open>Config\<close>; a nil pointer is \<^const>\<open>None\<close>. The last four fields are set by \<open>New\<close>.
\<close>

record tls_config =
  minVersion :: string
  certificate :: string

record AppConfig =
  c_Storage :: "StorageParams option"
  c_TLS :: "TLSParams option"
  c_Filter :: "FilterConfig option"
  c_ConfigFile :: string
  c_ListenAddr :: string
  c_GRPCListenAddr :: string
  c_BaseURL :: string
  c_RedirectScheme :: string
  c_JWTSecret :: string
  c_PprofServerAddr :: string
  c_GRPCReflection :: bool
  c_TrustRequestID :: bool
  c_ServedHost :: string
  c_ServedScheme :: string
  c_tls :: "tls_config option"
  c_auth :: "Auth option"
  c_filter :: "Filter option"

section \<open>flags.go\<close>

definition defaultListenAddr :: string where "defaultListenAddr = '':8080''"
definition defaultGRPCListenAddr :: string where "defaultGRPCListenAddr = '':9090''"
definition defaultBaseURL :: string where "defaultBaseURL = ''http://localhost:8080''"
definition defaultJWTSecret :: string where "defaultJWTSecret = ''supersecret''"
definition defaultFileStoragePath :: string where
  "defaultFileStoragePath = ''/tmp/short-url-db.json''"
definition defaultSubnets :: string where "defaultSubnets = ''127.0.0.0/8,::1/128''"

definition flag_defaults :: AppConfig where
  "flag_defaults = \<lparr>
     c_Storage = Some \<lparr>DatabaseDSN = [], FileStoragePath = defaultFileStoragePath, TraceDB = False\<rparr>,
     c_TLS = Some \<lparr>CertPath = [], KeyPath = [], Enable = False, UseSelfSigned = False\<rparr>,
     c_Filter = Some \<lparr>fc_Subnets = defaultSubnets, fc_TrustXFF = False, fc_TrustXRealIP = False\<rparr>,
     c_ConfigFile = [], c_ListenAddr = defaultListenAddr, c_GRPCListenAddr = defaultGRPCListenAddr,
     c_BaseURL = defaultBaseURL, c_RedirectScheme = [], c_JWTSecret = defaultJWTSecret,
     c_PprofServerAddr = [], c_GRPCReflection = False, c_TrustRequestID = False,
     c_ServedHost = [], c_ServedScheme = [], c_tls = None, c_auth = None, c_filter = None\<rparr>"

text \<open>
  The template of a certificate; the addresses are those of the netip model, the times those of
  the clock.
\<close>

record x509 =
  SerialNumber :: int
  Country :: "string list"
  Organization :: "string list"
  CommonName :: string
  IPAddresses :: "addr list"
  DNSNames :: "string list"
  NotBefore :: int
  NotAfter :: int
  SubjectKeyId :: "nat list"
  ExtKeyUsage :: "string list"
  KeyUsage :: string

text \<open>
  The libraries: \<open>parseFlags\<close> overwrites the defaults with the command line; \<open>clock\<close> gives the two
  readings of \<open>time.Now\<close>, \<open>addYears\<close> is \<open>AddDate\<close>.
\<close>

record cfglibs =
  parseFlags :: "AppConfig \<Rightarrow> gerr + AppConfig"
  openFile :: "string \<Rightarrow> gerr + (gerr + string)"
  unmarshalConfig :: "string \<Rightarrow> gerr + AppConfig"
  lookupEnv :: "string \<Rightarrow> string option"
  parseBase :: "string \<Rightarrow> gerr + purl"
  loadKeyPair :: "string \<Rightarrow> string \<Rightarrow> gerr + string"
  generateKey :: "gerr + string"
  createCertificate :: "x509 \<Rightarrow> string \<Rightarrow> gerr + string"
  randInt63 :: int
  clock :: "int \<times> int"
  addYears :: "int \<Rightarrow> int \<Rightarrow> int"

definition newFromFlags :: "cfglibs \<Rightarrow> gerr + AppConfig" where
  "newFromFlags L = (case parseFlags L flag_defaults of
     Inl e \<Rightarrow> Inl (Wrap ''cannot parse command line arguments'' e)
   | Inr cfg \<Rightarrow> Inr cfg)"

section \<open>file.go\<close>

definition newFromFile :: "cfglibs \<Rightarrow> string \<Rightarrow> gerr + AppConfig" where
  "newFromFile L path = (case openFile L path of
     Inl e \<Rightarrow> Inl (Wrap ''cannot open config file'' e)
   | Inr (Inl e) \<Rightarrow> Inl (Wrap ''cannot read config file'' e)
   | Inr (Inr cfgBytes) \<Rightarrow> (case unmarshalConfig L cfgBytes of
       Inl e \<Rightarrow> Inl (Wrap ''cannot unmarshal config'' e)
     | Inr cfg \<Rightarrow> Inr cfg))"

section \<open>merge.go\<close>

text \<open>The value of \<open>dst\<close> after the call.\<close>

definition mergeStringDef :: "string \<Rightarrow> string \<Rightarrow> string \<Rightarrow> string" where
  "mergeStringDef dst src def = (if src \<noteq> [] then (if dst = [] \<or> src \<noteq> def then src else dst) else dst)"

definition mergeString :: "string \<Rightarrow> string \<Rightarrow> string" where
  "mergeString dst src = (if src \<noteq> [] then src else dst)"

definition mergeBool :: "bool \<Rightarrow> bool \<Rightarrow> bool" where
  "mergeBool dst src = (if src then True else dst)"

definition mergeTLS :: "AppConfig \<Rightarrow> AppConfig \<Rightarrow> AppConfig" where
  "mergeTLS dst src = (case (c_TLS dst, c_TLS src) of
     (None, _) \<Rightarrow> dst\<lparr>c_TLS := c_TLS src\<rparr>
   | (Some d, Some s) \<Rightarrow> dst\<lparr>c_TLS := Some \<lparr>CertPath = mergeString (CertPath d) (CertPath s),
       KeyPath = mergeString (KeyPath d) (KeyPath s), Enable = mergeBool (Enable d) (Enable s),
       UseSelfSigned = mergeBool (UseSelfSigned d) (UseSelfSigned s)\<rparr>\<rparr>
   | (Some d, None) \<Rightarrow> dst)"

definition mergeStorage :: "AppConfig \<Rightarrow> AppConfig \<Rightarrow> AppConfig" where
  "mergeStorage dst src = (case (c_Storage dst, c_Storage src) of
     (None, _) \<Rightarrow> dst\<lparr>c_Storage := c_Storage src\<rparr>
   | (Some d, Some s) \<Rightarrow> dst\<lparr>c_Storage := Some \<lparr>
       DatabaseDSN = mergeString (DatabaseDSN d) (DatabaseDSN s),
       FileStoragePath = mergeStringDef (FileStoragePath d) (FileStoragePath s) defaultFileStoragePath,
       TraceDB = mergeBool (TraceDB d) (TraceDB s)\<rparr>\<rparr>
   | (Some d, None) \<Rightarrow> dst)"

definition mergeCommon :: "AppConfig \<Rightarrow> AppConfig \<Rightarrow> AppConfig" where
  "mergeCommon dst src = dst\<lparr>
     c_ListenAddr := mergeStringDef (c_ListenAddr dst) (c_ListenAddr src) defaultListenAddr,
     c_GRPCListenAddr := mergeStringDef (c_GRPCListenAddr dst) (c_GRPCListenAddr src) defaultGRPCListenAddr,
     c_BaseURL := mergeStringDef (c_BaseURL dst) (c_BaseURL src) defaultBaseURL,
     c_RedirectScheme := mergeString (c_RedirectScheme dst) (c_RedirectScheme src),
     c_JWTSecret := mergeStringDef (c_JWTSecret dst) (c_JWTSecret src) defaultJWTSecret,
     c_PprofServerAddr := mergeString (c_PprofServerAddr dst) (c_PprofServerAddr src),
     c_TrustRequestID := mergeBool (c_TrustRequestID dst) (c_TrustRequestID src),
     c_GRPCReflection := mergeBool (c_GRPCReflection dst) (c_GRPCReflection src)\<rparr>"

definition merge :: "AppConfig \<Rightarrow> AppConfig \<Rightarrow> AppConfig" where
  "merge dst src = mergeCommon (mergeStorage (mergeTLS dst src) src) src"

section \<open>env.go\<close>

definition envOverride :: "cfglibs \<Rightarrow> string \<Rightarrow> string \<Rightarrow> string" where
  "envOverride L name param = (case lookupEnv L name of Some val \<Rightarrow> val | None \<Rightarrow> param)"

text \<open>\<open>strconv.ParseBool\<close>.\<close>

definition ParseBool :: "string \<Rightarrow> bool option" where
  "ParseBool s =
     (if s \<in> set [''1'', ''t'', ''T'', ''TRUE'', ''true'', ''True''] then Some True
      else if s \<in> set [''0'', ''f'', ''F'', ''FALSE'', ''false'', ''False''] then Some False
      else None)"

definition envOverrideBool :: "cfglibs \<Rightarrow> string \<Rightarrow> bool \<Rightarrow> gerr + bool" where
  "envOverrideBool L name param = (case lookupEnv L name of
     None \<Rightarrow> Inr param
   | Some val \<Rightarrow> (case ParseBool val of
       None \<Rightarrow> Inl (Wrap (''cannot parse bool value in env '' @ name) (Errmsg ''invalid syntax''))
     | Some bVal \<Rightarrow> Inr bVal))"

text \<open>Taking the address of a field of a nil struct panics.\<close>

definition mergeEnvs :: "cfglibs \<Rightarrow> AppConfig \<Rightarrow> (gerr + AppConfig) outcome" where
  "mergeEnvs L cfg = (let cfg1 = cfg\<lparr>
       c_ListenAddr := envOverride L ''SERVER_ADDRESS'' (c_ListenAddr cfg),
       c_PprofServerAddr := envOverride L ''PPROF_ADDRESS'' (c_PprofServerAddr cfg),
       c_BaseURL := envOverride L ''BASE_URL'' (c_BaseURL cfg)\<rparr> in
     case c_Storage cfg1 of
       None \<Rightarrow> Panic
     | Some st \<Rightarrow> (let cfg2 = cfg1\<lparr>
           c_Storage := Some (st\<lparr>
             FileStoragePath := envOverride L ''FILE_STORAGE_PATH'' (FileStoragePath st),
             DatabaseDSN := envOverride L ''DATABASE_DSN'' (DatabaseDSN st)\<rparr>),
           c_JWTSecret := envOverride L ''JWT_SECRET'' (c_JWTSecret cfg1)\<rparr> in
         case c_Filter cfg2 of
           None \<Rightarrow> Panic
         | Some fc \<Rightarrow> (let cfg3 = cfg2\<lparr>
               c_Filter := Some (fc\<lparr>fc_Subnets := envOverride L ''TRUSTED_SUBNETS'' (fc_Subnets fc)\<rparr>)\<rparr> in
             case c_TLS cfg3 of
               None \<Rightarrow> Panic
             | Some t \<Rightarrow> (case envOverrideBool L ''ENABLE_HTTPS'' (Enable t) of
                 Inl e \<Rightarrow> Ret (Inl e)
               | Inr b \<Rightarrow> Ret (Inr (cfg3\<lparr>c_TLS := Some (t\<lparr>Enable := b\<rparr>)\<rparr>))))))"

section \<open>tls.go\<close>

definition caOrg :: string where "caOrg = ''Shorty''"
definition caCountry :: string where "caCountry = ''RU''"
definition caValidYears :: int where "caValidYears = 10"
definition caSubjectKeyIdentifier :: "nat list" where "caSubjectKeyIdentifier = [1, 2, 3, 4, 6]"
definition minTLSVersion :: string where "minTLSVersion = ''1.3''"

definition getCA :: "cfglibs \<Rightarrow> string \<Rightarrow> x509" where
  "getCA L cn = \<lparr>
     SerialNumber = randInt63 L,
     Country = [caCountry], Organization = [caOrg], CommonName = cn,
     IPAddresses = [Addr4 0x7f000001, Addr6 1 []],
     DNSNames = [cn],
     NotBefore = fst (clock L),
     NotAfter = addYears L (snd (clock L)) caValidYears,
     SubjectKeyId = caSubjectKeyIdentifier,
     ExtKeyUsage = [''ClientAuth'', ''ServerAuth''],
     KeyUsage = ''DigitalSignature''\<rparr>"

definition getSelfSignedTLSConfig :: "cfglibs \<Rightarrow> string \<Rightarrow> gerr + tls_config" where
  "getSelfSignedTLSConfig L cn = (case generateKey L of
     Inl e \<Rightarrow> Inl (Wrap ''cannot generate rsa private key'' e)
   | Inr key \<Rightarrow> (case createCertificate L (getCA L cn) key of
       Inl e \<Rightarrow> Inl (Wrap ''cannot create x509 certificate'' e)
     | Inr cert \<Rightarrow> Inr \<lparr>minVersion = minTLSVersion, certificate = cert\<rparr>))"

definition getTLSConfig :: "cfglibs \<Rightarrow> TLSParams \<Rightarrow> string \<Rightarrow> gerr + tls_config" where
  "getTLSConfig L cfg host =
     (if UseSelfSigned cfg then getSelfSignedTLSConfig L host
      else if KeyPath cfg \<noteq> [] \<and> CertPath cfg \<noteq> [] then
        (case loadKeyPair L (CertPath cfg) (KeyPath cfg) of
           Inl e \<Rightarrow> Inl (Wrap ''cannot load x509 cert and key'' e)
         | Inr cert \<Rightarrow> Inr \<lparr>minVersion = minTLSVersion, certificate = cert\<rparr>)
      else (let e1 = (if KeyPath cfg = [] then errors_join [None, Some (Errmsg ''key path is empty'')] else None);
                e2 = (if CertPath cfg = [] then errors_join [e1, Some (Errmsg ''cert path is empty'')] else e1)
            in Inl (case e2 of Some e \<Rightarrow> e | None \<Rightarrow> Errmsg [])))"

section \<open>config.go\<close>

definition parseBaseURL :: "cfglibs \<Rightarrow> AppConfig \<Rightarrow> gerr + AppConfig" where
  "parseBaseURL L cfg = (case parseBase L (c_BaseURL cfg) of
     Inl e \<Rightarrow> Inl (Wrap ''cannot parse base server URL'' e)
   | Inr baseURL \<Rightarrow> Inr (cfg\<lparr>c_ServedHost := url_Host baseURL, c_ServedScheme := Scheme baseURL\<rparr>))"

definition createTLSConfig :: "cfglibs \<Rightarrow> AppConfig \<Rightarrow> TLSParams \<Rightarrow> gerr + AppConfig" where
  "createTLSConfig L cfg t = (case getTLSConfig L t (c_ServedHost cfg) of
     Inl e \<Rightarrow> Inl e
   | Inr c \<Rightarrow> Inr (cfg\<lparr>c_tls := Some c\<rparr>))"

text \<open>\<open>New\<close> from the merged configuration on.\<close>

definition config_finish :: "cfglibs \<Rightarrow> AppConfig \<Rightarrow> (gerr + AppConfig) outcome" where
  "config_finish L cfg = (case mergeEnvs L cfg of
     Panic \<Rightarrow> Panic
   | Ret (Inl e) \<Rightarrow> Ret (Inl e)
   | Ret (Inr cfg1) \<Rightarrow> (case parseBaseURL L cfg1 of
       Inl e \<Rightarrow> Ret (Inl e)
     | Inr cfg2 \<Rightarrow> (case c_TLS cfg2 of
         None \<Rightarrow> Panic
       | Some t \<Rightarrow> (case (if Enable t then createTLSConfig L cfg2 t else Inr cfg2) of
           Inl e \<Rightarrow> Ret (Inl (Wrap ''tls config error'' e))
         | Inr cfg3 \<Rightarrow> (case c_Filter cfg3 of
             None \<Rightarrow> Panic
           | Some fc \<Rightarrow> (case filter_New fc of
               Inl e \<Rightarrow> Ret (Inl (Wrap ''cannot configure filter'' e))
             | Inr f \<Rightarrow> Ret (Inr (cfg3\<lparr>c_auth := Some (auth_New (c_JWTSecret cfg3)),
                 c_filter := Some f\<rparr>))))))))"

definition config_New :: "cfglibs \<Rightarrow> (gerr + AppConfig) outcome" where
  "config_New L = (case newFromFlags L of
     Inl e \<Rightarrow> Ret (Inl e)
   | Inr args0 \<Rightarrow>
       (let cfgFromArgs = args0\<lparr>c_ConfigFile := envOverride L ''CONFIG'' (c_ConfigFile args0)\<rparr> in
        if c_ConfigFile cfgFromArgs \<noteq> [] then
          (case newFromFile L (c_ConfigFile cfgFromArgs) of
             Inl e \<Rightarrow> Ret (Inl e)
           | Inr cfgFromFile \<Rightarrow> config_finish L (merge cfgFromFile cfgFromArgs))
        else config_finish L cfgFromArgs))"

section \<open>Facts\<close>

lemmas merge_defs = merge_def mergeCommon_def mergeStorage_def mergeTLS_def

text \<open>A string of the command line and one of the file: the command line wins unless it is empty, or is the
  default while the file has a value.\<close>

definition precede :: "string \<Rightarrow> string \<Rightarrow> string \<Rightarrow> string" where
  "precede def file arg = (if arg = [] \<or> file \<noteq> [] \<and> arg = def then file else arg)"

lemma precede_same [simp]: "precede def x x = x"
  by (simp add: precede_def)

lemma merge_precede: "mergeStringDef d s def = precede def d s" "mergeString d s = precede [] d s"
    "mergeBool x y = (x \<or> y)"
  by (simp_all add: mergeStringDef_def mergeString_def mergeBool_def precede_def)

lemma merge_fields [simp]:
  "c_Filter (merge d s) = c_Filter d" "c_tls (merge d s) = c_tls d"
  "c_ListenAddr (merge d s) = precede defaultListenAddr (c_ListenAddr d) (c_ListenAddr s)"
  "c_GRPCListenAddr (merge d s) = precede defaultGRPCListenAddr (c_GRPCListenAddr d) (c_GRPCListenAddr s)"
  "c_PprofServerAddr (merge d s) = precede [] (c_PprofServerAddr d) (c_PprofServerAddr s)"
  "c_JWTSecret (merge d s) = precede defaultJWTSecret (c_JWTSecret d) (c_JWTSecret s)"
  "c_BaseURL (merge d s) = precede defaultBaseURL (c_BaseURL d) (c_BaseURL s)"
  "c_RedirectScheme (merge d s) = precede [] (c_RedirectScheme d) (c_RedirectScheme s)"
  "c_TrustRequestID (merge d s) = (c_TrustRequestID d \<or> c_TrustRequestID s)"
  "c_GRPCReflection (merge d s) = (c_GRPCReflection d \<or> c_GRPCReflection s)"
  by (auto simp: merge_defs merge_precede split: option.splits)

text \<open>The section of the file, or that of the command line when the file has none.\<close>

definition section_of :: "'a option \<Rightarrow> 'a \<Rightarrow> 'a" where
  "section_of file arg = (case file of None \<Rightarrow> arg | Some x \<Rightarrow> x)"

lemma section_of_simps [simp]: "section_of None y = y" "section_of (Some x) y = x"
  by (simp_all add: section_of_def)

lemma merge_Storage:
  assumes "c_Storage s = Some sa" and "sf = section_of (c_Storage d) sa"
  shows "c_Storage (merge d s) = Some \<lparr>DatabaseDSN = precede [] (DatabaseDSN sf) (DatabaseDSN sa),
    FileStoragePath = precede defaultFileStoragePath (FileStoragePath sf) (FileStoragePath sa),
    TraceDB = (TraceDB sf \<or> TraceDB sa)\<rparr>"
  using assms by (cases "c_Storage d"; cases "c_TLS d"; cases "c_TLS s") (auto simp: merge_defs merge_precede)

lemma merge_TLS:
  assumes "c_TLS s = Some ta" and "tf = section_of (c_TLS d) ta"
  shows "c_TLS (merge d s) = Some \<lparr>CertPath = precede [] (CertPath tf) (CertPath ta),
    KeyPath = precede [] (KeyPath tf) (KeyPath ta), Enable = (Enable tf \<or> Enable ta),
    UseSelfSigned = (UseSelfSigned tf \<or> UseSelfSigned ta)\<rparr>"
  using assms by (cases "c_TLS d"; cases "c_Storage d"; cases "c_Storage s") (auto simp: merge_defs merge_precede)

lemma mergeEnvs_ok:
  assumes "mergeEnvs L cfg = Ret (Inr c)"
  obtains st fc t b where "c_Storage cfg = Some st" "c_Filter cfg = Some fc" "c_TLS cfg = Some t"
    "envOverrideBool L ''ENABLE_HTTPS'' (Enable t) = Inr b"
    "c = cfg\<lparr>c_ListenAddr := envOverride L ''SERVER_ADDRESS'' (c_ListenAddr cfg),
      c_PprofServerAddr := envOverride L ''PPROF_ADDRESS'' (c_PprofServerAddr cfg),
      c_BaseURL := envOverride L ''BASE_URL'' (c_BaseURL cfg),
      c_Storage := Some (st\<lparr>FileStoragePath := envOverride L ''FILE_STORAGE_PATH'' (FileStoragePath st),
        DatabaseDSN := envOverride L ''DATABASE_DSN'' (DatabaseDSN st)\<rparr>),
      c_JWTSecret := envOverride L ''JWT_SECRET'' (c_JWTSecret cfg),
      c_Filter := Some (fc\<lparr>fc_Subnets := envOverride L ''TRUSTED_SUBNETS'' (fc_Subnets fc)\<rparr>),
      c_TLS := Some (t\<lparr>Enable := b\<rparr>)\<rparr>"
  using assms by (auto simp: mergeEnvs_def Let_def split: option.splits sum.splits)

text \<open>What \<open>New\<close> makes of the merged configuration.\<close>

lemma config_finish_ok:
  assumes "config_finish L cfg = Ret (Inr c)"
  shows "c_ListenAddr c = envOverride L ''SERVER_ADDRESS'' (c_ListenAddr cfg) \<and>
    c_PprofServerAddr c = envOverride L ''PPROF_ADDRESS'' (c_PprofServerAddr cfg) \<and>
    c_BaseURL c = envOverride L ''BASE_URL'' (c_BaseURL cfg) \<and>
    c_GRPCListenAddr c = c_GRPCListenAddr cfg \<and> c_RedirectScheme c = c_RedirectScheme cfg \<and>
    c_TrustRequestID c = c_TrustRequestID cfg \<and> c_GRPCReflection c = c_GRPCReflection cfg \<and>
    c_JWTSecret c = envOverride L ''JWT_SECRET'' (c_JWTSecret cfg) \<and> c_auth c = Some (auth_New (c_JWTSecret c)) \<and>
    (\<exists>st. c_Storage cfg = Some st \<and> c_Storage c = Some (st\<lparr>
       FileStoragePath := envOverride L ''FILE_STORAGE_PATH'' (FileStoragePath st),
       DatabaseDSN := envOverride L ''DATABASE_DSN'' (DatabaseDSN st)\<rparr>)) \<and>
    (\<exists>fc f. c_Filter cfg = Some fc \<and> c_filter c = Some f \<and>
      filter_New (fc\<lparr>fc_Subnets := envOverride L ''TRUSTED_SUBNETS'' (fc_Subnets fc)\<rparr>) = Inr f) \<and>
    (\<exists>t b u. c_TLS cfg = Some t \<and> envOverrideBool L ''ENABLE_HTTPS'' (Enable t) = Inr b \<and>
      c_TLS c = Some (t\<lparr>Enable := b\<rparr>) \<and> parseBase L (c_BaseURL c) = Inr u \<and>
      c_ServedHost c = url_Host u \<and> c_ServedScheme c = Scheme u \<and>
      (if b then \<exists>tc. getTLSConfig L (t\<lparr>Enable := b\<rparr>) (url_Host u) = Inr tc \<and> c_tls c = Some tc
       else c_tls c = c_tls cfg))"
proof -
  obtain c1 where c1: "mergeEnvs L cfg = Ret (Inr c1)"
    using assms by (auto simp: config_finish_def split: outcome.splits sum.splits)
  obtain u where u: "parseBase L (c_BaseURL c1) = Inr u"
    using assms c1 by (auto simp: config_finish_def parseBaseURL_def split: sum.splits)
  show ?thesis
    by (rule mergeEnvs_ok [OF c1])
      (use c1 u assms in \<open>auto simp: config_finish_def parseBaseURL_def createTLSConfig_def split: sum.splits if_splits\<close>)
qed

lemma merge_src_filter: "merge d (s\<lparr>c_Filter := x\<rparr>) = merge d s"
  by (auto simp: merge_defs split: option.splits)

lemma config_finish_cong:
  assumes "lookupEnv L' = lookupEnv L" "parseBase L' = parseBase L" "loadKeyPair L' = loadKeyPair L"
    "generateKey L' = generateKey L" "createCertificate L' = createCertificate L" "randInt63 L' = randInt63 L" "clock L' = clock L" "addYears L' = addYears L"
  shows "config_finish L' cfg = config_finish L cfg"
  unfolding config_finish_def mergeEnvs_def envOverride_def envOverrideBool_def parseBaseURL_def
    createTLSConfig_def getTLSConfig_def getSelfSignedTLSConfig_def getCA_def assms ..

section \<open>Properties\<close>

text \<open>C27. Precedence of the sources. Each of the eight environment variables wins over everything for its
  field. Without it, and with a configuration file, a string of the command line wins over the file
  unless it is empty, or is the default while the file has a value; a flag is set if either sets it;
  a section that the file does not have is that of the command line. The exception is the filter: with a
  file, its trust flags and its subnets are those of the file alone, and the filter options of the
  command line are lost. Without a file the values of the command line are taken. The authenticator is
  made from the secret, the served host and scheme from the base url, the filter from the
  subnets, and the TLS configuration, when TLS is on, from the TLS section and the served host, all
  as so found.\<close>

theorem config_precedence:
  assumes "parseFlags L flag_defaults = Inr args" and "config_New L = Ret (Inr c)"
    and "c_Storage args = Some sa" and "c_TLS args = Some ta"
    and "path = envOverride L ''CONFIG'' (c_ConfigFile args)"
    and "if path = [] then cf = args else newFromFile L path = Inr cf"
    and "sf = section_of (c_Storage cf) sa" and "tf = section_of (c_TLS cf) ta"
  shows "c_ListenAddr c = envOverride L ''SERVER_ADDRESS'' (precede defaultListenAddr (c_ListenAddr cf) (c_ListenAddr args)) \<and>
    c_PprofServerAddr c = envOverride L ''PPROF_ADDRESS'' (precede [] (c_PprofServerAddr cf) (c_PprofServerAddr args)) \<and>
    c_BaseURL c = envOverride L ''BASE_URL'' (precede defaultBaseURL (c_BaseURL cf) (c_BaseURL args)) \<and>
    c_JWTSecret c = envOverride L ''JWT_SECRET'' (precede defaultJWTSecret (c_JWTSecret cf) (c_JWTSecret args)) \<and>
    c_GRPCListenAddr c = precede defaultGRPCListenAddr (c_GRPCListenAddr cf) (c_GRPCListenAddr args) \<and>
    c_RedirectScheme c = precede [] (c_RedirectScheme cf) (c_RedirectScheme args) \<and>
    c_TrustRequestID c = (c_TrustRequestID cf \<or> c_TrustRequestID args) \<and>
    c_GRPCReflection c = (c_GRPCReflection cf \<or> c_GRPCReflection args) \<and>
    c_auth c = Some (auth_New (c_JWTSecret c)) \<and>
    c_Storage c = Some \<lparr>
      DatabaseDSN = envOverride L ''DATABASE_DSN'' (precede [] (DatabaseDSN sf) (DatabaseDSN sa)),
      FileStoragePath = envOverride L ''FILE_STORAGE_PATH''
        (precede defaultFileStoragePath (FileStoragePath sf) (FileStoragePath sa)),
      TraceDB = (TraceDB sf \<or> TraceDB sa)\<rparr> \<and>
    (\<exists>fc f. c_Filter cf = Some fc \<and> c_filter c = Some f \<and>
      filter_New (fc\<lparr>fc_Subnets := envOverride L ''TRUSTED_SUBNETS'' (fc_Subnets fc)\<rparr>) = Inr f) \<and>
    (\<exists>t u. c_TLS c = Some t \<and> CertPath t = precede [] (CertPath tf) (CertPath ta) \<and>
      KeyPath t = precede [] (KeyPath tf) (KeyPath ta) \<and> UseSelfSigned t = (UseSelfSigned tf \<or> UseSelfSigned ta) \<and>
      envOverrideBool L ''ENABLE_HTTPS'' (Enable tf \<or> Enable ta) = Inr (Enable t) \<and>
      parseBase L (c_BaseURL c) = Inr u \<and> c_ServedHost c = url_Host u \<and> c_ServedScheme c = Scheme u \<and>
      (if Enable t then \<exists>tc. getTLSConfig L t (url_Host u) = Inr tc \<and> c_tls c = Some tc else c_tls c = c_tls cf))"
proof (cases "path = []")
  case True
  with assms(1,2,5) have fin: "config_finish L (args\<lparr>c_ConfigFile := []\<rparr>) = Ret (Inr c)"
    by (auto simp: config_New_def newFromFlags_def Let_def)
  have "cf = args" "sf = sa" "tf = ta" using True assms(3,4,6-8) by simp_all
  with config_finish_ok [OF fin] assms(3,4) show ?thesis by (auto split: if_splits)
next
  case False
  then have x: "newFromFile L path = Inr cf" using assms(6) by simp
  let ?args = "args\<lparr>c_ConfigFile := path\<rparr>"
  have fin: "config_finish L (merge cf ?args) = Ret (Inr c)"
    using False x assms(1,2,5) by (auto simp: config_New_def newFromFlags_def Let_def)
  have st: "c_Storage (merge cf ?args) = Some \<lparr>DatabaseDSN = precede [] (DatabaseDSN sf) (DatabaseDSN sa),
      FileStoragePath = precede defaultFileStoragePath (FileStoragePath sf) (FileStoragePath sa),
      TraceDB = (TraceDB sf \<or> TraceDB sa)\<rparr>"
    by (rule merge_Storage) (simp_all add: assms(3,7))
  have t: "c_TLS (merge cf ?args) = Some \<lparr>CertPath = precede [] (CertPath tf) (CertPath ta),
      KeyPath = precede [] (KeyPath tf) (KeyPath ta), Enable = (Enable tf \<or> Enable ta),
      UseSelfSigned = (UseSelfSigned tf \<or> UseSelfSigned ta)\<rparr>"
    by (rule merge_TLS) (simp_all add: assms(4,8))
  from config_finish_ok [OF fin] show ?thesis unfolding st t by (auto split: if_splits)
qed

definition sample_cfglibs :: cfglibs where
  "sample_cfglibs = \<lparr>
     parseFlags = (\<lambda>d. Inr (d\<lparr>c_ConfigFile := ''f'', c_JWTSecret := ''s''\<rparr>)),
     openFile = (\<lambda>_. Inr (Inr ''json'')),
     unmarshalConfig = (\<lambda>_. Inr (flag_defaults\<lparr>c_ListenAddr := '':80'', c_JWTSecret := ''t''\<rparr>)),
     lookupEnv = (\<lambda>n. if n = ''TRUSTED_SUBNETS'' then Some ''10.0.0.0/8'' else None),
     parseBase = (\<lambda>u. Inr \<lparr>Scheme = ''http'', url_Host = ''h'', url_String = u\<rparr>),
     loadKeyPair = (\<lambda>_ _. Inr ''pair''), generateKey = Inr ''key'', createCertificate = (\<lambda>_ _. Inr ''cert''),
     randInt63 = 7, clock = (1000, 1001), addYears = (\<lambda>t y. t + 31557600 * y)\<rparr>"

lemma sample_filter: "filter_New \<lparr>fc_Subnets = ''10.0.0.0/8'', fc_TrustXFF = False, fc_TrustXRealIP = False\<rparr>
    = Inr \<lparr>subnets = [\<lparr>pfx_addr = Addr4 0x0a000000, pfx_bits = 8\<rparr>], trustXFF = False, trustXRealIP = False\<rparr>"
  by code_simp

theorem config_precedence_witness:
  "\<exists>c. config_New sample_cfglibs = Ret (Inr c) \<and> c_ListenAddr c = '':80'' \<and> c_auth c = Some (auth_New ''s'') \<and>
    c_BaseURL c = defaultBaseURL \<and> c_ServedHost c = ''h'' \<and> c_tls c = None"
proof -
  let ?args = "flag_defaults\<lparr>c_ConfigFile := ''f'', c_JWTSecret := ''s''\<rparr>"
  let ?cf = "flag_defaults\<lparr>c_ListenAddr := '':80'', c_JWTSecret := ''t''\<rparr>"
  have a: "parseFlags sample_cfglibs flag_defaults = Inr ?args" by (simp add: sample_cfglibs_def)
  obtain c where c: "config_New sample_cfglibs = Ret (Inr c)"
    using sample_filter
    by (simp add: config_New_def newFromFlags_def newFromFile_def config_finish_def mergeEnvs_def merge_defs
        envOverride_def envOverrideBool_def parseBaseURL_def sample_cfglibs_def flag_defaults_def Let_def
        mergeBool_def)
  obtain sa where sa: "c_Storage ?args = Some sa" by (simp add: flag_defaults_def)
  obtain ta where ta: "c_TLS ?args = Some ta" "\<not> Enable ta" by (simp add: flag_defaults_def)
  have p: "''f'' = envOverride sample_cfglibs ''CONFIG'' (c_ConfigFile ?args)"
    by (simp add: sample_cfglibs_def envOverride_def)
  have f: "if ''f'' = [] then ?cf = ?args else newFromFile sample_cfglibs ''f'' = Inr ?cf"
    by (simp add: newFromFile_def sample_cfglibs_def)
  have tf: "ta = section_of (c_TLS ?cf) ta" using ta(1) by (simp add: flag_defaults_def)
  from config_precedence [OF a c sa ta(1) p f refl tf] c ta(2) show ?thesis
    by (auto simp: sample_cfglibs_def envOverride_def envOverrideBool_def flag_defaults_def precede_def
        defaultListenAddr_def defaultJWTSecret_def defaultBaseURL_def)
qed

text \<open>With a configuration file the filter options of the command line are ignored: whatever they
  are, the result is the same, and when the file has no filter section \<open>New\<close> panics.\<close>

theorem config_filter_flags_ignored:
  assumes "parseFlags L flag_defaults = Inr args"
    and "envOverride L ''CONFIG'' (c_ConfigFile args) \<noteq> []"
    and "newFromFile L (envOverride L ''CONFIG'' (c_ConfigFile args)) = Inr cf"
  shows "config_New (L\<lparr>parseFlags := (\<lambda>_. Inr (args\<lparr>c_Filter := fc\<rparr>))\<rparr>) = config_New L \<and>
    (c_Filter cf = None \<and> c_Storage args \<noteq> None \<longrightarrow> config_New L = Panic)"
proof -
  let ?p = "envOverride L ''CONFIG'' (c_ConfigFile args)"
  let ?L = "L\<lparr>parseFlags := (\<lambda>_. Inr (args\<lparr>c_Filter := fc\<rparr>))\<rparr>"
  have m: "config_New L = config_finish L (merge cf (args\<lparr>c_ConfigFile := ?p\<rparr>))"
    using assms by (simp add: config_New_def newFromFlags_def)
  have e: "envOverride ?L n v = envOverride L n v" for n v by (simp add: envOverride_def)
  have f: "newFromFile ?L v = newFromFile L v" for v by (auto simp: newFromFile_def split: sum.splits)
  have swap: "args\<lparr>c_Filter := fc, c_ConfigFile := ?p\<rparr> = args\<lparr>c_ConfigFile := ?p, c_Filter := fc\<rparr>"
    by (cases args) simp
  have "config_New ?L = config_finish ?L (merge cf (args\<lparr>c_Filter := fc, c_ConfigFile := ?p\<rparr>))"
    using assms(2,3) by (simp add: config_New_def newFromFlags_def e f)
  also have "\<dots> = config_finish L (merge cf (args\<lparr>c_ConfigFile := ?p\<rparr>))"
    using merge_src_filter [where d = cf and s = "args\<lparr>c_ConfigFile := ?p\<rparr>" and x = fc]
      config_finish_cong [of ?L L] by (simp add: swap)
  finally have "config_New ?L = config_New L" using m by simp
  moreover have "config_New L = Panic" if "c_Filter cf = None" "c_Storage args \<noteq> None"
  proof -
    have "c_Filter (merge cf (args\<lparr>c_ConfigFile := ?p\<rparr>)) = None" using that by simp
    then show ?thesis
      by (auto simp: m config_finish_def mergeEnvs_def Let_def split: option.splits)
  qed
  ultimately show ?thesis by blast
qed

theorem config_filter_flags_ignored_witness:
  "config_New (sample_cfglibs\<lparr>unmarshalConfig := (\<lambda>_. Inr (flag_defaults\<lparr>c_Filter := None\<rparr>))\<rparr>) = Panic"
proof -
  let ?L = "sample_cfglibs\<lparr>unmarshalConfig := (\<lambda>_. Inr (flag_defaults\<lparr>c_Filter := None\<rparr>))\<rparr>"
  let ?args = "flag_defaults\<lparr>c_ConfigFile := ''f'', c_JWTSecret := ''s''\<rparr>"
  have "parseFlags ?L flag_defaults = Inr ?args" by (simp add: sample_cfglibs_def)
  moreover have "newFromFile ?L (envOverride ?L ''CONFIG'' (c_ConfigFile ?args)) = Inr (flag_defaults\<lparr>c_Filter := None\<rparr>)"
      "envOverride ?L ''CONFIG'' (c_ConfigFile ?args) \<noteq> []"
    by (simp_all add: newFromFile_def sample_cfglibs_def envOverride_def)
  ultimately show ?thesis
    using config_filter_flags_ignored [of ?L ?args "flag_defaults\<lparr>c_Filter := None\<rparr>"]
    by (simp add: flag_defaults_def)
qed

end
