(* ===== verification/Process.thy ===== *)
theory Process
  imports Prelude
begin

text \<open>
  The goroutines that \<open>Run\<close> of \<open>internal/app/app.go\<close> starts and waits for: the servers, each with
  its own \<open>Run\<close> (\<open>internal/http/server/server.go\<close>, \<open>internal/grpc/server/server.go\<close>,
  \<open>internal/profiler/profiler.go\<close>), the flusher, and the main one. They share the context, the
  channel \<open>errc\<close>, which has no buffer, and the wait group.
\<close>

section \<open>The servers\<close>

text \<open>
  Where the goroutine of a server is: before its listener exists, in its select, sending an
  error on \<open>errc\<close> (with the flag set when it stops the server after that), waiting for a
  shutdown to complete, or after \<open>wg.Done\<close>.
\<close>

datatype spc = Listening | Serving | SendingErr bool | Stopping | Down

text \<open>
  What can happen to it: the listener is created or not, serving ends (with the flag set if the
  error is \<open>ErrServerClosed\<close>), the main goroutine receives the error, the select sees the
  cancelled context, the shutdown returns.
\<close>

datatype sevent = ListenOk | ListenError | ServeEnds bool | ErrReceived | CtxDone | ShutdownReturns

fun http_Run :: "sevent \<Rightarrow> spc \<Rightarrow> spc option" where
  "http_Run CtxDone Serving = Some Stopping"
| "http_Run ShutdownReturns Stopping = Some Down"
| "http_Run (ServeEnds closed) Serving = Some (if closed then Down else SendingErr False)"
| "http_Run ErrReceived (SendingErr False) = Some Down"
| "http_Run _ _ = None"

fun grpc_Run :: "sevent \<Rightarrow> spc \<Rightarrow> spc option" where
  "grpc_Run ListenError Listening = Some (SendingErr False)"
| "grpc_Run ListenOk Listening = Some Serving"
| "grpc_Run CtxDone Serving = Some Stopping"
| "grpc_Run (ServeEnds closed) Serving = Some (SendingErr True)"
| "grpc_Run ErrReceived (SendingErr stop) = Some (if stop then Stopping else Down)"
| "grpc_Run ShutdownReturns Stopping = Some Down"
| "grpc_Run _ _ = None"

fun prof_Run :: "sevent \<Rightarrow> spc \<Rightarrow> spc option" where
  "prof_Run CtxDone Serving = Some Stopping"
| "prof_Run ShutdownReturns Stopping = Some Down"
| "prof_Run (ServeEnds closed) Serving = Some (if closed then Down else SendingErr False)"
| "prof_Run ErrReceived (SendingErr False) = Some Down"
| "prof_Run _ _ = None"

datatype skind = ProfKind | HttpKind | GrpcKind

text \<open>The http server and the profiler listen inside \<open>ListenAndServe\<close>, the grpc server before its select.\<close>

fun server_start :: "skind \<Rightarrow> spc" where
  "server_start GrpcKind = Listening"
| "server_start _ = Serving"

fun server_Run :: "skind \<Rightarrow> sevent \<Rightarrow> spc \<Rightarrow> spc option" where
  "server_Run ProfKind = prof_Run"
| "server_Run HttpKind = http_Run"
| "server_Run GrpcKind = grpc_Run"

section \<open>The process\<close>

datatype mpc = Selecting | Waiting | Returned

record proc =
  main_pc :: mpc
  cancelled :: bool
  exit_code :: int
  servers :: "(skind \<times> spc) list"
  flusher_up :: bool
  store_closed :: bool

datatype aevent = Interrupt | Server nat sevent | SelectDone | FlusherStop | WaitDone

definition server_step :: "proc \<Rightarrow> nat \<Rightarrow> sevent \<Rightarrow> proc option" where
  "server_step s i e = (if i < length (servers s)
     then (case servers s ! i of (k, p) \<Rightarrow>
       map_option (\<lambda>q. s\<lparr>servers := (servers s)[i := (k, q)]\<rparr>) (server_Run k e p)) else None)"

text \<open>
  One step. A server sees the end of the context once it is cancelled; its error is received
  while the main goroutine is in its select, which then cancels the context and waits, as it
  does when it sees a cancelled context. After the wait group it closes the storage.
\<close>

fun anext :: "proc \<Rightarrow> aevent \<Rightarrow> proc option" where
  "anext s Interrupt = Some (s\<lparr>cancelled := True\<rparr>)"
| "anext s (Server i ErrReceived) =
     (if main_pc s = Selecting
      then map_option (\<lambda>t. t\<lparr>main_pc := Waiting, exit_code := 1, cancelled := True\<rparr>) (server_step s i ErrReceived)
      else None)"
| "anext s (Server i CtxDone) = (if cancelled s then server_step s i CtxDone else None)"
| "anext s (Server i e) = server_step s i e"
| "anext s SelectDone =
     (if main_pc s = Selecting \<and> cancelled s then Some (s\<lparr>main_pc := Waiting\<rparr>) else None)"
| "anext s FlusherStop = (if flusher_up s \<and> cancelled s then Some (s\<lparr>flusher_up := False\<rparr>) else None)"
| "anext s WaitDone =
     (if main_pc s = Waiting \<and> list_all (\<lambda>(k, p). p = Down) (servers s) \<and> \<not> flusher_up s
      then Some (s\<lparr>main_pc := Returned, store_closed := True\<rparr>) else None)"

fun arun :: "proc \<Rightarrow> aevent list \<Rightarrow> proc option" where
  "arun s [] = Some s"
| "arun s (e # es) = (case anext s e of None \<Rightarrow> None | Some t \<Rightarrow> arun t es)"

definition app_start :: "skind list \<Rightarrow> proc" where
  "app_start ks = \<lparr>main_pc = Selecting, cancelled = False, exit_code = 0,
     servers = map (\<lambda>k. (k, server_start k)) ks, flusher_up = True, store_closed = False\<rparr>"

text \<open>The same steps as a relation, and the states a process can be in.\<close>

inductive astep :: "proc \<Rightarrow> aevent \<Rightarrow> proc \<Rightarrow> bool" where
  interrupt: "astep s Interrupt (s\<lparr>cancelled := True\<rparr>)"
| receive: "main_pc s = Selecting \<Longrightarrow> i < length (servers s) \<Longrightarrow> servers s ! i = (k, p) \<Longrightarrow>
    server_Run k ErrReceived p = Some q \<Longrightarrow> astep s (Server i ErrReceived)
      (s\<lparr>servers := (servers s)[i := (k, q)], main_pc := Waiting, exit_code := 1, cancelled := True\<rparr>)"
| server: "i < length (servers s) \<Longrightarrow> servers s ! i = (k, p) \<Longrightarrow> server_Run k e p = Some q \<Longrightarrow>
    e \<noteq> ErrReceived \<Longrightarrow> (e = CtxDone \<Longrightarrow> cancelled s) \<Longrightarrow>
    astep s (Server i e) (s\<lparr>servers := (servers s)[i := (k, q)]\<rparr>)"
| select_done: "main_pc s = Selecting \<Longrightarrow> cancelled s \<Longrightarrow> astep s SelectDone (s\<lparr>main_pc := Waiting\<rparr>)"
| flusher_stop: "flusher_up s \<Longrightarrow> cancelled s \<Longrightarrow> astep s FlusherStop (s\<lparr>flusher_up := False\<rparr>)"
| wait_done: "main_pc s = Waiting \<Longrightarrow> list_all (\<lambda>(k, p). p = Down) (servers s) \<Longrightarrow> \<not> flusher_up s \<Longrightarrow>
    astep s WaitDone (s\<lparr>main_pc := Returned, store_closed := True\<rparr>)"

inductive_cases astepE [elim]: "astep s e t"

lemma server_step_iff:
  "server_step s i e = Some t \<longleftrightarrow> i < length (servers s) \<and>
     (\<exists>k p q. servers s ! i = (k, p) \<and> server_Run k e p = Some q \<and> t = s\<lparr>servers := (servers s)[i := (k, q)]\<rparr>)"
  by (cases "servers s ! i") (auto simp: server_step_def)

lemma anext_iff: "anext s e = Some t \<longleftrightarrow> astep s e t"
proof
  assume a: "anext s e = Some t"
  show "astep s e t"
  proof (cases e)
    case (Server i x)
    show ?thesis
      by (use a Server in \<open>cases x; auto simp: server_step_iff intro: receive server split: if_splits\<close>)
  qed (use a in \<open>auto intro: interrupt select_done flusher_stop wait_done split: if_splits\<close>)
next
  assume "astep s e t"
  then show "anext s e = Some t"
  proof (cases rule: astep.cases)
    case (server i k p x q)
    then have st: "server_step s i x = Some t" by (auto simp: server_step_iff)
    show ?thesis by (use server st in \<open>cases x; simp\<close>)
  qed (auto simp: server_step_def)
qed

inductive areach :: "skind list \<Rightarrow> proc \<Rightarrow> bool" for ks where
  start: "areach ks (app_start ks)"
| step: "areach ks s \<Longrightarrow> astep s e t \<Longrightarrow> areach ks t"

lemma arun_append: "arun s (es @ fs) = (case arun s es of None \<Rightarrow> None | Some t \<Rightarrow> arun t fs)"
  by (induction es arbitrary: s) (auto split: option.splits)

lemma arun_reach: "areach ks s \<Longrightarrow> arun s es = Some t \<Longrightarrow> areach ks t"
  by (induction es arbitrary: s) (auto simp: anext_iff split: option.splits intro: areach.step)

section \<open>What a server can do\<close>

lemmas server_RunE = http_Run.elims grpc_Run.elims prof_Run.elims

lemma server_Run_listening: "server_Run k e p = Some q \<Longrightarrow> q \<noteq> Listening"
  by (cases k) (auto elim!: server_RunE split: if_splits)

lemma server_Run_sending: "server_Run k e (SendingErr b) = Some q \<Longrightarrow> e = ErrReceived"
  by (cases k; cases e; cases b) auto

lemma server_Run_not_down: "server_Run k e Down = None"
  by (cases k; cases e) auto

text \<open>Each step takes a server closer to its end.\<close>

fun spc_work :: "spc \<Rightarrow> nat" where
  "spc_work Listening = 4"
| "spc_work Serving = 3"
| "spc_work (SendingErr stop) = (if stop then 2 else 1)"
| "spc_work Stopping = 1"
| "spc_work Down = 0"

lemma server_Run_work: "server_Run k e p = Some q \<Longrightarrow> spc_work q < spc_work p"
  by (cases k) (auto elim!: server_RunE split: if_splits)

text \<open>A server that is not sending an error can go on once the context is done, without a failure.\<close>

lemma server_Run_can_stop:
  assumes "p \<noteq> Down" and "\<And>b. p \<noteq> SendingErr b" and "p = Listening \<longrightarrow> k = GrpcKind"
  shows "\<exists>e q. server_Run k e p = Some q \<and> e \<in> {ListenOk, CtxDone, ShutdownReturns} \<and> (\<forall>b. q \<noteq> SendingErr b)"
proof (cases p)
  case Listening
  then show ?thesis using assms(3) by (intro exI [of _ ListenOk] exI [of _ Serving]) simp
next
  case Serving
  then show ?thesis by (intro exI [of _ CtxDone] exI [of _ Stopping]) (cases k; simp)
next
  case Stopping
  then show ?thesis by (intro exI [of _ ShutdownReturns] exI [of _ Down]) (cases k; simp)
qed (use assms in auto)

section \<open>Invariants of the process\<close>

text \<open>
  The main goroutine leaves its select only when the context is done, and closes the storage
  only after everything has stopped; only a grpc server can be before its listener.
\<close>

definition proc_inv :: "proc \<Rightarrow> bool" where
  "proc_inv s \<longleftrightarrow> (main_pc s \<noteq> Selecting \<longrightarrow> cancelled s) \<and>
     (main_pc s = Returned \<longrightarrow> list_all (\<lambda>(k, p). p = Down) (servers s) \<and> \<not> flusher_up s) \<and>
     (store_closed s \<longleftrightarrow> main_pc s = Returned) \<and>
     list_all (\<lambda>(k, p). p = Listening \<longrightarrow> k = GrpcKind) (servers s)"

lemma list_all_update: "list_all P xs \<Longrightarrow> P x \<Longrightarrow> list_all P (xs[i := x])"
  using set_update_subset_insert [of xs i x] by (auto simp: list_all_iff)

lemma down_nth: "list_all (\<lambda>(k, p). p = Down) ps \<Longrightarrow> i < length ps \<Longrightarrow> ps ! i = (k, p) \<Longrightarrow> p = Down"
  by (auto simp: list_all_length)

lemma proc_inv_step: "astep s e t \<Longrightarrow> proc_inv s \<Longrightarrow> proc_inv t"
proof (erule astep.cases)
  fix u i k p x q
  assume st: "s = u" "t = u\<lparr>servers := (servers u)[i := (k, q)]\<rparr>" "servers u ! i = (k, p)" "i < length (servers u)"
    "server_Run k x p = Some q" and inv: "proc_inv s"
  have "main_pc u \<noteq> Returned"
    using down_nth [of "servers u" i k p] st inv by (auto simp: proc_inv_def server_Run_not_down)
  moreover have "q \<noteq> Listening" using st server_Run_listening by blast
  ultimately show "proc_inv t" using st inv by (auto simp: proc_inv_def intro!: list_all_update)
next
  fix u i k p q
  assume st: "s = u" "main_pc u = Selecting" "server_Run k ErrReceived p = Some q" "proc_inv s"
    "t = u\<lparr>servers := (servers u)[i := (k, q)], main_pc := Waiting, exit_code := 1, cancelled := True\<rparr>"
  have "q \<noteq> Listening" using st(3) server_Run_listening by blast
  with st show "proc_inv t" by (auto simp: proc_inv_def intro!: list_all_update)
qed (auto simp: proc_inv_def)

lemma proc_inv_reach: "areach ks s \<Longrightarrow> proc_inv s"
proof (induction rule: areach.induct)
  case start
  have "server_start k = Listening \<longrightarrow> k = GrpcKind" for k by (cases k) simp_all
  then show ?case by (simp add: proc_inv_def app_start_def list_all_iff)
next
  case (step s e t)
  then show ?case using proc_inv_step by blast
qed

lemma proc_inv_run: "arun (app_start ks) es = Some s \<Longrightarrow> proc_inv s"
  using arun_reach [OF areach.start] proc_inv_reach by blast

text \<open>A server that sends an error when the main goroutine has left its select stays there.\<close>

definition sending :: "proc \<Rightarrow> bool" where
  "sending s \<longleftrightarrow> (\<exists>k b. (k, SendingErr b) \<in> set (servers s))"

lemma sending_update:
  assumes "(k', SendingErr b) \<in> set ps" and "i < length ps" and "ps ! i = (k, p)" and "\<And>c. p \<noteq> SendingErr c"
  shows "(k', SendingErr b) \<in> set (ps[i := x])"
proof -
  obtain j where j: "j < length ps" "ps ! j = (k', SendingErr b)" using assms(1) by (auto simp: in_set_conv_nth)
  with assms(3) assms(4) [of b] have "j \<noteq> i" by force
  with j show ?thesis by (auto simp: in_set_conv_nth intro!: exI [of _ j])
qed

lemma hung_step: "astep s e t \<Longrightarrow> main_pc s = Waiting \<Longrightarrow> sending s \<Longrightarrow> main_pc t = Waiting \<and> sending t"
proof (erule astep.cases)
  fix u i k p x q
  assume st: "s = u" "t = u\<lparr>servers := (servers u)[i := (k, q)]\<rparr>" "servers u ! i = (k, p)" "i < length (servers u)"
    "server_Run k x p = Some q" "x \<noteq> ErrReceived" and m: "main_pc s = Waiting" "sending s"
  from st have p: "p \<noteq> SendingErr c" for c using server_Run_sending by blast
  from m obtain k' b where "(k', SendingErr b) \<in> set (servers s)" by (auto simp: sending_def)
  from sending_update [OF this, of i k p "(k, q)"] p st have "(k', SendingErr b) \<in> set (servers t)" by simp
  with m st show "main_pc t = Waiting \<and> sending t" by (auto simp: sending_def)
qed (auto simp: sending_def list_all_iff)

lemma hung_run: "arun s es = Some t \<Longrightarrow> main_pc s = Waiting \<Longrightarrow> sending s \<Longrightarrow> main_pc t = Waiting"
  by (induction es arbitrary: s) (auto simp: anext_iff split: option.splits dest: hung_step)

section \<open>Work left\<close>

fun mpc_work :: "mpc \<Rightarrow> nat" where
  "mpc_work Selecting = 2"
| "mpc_work Waiting = 1"
| "mpc_work Returned = 0"

definition work :: "proc \<Rightarrow> nat" where
  "work s = sum_list (map (\<lambda>(k, p). spc_work p) (servers s)) + mpc_work (main_pc s) + (if flusher_up s then 1 else 0)"

lemma sum_work_update:
  assumes "i < length ps" and "ps ! i = (k, p)"
  shows "sum_list (map (\<lambda>(k, p). spc_work p) (ps[i := (k, q)])) + spc_work p =
    sum_list (map (\<lambda>(k, p). spc_work p) ps) + spc_work q"
  using assms by (induction ps arbitrary: i) (auto split: nat.split simp: less_Suc_eq_0_disj)

lemma work_step: "astep s e t \<Longrightarrow> e \<noteq> Interrupt \<Longrightarrow> work t < work s"
proof (erule astep.cases)
  fix u i k p x q
  assume "s = u" "t = u\<lparr>servers := (servers u)[i := (k, q)]\<rparr>" "servers u ! i = (k, p)" "i < length (servers u)"
    "server_Run k x p = Some q"
  then show "work t < work s"
    using sum_work_update [of i "servers u" k p q] server_Run_work [of k x p q] by (simp add: work_def)
next
  fix u i k p q
  assume "s = u" "main_pc u = Selecting" "servers u ! i = (k, p)" "i < length (servers u)"
    "server_Run k ErrReceived p = Some q"
    "t = u\<lparr>servers := (servers u)[i := (k, q)], main_pc := Waiting, exit_code := 1, cancelled := True\<rparr>"
  then show "work t < work s"
    using sum_work_update [of i "servers u" k p q] server_Run_work [of k ErrReceived p q] by (simp add: work_def)
qed (simp_all add: work_def)

lemma work_interrupt: "astep s Interrupt t \<Longrightarrow> work t = work s"
  by (cases rule: astep.cases) (auto simp: work_def)

lemma work_run: "arun s es = Some t \<Longrightarrow> length (filter (\<lambda>e. e \<noteq> Interrupt) es) + work t \<le> work s"
proof (induction es arbitrary: s)
  case Nil
  then show ?case by simp
next
  case (Cons e es)
  then obtain u where u: "astep s e u" "arun u es = Some t" by (auto simp: anext_iff split: option.splits)
  from Cons.IH [OF u(2)] work_step [OF u(1)] work_interrupt [of s u] u(1) show ?case by (cases "e = Interrupt") auto
qed

text \<open>While no server sends an error, a waiting process can take a step that keeps it so, or return.\<close>

lemma waiting_step:
  assumes "proc_inv s" and "main_pc s = Waiting" and "\<not> sending s"
  obtains e t where "astep s e t" "e \<noteq> Interrupt" "main_pc t = Returned \<or> main_pc t = Waiting \<and> \<not> sending t"
proof -
  have c: "cancelled s" using assms(1,2) by (simp add: proc_inv_def)
  show thesis
  proof (cases "list_all (\<lambda>(k, p). p = Down) (servers s)")
    case True
    then show thesis
      using assms(2,3) c that [OF astep.flusher_stop] that [OF astep.wait_done] by (cases "flusher_up s") (simp_all add: sending_def)
  next
    case False
    then obtain i k p where i: "i < length (servers s)" "servers s ! i = (k, p)" "p \<noteq> Down"
      by (auto simp: list_all_length)
    then have m: "(k, p) \<in> set (servers s)" by (metis nth_mem)
    with assms(3) have "p \<noteq> SendingErr b" for b by (auto simp: sending_def)
    moreover have "p = Listening \<longrightarrow> k = GrpcKind" using assms(1) m by (auto simp: proc_inv_def list_all_iff)
    ultimately obtain e q where q: "server_Run k e p = Some q" "e \<in> {ListenOk, CtxDone, ShutdownReturns}" "\<forall>b. q \<noteq> SendingErr b"
      using server_Run_can_stop [OF i(3)] by blast
    then have e: "e \<noteq> ErrReceived" by auto
    have "\<not> sending (s\<lparr>servers := (servers s)[i := (k, q)]\<rparr>)"
      using assms(3) q(3) set_update_subset_insert [of "servers s" i "(k, q)"] by (auto simp: sending_def)
    then show thesis using that [OF astep.server [OF i(1,2) q(1) e]] c assms(2) by simp
  qed
qed

lemma shutdown_completes:
  "proc_inv s \<Longrightarrow> main_pc s = Waiting \<Longrightarrow> \<not> sending s \<Longrightarrow> \<exists>es t. arun s es = Some t \<and> main_pc t = Returned"
proof (induction "work s" arbitrary: s rule: less_induct)
  case less
  then obtain e t where e: "astep s e t" "e \<noteq> Interrupt" "main_pc t = Returned \<or> main_pc t = Waiting \<and> \<not> sending t"
    using waiting_step by metis
  then have a: "arun s (e # es) = arun t es" for es by (simp add: anext_iff [symmetric])
  show ?case
  proof (cases "main_pc t = Returned")
    case True
    then show ?thesis using a [of "[]"] by (intro exI [of _ "[e]"] exI [of _ t]) simp
  next
    case False
    with e have "\<exists>es u. arun t es = Some u \<and> main_pc u = Returned"
      using less.hyps [OF work_step [OF e(1,2)] proc_inv_step [OF e(1) less.prems(1)]] by blast
    then show ?thesis using a by metis
  qed
qed

section \<open>Properties\<close>

text \<open>The exit code tells whether a server failed, and the process returns in order: whenever \<open>Run\<close>
  returns, its code is 1 exactly when an error of a server was received and 0 otherwise, the context is
  cancelled, all servers and the flusher have stopped, and only then is the storage closed.\<close>

theorem app_exit_code:
  assumes "arun (app_start ks) es = Some s" and "main_pc s = Returned"
  shows "exit_code s = (if \<exists>i. Server i ErrReceived \<in> set es then 1 else 0) \<and> cancelled s \<and>
    list_all (\<lambda>(k, p). p = Down) (servers s) \<and> \<not> flusher_up s \<and> store_closed s"
proof -
  have "exit_code t = (if \<exists>i. Server i ErrReceived \<in> set es then 1 else exit_code u)" if "arun u es = Some t" for u t
    using that
  proof (induction es arbitrary: u)
    case (Cons e es)
    then obtain v where v: "astep u e v" "arun v es = Some t" by (auto simp: anext_iff split: option.splits)
    from v(1) have "exit_code v = (if \<exists>i. e = Server i ErrReceived then 1 else exit_code u)"
      by (cases rule: astep.cases) auto
    with Cons.IH [OF v(2)] show ?case by auto
  qed simp
  from this [OF assms(1)] proc_inv_run [OF assms(1)] assms(2) show ?thesis
    by (auto simp: proc_inv_def app_start_def)
qed

text \<open>The grpc port is taken: its error is received and the http server shuts down.\<close>

definition sample_run :: "aevent list" where
  "sample_run = [Server 1 ListenError, Server 1 ErrReceived, FlusherStop, Server 0 CtxDone,
     Server 0 ShutdownReturns, WaitDone]"

theorem app_exit_code_witness:
  "\<exists>s. arun (app_start [HttpKind, GrpcKind]) sample_run = Some s \<and> main_pc s = Returned \<and> exit_code s = 1 \<and> store_closed s"
proof -
  obtain s where s: "arun (app_start [HttpKind, GrpcKind]) sample_run = Some s" "main_pc s = Returned"
    by (simp add: sample_run_def app_start_def server_step_def)
  from app_exit_code [OF s] s show ?thesis by (auto simp: sample_run_def)
qed

text \<open>When shutdown ends and when it hangs: once the main goroutine waits, it can still return if and
  only if no server is sending its error; with two servers failing together (both ports taken) one of them
  is, nobody receives from the unbuffered channel any more, and the process hangs for good.\<close>

theorem app_shutdown_hangs_iff:
  assumes "arun (app_start ks) es = Some s" and "main_pc s = Waiting"
  shows "(\<exists>fs t. arun s fs = Some t \<and> main_pc t = Returned) \<longleftrightarrow> (\<nexists>k b. (k, SendingErr b) \<in> set (servers s))"
  using hung_run [of s _ _] shutdown_completes [OF proc_inv_run [OF assms(1)] assms(2)] assms(2)
  by (fastforce simp: sending_def)

theorem app_shutdown_hangs_iff_witness:
  "\<exists>s. arun (app_start [HttpKind, GrpcKind]) [Server 0 (ServeEnds False), Server 1 ListenError, Server 0 ErrReceived] = Some s \<and>
    \<not> (\<exists>fs t. arun s fs = Some t \<and> main_pc t = Returned)"
proof -
  obtain s where s: "arun (app_start [HttpKind, GrpcKind])
      [Server 0 (ServeEnds False), Server 1 ListenError, Server 0 ErrReceived] = Some s" "main_pc s = Waiting"
      "(GrpcKind, SendingErr False) \<in> set (servers s)"
    by (simp add: app_start_def server_step_def)
  from app_shutdown_hangs_iff [OF s(1,2)] s show ?thesis by blast
qed

text \<open>
  What the environment decides: signals, and the end or failure of serving. All other steps are the
  program's own. \<open>fails ks e\<close> is a failure of a server: no listener, or serving that ends with an
  error (for the grpc server, ends at all) before it was asked to stop.
\<close>

fun from_outside :: "aevent \<Rightarrow> bool" where
  "from_outside Interrupt = True"
| "from_outside (Server i ListenError) = True"
| "from_outside (Server i (ServeEnds closed)) = True"
| "from_outside _ = False"

fun fails :: "skind list \<Rightarrow> aevent \<Rightarrow> bool" where
  "fails ks (Server i ListenError) = True"
| "fails ks (Server i (ServeEnds closed)) = (\<not> closed \<or> ks ! i = GrpcKind)"
| "fails ks _ = False"

lemma run_kinds: "arun s es = Some t \<Longrightarrow> map fst (servers t) = map fst (servers s)"
proof (induction es arbitrary: s)
  case (Cons e es)
  then obtain u where u: "astep s e u" "arun u es = Some t" by (auto simp: anext_iff split: option.splits)
  have "map fst (servers u) = map fst (servers s)"
    using u(1) by (cases rule: astep.cases) (auto simp: map_update list_update_same_conv)
  with Cons.IH [OF u(2)] show ?case by simp
qed simp

lemma server_Run_sends: "server_Run k e p = Some (SendingErr b) \<Longrightarrow> fails ks (Server i e) \<or> ks ! i \<noteq> k"
  by (cases k) (auto elim!: server_RunE split: if_splits)

lemma receives_sent: "astep s (Server i ErrReceived) t \<Longrightarrow> sending s"
proof (erule astep.cases)
  fix u j k p q
  assume st: "s = u" "j < length (servers u)" "servers u ! j = (k, p)" "server_Run k ErrReceived p = Some q"
  then have "(k, p) \<in> set (servers s)" by (metis nth_mem)
  moreover have "\<exists>b. p = SendingErr b" using st(4) by (cases k; cases p) simp_all
  ultimately show "sending s" by (auto simp: sending_def)
qed auto

lemma step_sends:
  assumes "astep s e t" and "\<not> fails (map fst (servers s)) e" and "\<not> sending s"
  shows "\<not> sending t"
  using assms(1)
proof (cases rule: astep.cases)
  case (receive i k p q)
  with receives_sent assms(1,3) show ?thesis by blast
next
  case (server i k p x q)
  have "q \<noteq> SendingErr b" for b
    using server_Run_sends [of k x p b "map fst (servers s)" i] server assms(2) by auto
  then show ?thesis using assms(3) server(2) set_update_subset_insert [of "servers s" i "(k, q)"]
    by (auto simp: sending_def)
qed (use assms(3) in \<open>auto simp: sending_def\<close>)

lemma run_sends:
  "arun s es = Some t \<Longrightarrow> \<not> sending s \<Longrightarrow> (\<And>e. e \<in> set es \<Longrightarrow> \<not> fails (map fst (servers s)) e) \<Longrightarrow>
     \<not> sending t \<and> (\<forall>i. Server i ErrReceived \<notin> set es)"
proof (induction es arbitrary: s)
  case (Cons e es)
  then obtain u where u: "astep s e u" "arun u es = Some t" by (auto simp: anext_iff split: option.splits)
  have "map fst (servers u) = map fst (servers s)"
    using run_kinds [of s "[e]" u] u(1) by (simp add: anext_iff [symmetric])
  moreover have "\<not> sending u" using step_sends [OF u(1)] Cons.prems(2,3) by auto
  moreover have "e \<noteq> Server i ErrReceived" for i using receives_sent u(1) Cons.prems(2) by blast
  ultimately show ?case using Cons.IH [OF u(2)] Cons.prems(3) by auto
qed simp

lemma run_cancelled:
  "arun s es = Some t \<Longrightarrow> Interrupt \<in> set es \<or> (\<exists>i. Server i ErrReceived \<in> set es) \<or> cancelled s \<Longrightarrow> cancelled t"
proof (induction es arbitrary: s)
  case (Cons e es)
  then obtain u where u: "astep s e u" "arun u es = Some t" by (auto simp: anext_iff split: option.splits)
  have "e = Interrupt \<or> (\<exists>i. e = Server i ErrReceived) \<or> cancelled s \<Longrightarrow> cancelled u"
    using u(1) by (cases rule: astep.cases) auto
  then show ?case using Cons.IH [OF u(2)] Cons.prems(2) by auto
qed simp

lemma stopped_servers:
  assumes "proc_inv s" and "cancelled s" and "\<And>e. \<not> from_outside e \<Longrightarrow> anext s e = None" and "(k, p) \<in> set (servers s)"
  shows "p = Down \<or> (\<exists>b. p = SendingErr b)"
proof (rule ccontr)
  assume p: "\<not> (p = Down \<or> (\<exists>b. p = SendingErr b))"
  have "p = Listening \<longrightarrow> k = GrpcKind" using assms(1,4) by (auto simp: proc_inv_def list_all_iff)
  then obtain e q where q: "server_Run k e p = Some q" "e \<in> {ListenOk, CtxDone, ShutdownReturns}"
    using server_Run_can_stop [of p k] p by blast
  from assms(4) obtain i where i: "i < length (servers s)" "servers s ! i = (k, p)" by (auto simp: in_set_conv_nth)
  have "astep s (Server i e) (s\<lparr>servers := (servers s)[i := (k, q)]\<rparr>)"
    by (rule astep.server [OF i q(1)]) (use q(2) assms(2) in auto)
  from anext_iff [THEN iffD2, OF this] have "anext s (Server i e) \<noteq> None" by simp
  moreover have "\<not> from_outside (Server i e)" using q(2) by auto
  ultimately show False using assms(3) [of "Server i e"] by simp
qed

lemma stopped_process:
  assumes "proc_inv s" and "cancelled s" and "\<And>e. \<not> from_outside e \<Longrightarrow> anext s e = None"
  shows "\<not> flusher_up s \<and> (main_pc s = Returned \<or> main_pc s = Waiting \<and> sending s)"
proof -
  have "anext s SelectDone = None" "anext s FlusherStop = None" "anext s WaitDone = None"
    by (rule assms(3); simp)+
  then have m: "main_pc s \<noteq> Selecting" "\<not> flusher_up s"
      "main_pc s = Waiting \<Longrightarrow> \<not> list_all (\<lambda>(k, p). p = Down) (servers s)"
    using assms(2) by (auto split: if_splits)
  moreover have "sending s" if "\<not> list_all (\<lambda>(k, p). p = Down) (servers s)"
    using that stopped_servers [OF assms] by (fastforce simp: list_all_iff sending_def)
  ultimately show ?thesis by (cases "main_pc s") auto
qed



end
