(* ===== verification/App.thy ===== *)
theory App
  imports AppRun AppConfig Process
begin

text \<open>
  The process: \<open>internal/app/app.go\<close> (choice of the storage, creation of the services and
  servers, start and shutdown), the \<open>Run\<close> methods of the servers as far as start and shutdown
  are concerned, and \<open>cmd/shortener/main.go\<close>.
\<close>

section \<open>Creating the storage and the services\<close>

datatype ('d, 'f, 'm) store = DatabaseStore 'd | FileStore 'f | MemoryStore 'm

text \<open>What the three constructors return is given; only the chosen one is called.\<close>

definition createStorage ::
  "(string \<Rightarrow> bool \<Rightarrow> gerr + 'd) \<Rightarrow> (string \<Rightarrow> gerr + 'f) \<Rightarrow> 'm \<Rightarrow> StorageParams \<Rightarrow> gerr + ('d, 'f, 'm) store" where
  "createStorage new_db new_file new_mem cfg =
     (if DatabaseDSN cfg \<noteq> [] then
        (case new_db (DatabaseDSN cfg) (TraceDB cfg) of
           Inl e \<Rightarrow> Inl (Wrap ''cannot initialize database storage'' e)
         | Inr d \<Rightarrow> Inr (DatabaseStore d))
      else if FileStoragePath cfg \<noteq> [] then
        (case new_file (FileStoragePath cfg) of
           Inl e \<Rightarrow> Inl (Wrap ''cannot initialize file storage'' e)
         | Inr f \<Rightarrow> Inr (FileStore f))
      else Inr (MemoryStore new_mem))"

definition defaultPathLength :: nat where
  "defaultPathLength = 8"

text \<open>
  What \<open>NewServer\<close> of either server takes from the configuration; a nil filter panics (a nil
  authorizer would at the first request, and cannot occur without a nil filter).
\<close>

definition NewServer :: "httplibs \<Rightarrow> 's Storage \<Rightarrow> Service \<Rightarrow> AppConfig \<Rightarrow> 's Server option" where
  "NewServer H stg svc cfg = (case (c_auth cfg, c_filter cfg) of
     (Some a, Some f) \<Rightarrow> Some \<lparr>libs = H, storage = stg, shortenerSvc = svc, authorizer = a, filterMW = f,
       trustRequestID = c_TrustRequestID cfg\<rparr>
   | _ \<Rightarrow> None)"

record 's Shorty =
  sh_svc :: Service
  sh_flusher :: "URL Flusher"
  sh_http :: "(string \<times> 's Server) option"
  sh_grpc :: "(string \<times> 's Server) option"

definition NewShorty :: "httplibs \<Rightarrow> 's Storage option \<Rightarrow> AppConfig \<Rightarrow> (gerr + 's Shorty) outcome" where
  "NewShorty H st cfg = (case st of
     None \<Rightarrow> Ret (Inl (Errmsg ''nil storage''))
   | Some stg \<Rightarrow> (case shortener_New \<lparr>ServedScheme = c_ServedScheme cfg, RedirectScheme = c_RedirectScheme cfg,
         Host = c_ServedHost cfg, PathLength = defaultPathLength\<rparr> of
       None \<Rightarrow> Panic
     | Some (svc, flq) \<Rightarrow>
         (let srv = NewServer H stg svc cfg;
              sh = \<lparr>sh_svc = svc, sh_flusher = flq, sh_http = None, sh_grpc = None\<rparr>
          in case (if c_ListenAddr cfg = [] then Some sh
                   else map_option (\<lambda>s. sh\<lparr>sh_http := Some (c_ListenAddr cfg, s)\<rparr>) srv) of
               None \<Rightarrow> Panic
             | Some sh1 \<Rightarrow>
                 (case (if c_GRPCListenAddr cfg = [] then Some sh1
                        else map_option (\<lambda>s. sh1\<lparr>sh_grpc := Some (c_GRPCListenAddr cfg, s)\<rparr>) srv) of
                    None \<Rightarrow> Panic
                  | Some sh2 \<Rightarrow> Ret (Inr sh2)))))"

section \<open>Run\<close>

text \<open>
  The start of \<open>Run\<close>, on the result of \<^const>\<open>createStorage\<close>: a failing storage or a failing
  \<^const>\<open>NewShorty\<close> ends it with code 1; otherwise the goroutines of \<open>Process\<close> are started, a server
  for each address.
\<close>

definition app_servers :: "AppConfig \<Rightarrow> 's Shorty \<Rightarrow> skind list" where
  "app_servers cfg sh = (if c_PprofServerAddr cfg \<noteq> [] then [ProfKind] else []) @
     (if sh_http sh \<noteq> None then [HttpKind] else []) @ (if sh_grpc sh \<noteq> None then [GrpcKind] else [])"

definition app_Run :: "httplibs \<Rightarrow> gerr + 's Storage \<Rightarrow> AppConfig \<Rightarrow> (int + 's Shorty \<times> proc) outcome" where
  "app_Run H st cfg = (case st of
     Inl e \<Rightarrow> Ret (Inl 1)
   | Inr stg \<Rightarrow> (case NewShorty H (Some stg) cfg of
       Panic \<Rightarrow> Panic
     | Ret (Inl e) \<Rightarrow> Ret (Inl 1)
     | Ret (Inr sh) \<Rightarrow> Ret (Inr (sh, app_start (app_servers cfg sh)))))"

section \<open>main.go\<close>

text \<open>Zap's debug level.\<close>

definition defaultLogLevel :: int where
  "defaultLogLevel = -1"

definition getLogger :: "(string \<Rightarrow> int \<times> gerr option) \<Rightarrow> string option \<Rightarrow> int \<times> gerr option" where
  "getLogger parseLevel env = (case env of
     None \<Rightarrow> (defaultLogLevel, None)
   | Some logLevel \<Rightarrow>
       if logLevel = [] then (defaultLogLevel, Some (Errmsg ''LOG_LEVEL env is defined but empty''))
       else (case parseLevel logLevel of
           (lvl, Some e) \<Rightarrow> (lvl, Some (Wrap ''cannot parse log level'' e))
         | (lvl, None) \<Rightarrow> (defaultLogLevel, None)))"

text \<open>
  What the process does last: the deferred calls run in reverse order, and \<open>os.Exit\<close> ends
  the process without the remaining ones, as \<open>logger.Fatal\<close> does.
\<close>

datatype maineff = LogError | Fatal | RunApp | SyncLogger | Exit int | Crash

fun run_deferred :: "maineff list \<Rightarrow> maineff list" where
  "run_deferred [] = []"
| "run_deferred (Exit c # ds) = [Exit c]"
| "run_deferred (d # ds) = d # run_deferred ds"

definition main_prog :: "gerr option \<Rightarrow> (gerr + AppConfig) outcome \<Rightarrow> (AppConfig \<Rightarrow> int) \<Rightarrow> maineff list" where
  "main_prog errLvl cfg run =
     (let deferred = [SyncLogger] in
      case errLvl of
        Some e \<Rightarrow> LogError # run_deferred (Exit 1 # deferred)
      | None \<Rightarrow> (case cfg of
          Panic \<Rightarrow> run_deferred deferred @ [Crash]
        | Ret (Inl e) \<Rightarrow> [Fatal]
        | Ret (Inr c) \<Rightarrow> RunApp # run_deferred (Exit (run c) # deferred)))"

text \<open>The logger is never flushed when the program ends in order: \<open>os.Exit\<close> is deferred after it.\<close>

lemma main_never_syncs: "cfg \<noteq> Panic \<Longrightarrow> SyncLogger \<notin> set (main_prog errLvl cfg run)"
  by (auto simp: main_prog_def Let_def split: option.splits outcome.splits sum.splits)

section \<open>Properties\<close>

lemma config_New_parts:
  assumes "config_New L = Ret (Inr cfg)"
  shows "(\<exists>a. c_auth cfg = Some a) \<and> (\<exists>f. c_filter cfg = Some f)"
proof -
  obtain c where "config_finish L c = Ret (Inr cfg)"
    using assms by (auto simp: config_New_def Let_def split: sum.splits if_splits)
  then show ?thesis
    by (auto simp: config_finish_def split: outcome.splits sum.splits option.splits if_splits)
qed

text \<open>C29. Every configuration that \<open>config.New\<close> accepts starts: on any storage that was created, \<open>Run\<close> neither fails
  nor panics, gives each server an authenticator and a filter, both servers the same service with paths of
  eight characters and an empty delete queue, and starts the profiler, the http server and the grpc server
  exactly when they have an address.\<close>

theorem app_starts:
  assumes "config_New L = Ret (Inr cfg)"
  shows "\<exists>sh ks. app_Run H (Inr stg) cfg = Ret (Inr (sh, app_start ks)) \<and>
    set ks = (if c_PprofServerAddr cfg = [] then {} else {ProfKind}) \<union>
      (if c_ListenAddr cfg = [] then {} else {HttpKind}) \<union> (if c_GRPCListenAddr cfg = [] then {} else {GrpcKind}) \<and>
    distinct ks \<and> pathLength (sh_svc sh) = 8 \<and> buf (sh_flusher sh) = [] \<and>
    (sh_http sh = None \<longleftrightarrow> c_ListenAddr cfg = []) \<and> (sh_grpc sh = None \<longleftrightarrow> c_GRPCListenAddr cfg = []) \<and>
    (\<forall>a srv. sh_http sh = Some (a, srv) \<or> sh_grpc sh = Some (a, srv) \<longrightarrow> storage srv = stg \<and>
      shortenerSvc srv = sh_svc sh \<and> c_auth cfg = Some (authorizer srv) \<and> c_filter cfg = Some (filterMW srv))"
proof -
  from config_New_parts [OF assms] obtain a f where "c_auth cfg = Some a" "c_filter cfg = Some f" by blast
  then show ?thesis
    by (auto simp: app_Run_def app_servers_def NewShorty_def NewServer_def shortener_New_def NewFlusher_def flusherAllocSize_def
        defaultPathLength_def Let_def)
qed

theorem app_starts_witness:
  "\<exists>cfg sh ks. config_New sample_cfglibs = Ret (Inr cfg) \<and>
    app_Run sample_httplibs (Inr memory_storage) cfg = Ret (Inr (sh, app_start ks)) \<and> pathLength (sh_svc sh) = 8"
proof -
  have "case config_New sample_cfglibs of Ret (Inr c) \<Rightarrow> True | _ \<Rightarrow> False" by code_simp
  then obtain cfg where c: "config_New sample_cfglibs = Ret (Inr cfg)"
    by (auto split: outcome.splits sum.splits)
  from app_starts [OF c, of sample_httplibs memory_storage] c show ?thesis by blast
qed

text \<open>Accepted deletions are lost at shutdown on file storage: storage and delete queue both react to the
  end of the context, and when the storage is first, the final flush empties the queue, but no deletion
  reaches the map or the file.\<close>

theorem shutdown_loses_deletes:
  assumes "DeleteBatch now usr shorts f = Some (None, f1)"
    and "flush_deletes file_storage f1 (persist_stop L d s) = (f2, s2)"
  shows "buf f2 = [] \<and> s2 = persist_stop L d s"
proof -
  have sd: "fshutdown (persist_stop L d s)"
    by (simp add: persist_stop_def persist_def Let_def split: prod.split option.split)
  have "st_DeleteUserURLs file_storage (persist_stop L d s) us = ((0, Some shutting_down), persist_stop L d s)" for us
    using sd by (simp add: file_storage_def File_DeleteUserURLs_def)
  with assms(2) show ?thesis
    by (auto simp: flush_deletes_def doFlush_def deleteURLs_def split: if_splits)
qed

theorem shutdown_loses_deletes_witness:
  "\<exists>f1 f2 s2. DeleteBatch 7 owner_user [''ab''] sample_queue = Some (None, f1) \<and>
    flush_deletes file_storage f1 (persist_stop sample_libs sample_disk (sample_file True)) = (f2, s2) \<and>
    buf f2 = [] \<and> s2 = persist_stop sample_libs sample_disk (sample_file True)"
proof -
  have "\<exists>f1. DeleteBatch 7 owner_user [''ab''] sample_queue = Some (None, f1)"
    by (simp add: DeleteBatch_def owner_user_def IsNew_def sample_queue_def Push_def push_body_def push_send_def Let_def)
  then obtain f1 where f: "DeleteBatch 7 owner_user [''ab''] sample_queue = Some (None, f1)" by blast
  obtain f2 s2 where s: "flush_deletes file_storage f1 (persist_stop sample_libs sample_disk (sample_file True)) = (f2, s2)"
    by (metis surj_pair)
  from shutdown_loses_deletes [OF f s] f s show ?thesis by blast
qed

text \<open>The configured log level is ignored: whatever level \<open>LOG_LEVEL\<close> names, if it is accepted the
  program logs at debug level.\<close>

theorem log_level_ignored:
  assumes "getLogger parseLevel env = (lvl, None)"
  shows "lvl = defaultLogLevel"
  using assms by (auto simp: getLogger_def split: option.splits if_splits prod.splits)

theorem log_level_ignored_witness:
  "fst (getLogger (\<lambda>l. (2, None)) (Some ''error'')) = defaultLogLevel"
proof -
  have "getLogger (\<lambda>l. (2, None)) (Some ''error'') = (fst (getLogger (\<lambda>l. (2, None)) (Some ''error'')), None)"
    by (simp add: getLogger_def)
  from log_level_ignored [OF this] show ?thesis .
qed

end
