(* ===== verification/FileClose.thy ===== *)
theory FileClose
  imports FileRace
begin

text \<open>
  \<open>Close\<close> of the file storage (\<open>internal/storage/file/file.go\<close>) with the persistence loop: the
  channel \<open>done\<close>, which has room for one value, the channel \<open>finish\<close>, which the loop closes when it
  has ended, and the context, whose end stops the loop as well.
\<close>

section \<open>The channels\<close>

text \<open>A caller has not called \<open>Close\<close> or waits to send on \<open>done\<close>, waits for \<open>finish\<close>, or has returned.\<close>

datatype cpc = COpen | CWaiting | CClosed

record closing =
  loop :: fsystem
  tokens :: nat
  ctx_done :: bool
  finish_closed :: bool
  closers :: "nat \<Rightarrow> cpc"

definition doneCap :: nat where
  "doneCap = 1"

datatype cevent = Inner pevent | ContextEnds | StopByDone | StopByContext | CloseSend nat | CloseFinish | CloseReturn nat

inductive cstep :: "libs \<Rightarrow> closing \<Rightarrow> cevent \<Rightarrow> closing \<Rightarrow> bool" for L where
  inner: "pstep L (loop s) e t \<Longrightarrow> e \<noteq> PStop \<Longrightarrow> cstep L s (Inner e) (s\<lparr>loop := t\<rparr>)"
| ctx_end: "cstep L s ContextEnds (s\<lparr>ctx_done := True\<rparr>)"
| stop_done: "0 < tokens s \<Longrightarrow> pstep L (loop s) PStop t \<Longrightarrow>
    cstep L s StopByDone (s\<lparr>loop := t, tokens := tokens s - 1\<rparr>)"
| stop_ctx: "ctx_done s \<Longrightarrow> pstep L (loop s) PStop t \<Longrightarrow> cstep L s StopByContext (s\<lparr>loop := t\<rparr>)"
| close_send: "closers s i = COpen \<Longrightarrow> tokens s < doneCap \<Longrightarrow>
    cstep L s (CloseSend i) (s\<lparr>tokens := tokens s + 1, closers := (closers s)(i := CWaiting)\<rparr>)"
| close_finish: "ppc (loop s) = Ended \<Longrightarrow> \<not> finish_closed s \<Longrightarrow>
    cstep L s CloseFinish (s\<lparr>finish_closed := True\<rparr>)"
| close_return: "closers s i = CWaiting \<Longrightarrow> finish_closed s \<Longrightarrow>
    cstep L s (CloseReturn i) (s\<lparr>closers := (closers s)(i := CClosed)\<rparr>)"

text \<open>Runs of steps that all satisfy \<open>P\<close>; \<open>csteps\<close> are the runs of all steps.\<close>

inductive cruns :: "libs \<Rightarrow> (cevent \<Rightarrow> bool) \<Rightarrow> closing \<Rightarrow> closing \<Rightarrow> bool" for L P where
  refl: "cruns L P s s"
| next_step: "cruns L P s t \<Longrightarrow> cstep L t e u \<Longrightarrow> P e \<Longrightarrow> cruns L P s u"

abbreviation csteps :: "libs \<Rightarrow> closing \<Rightarrow> closing \<Rightarrow> bool" where
  "csteps L \<equiv> cruns L (\<lambda>_. True)"

text \<open>
  The steps that one call of \<open>Close\<close> needs after it has sent its value: those of a round of the
  loop, the receive of the value, the close of \<open>finish\<close> and its own return. The end of the context,
  a tick and the steps of other callers are not among them.
\<close>

fun serves :: "nat \<Rightarrow> cevent \<Rightarrow> bool" where
  "serves i (Inner PLoad) = True"
| "serves i (Inner (PWrite d)) = True"
| "serves i (Inner PReset) = True"
| "serves i StopByDone = True"
| "serves i CloseFinish = True"
| "serves i (CloseReturn j) = (j = i)"
| "serves i _ = False"

definition cinit :: "File \<Rightarrow> closing" where
  "cinit f = \<lparr>loop = pinit f, tokens = 0, ctx_done = False, finish_closed = False, closers = (\<lambda>_. COpen)\<rparr>"

lemma cruns_trans: "cruns L P s t \<Longrightarrow> cruns L P t u \<Longrightarrow> cruns L P s u"
  by (rotate_tac, induction rule: cruns.induct) (auto intro: cruns.intros)

lemma cruns_weaken: "cruns L P s t \<Longrightarrow> (\<And>e. P e \<Longrightarrow> Q e) \<Longrightarrow> cruns L Q s t"
  by (induction rule: cruns.induct) (auto intro: cruns.intros)

lemma cruns_one: "cstep L s e t \<Longrightarrow> P e \<Longrightarrow> cruns L P s t"
  by (rule cruns.next_step [OF cruns.refl])

section \<open>The invariant\<close>

definition final_round :: "ppc \<Rightarrow> bool" where
  "final_round p \<longleftrightarrow> p = PCheck True \<or> p = PDump True \<or> p = PClear True \<or> p = Ended"

text \<open>
  \<open>finish\<close> is closed only after the loop, a \<open>Close\<close> returns only after that, and one that waits has
  its value in the channel or the loop on its last round.
\<close>

definition close_inv :: "closing \<Rightarrow> bool" where
  "close_inv s \<longleftrightarrow> (finish_closed s \<longrightarrow> ppc (loop s) = Ended) \<and> (\<forall>i. closers s i = CClosed \<longrightarrow> finish_closed s) \<and>
     (\<forall>i. closers s i = CWaiting \<longrightarrow> 0 < tokens s \<or> final_round (ppc (loop s))) \<and>
     (final_round (ppc (loop s)) \<longrightarrow> fshutdown (fstate (loop s)))"

lemma pstep_final: "pstep L s e t \<Longrightarrow> final_round (ppc s) \<Longrightarrow> final_round (ppc t)"
  by (erule pstep.cases) (auto simp: final_round_def after_round_def)

lemma pstep_ended: "pstep L s e t \<Longrightarrow> ppc s = Ended \<Longrightarrow> ppc t = Ended \<and> fcontent (fstate t) = fcontent (fstate s)"
  by (erule pstep.cases) auto

lemma pstep_shut: "pstep L s e t \<Longrightarrow> fshutdown (fstate s) \<Longrightarrow> fshutdown (fstate t)"
  by (erule pstep.cases) auto

lemma pstep_stop: "pstep L s PStop t \<Longrightarrow> final_round (ppc t) \<and> ppc s = PSelect \<and> fshutdown (fstate t)"
  by (erule pstep.cases) (auto simp: final_round_def)

lemma pstep_not_final: "pstep L s e t \<Longrightarrow> e \<noteq> PStop \<Longrightarrow> final_round (ppc t) \<Longrightarrow> final_round (ppc s)"
  by (erule pstep.cases) (auto simp: final_round_def after_round_def split: if_splits)

lemma close_inv_step: "cstep L s e t \<Longrightarrow> close_inv s \<Longrightarrow> close_inv t"
proof (erule cstep.cases)
  fix u p q
  assume st: "s = u" "t = u\<lparr>loop := q\<rparr>" "pstep L (loop u) p q" "p \<noteq> PStop" "close_inv s"
  have "final_round (ppc q) \<longleftrightarrow> final_round (ppc (loop u))"
    using pstep_final [OF st(3)] pstep_not_final [OF st(3,4)] by blast
  moreover have "ppc (loop u) = Ended \<longrightarrow> ppc q = Ended" using pstep_ended [OF st(3)] by blast
  ultimately show "close_inv t" using st(1,2,5) pstep_shut [OF st(3)] unfolding close_inv_def by simp
next
  fix u q
  assume "s = u" "t = u\<lparr>loop := q, tokens := tokens u - 1\<rparr>" "pstep L (loop u) PStop q" "close_inv s"
  then show "close_inv t" using pstep_stop [of L "loop u" q] by (auto simp: close_inv_def)
next
  fix u q
  assume "s = u" "t = u\<lparr>loop := q\<rparr>" "pstep L (loop u) PStop q" "close_inv s"
  then show "close_inv t" using pstep_stop [of L "loop u" q] by (auto simp: close_inv_def)
qed (auto simp: close_inv_def)

lemma close_inv_init: "close_inv (cinit f)"
  by (simp add: close_inv_def cinit_def pinit_def final_round_def)

lemma close_inv_steps: "csteps L s t \<Longrightarrow> close_inv s \<Longrightarrow> close_inv t"
  by (induction rule: cruns.induct) (auto dest: close_inv_step)

section \<open>The last round\<close>

text \<open>Steps of the loop other than a stop are steps of the storage.\<close>

lemma cruns_inner:
  "cruns L P s t \<Longrightarrow> pstep L (loop t) e u \<Longrightarrow> e \<noteq> PStop \<Longrightarrow> P (Inner e) \<Longrightarrow> cruns L P s (t\<lparr>loop := u\<rparr>)"
  by (rule cruns.next_step [OF _ cstep.inner])

lemma round_runs:
  assumes "ppc (loop s) \<in> {PCheck b, PDump b, PClear b}"
  shows "\<exists>p. cruns L (serves i) s (s\<lparr>loop := p\<rparr>) \<and> ppc p = after_round b"
proof -
  have clear: "\<exists>p. cruns L (serves i) s (t\<lparr>loop := p\<rparr>) \<and> ppc p = after_round b"
    if "cruns L (serves i) s t" "ppc (loop t) = PClear b" for t
    using cruns_inner [OF that(1) pstep.preset [OF that(2)]] by force
  have dump: "\<exists>p. cruns L (serves i) s (t\<lparr>loop := p\<rparr>) \<and> ppc p = after_round b"
    if "cruns L (serves i) s t" "ppc (loop t) = PDump b" for t
  proof -
    obtain e c where "dumpDB2File L sample_disk (Memory_Dump (mem (fstate (loop t)))) (fcontent (fstate (loop t))) = (e, c)"
      by (metis surj_pair)
    then show ?thesis
      using cruns_inner [OF that(1) pstep.pwrite_err [OF that(2)]] clear [OF cruns_inner [OF that(1) pstep.pwrite [OF that(2)]]]
      by (cases e) force+
  qed
  have check: "\<exists>p. cruns L (serves i) s (t\<lparr>loop := p\<rparr>) \<and> ppc p = after_round b"
    if "cruns L (serves i) s t" "ppc (loop t) = PCheck b" for t
  proof (cases "changed (fstate (loop t))")
    case False
    then show ?thesis using cruns_inner [OF that(1) pstep.pload_clean [OF that(2)]] by force
  next
    case True
    then show ?thesis using dump [OF cruns_inner [OF that(1) pstep.pload [OF that(2)]]] by force
  qed
  have "s\<lparr>loop := p\<rparr> = s\<lparr>loop := p\<rparr>" for p ..
  then show ?thesis using assms clear [OF cruns.refl] dump [OF cruns.refl] check [OF cruns.refl] by auto
qed

text \<open>When the end of the context has stopped the loop, the value of a later \<open>Close\<close> stays in the channel.\<close>

lemma closed_after_context:
  obtains s where "csteps L (cinit f) s" "closers s 0 = CClosed" "closers s 1 = COpen"
    "ppc (loop s) = Ended" "tokens s = doneCap"
proof -
  let ?s0 = "(cinit f)\<lparr>ctx_done := True\<rparr>"
  have 0: "csteps L (cinit f) ?s0" by (rule cruns_one [OF cstep.ctx_end TrueI])
  have "cstep L ?s0 StopByContext (?s0\<lparr>loop := (loop ?s0)\<lparr>fstate := (fstate (loop ?s0))\<lparr>fshutdown := True\<rparr>, ppc := PCheck True\<rparr>\<rparr>)"
    by (rule cstep.stop_ctx [OF _ pstep.pstop]) (simp_all add: cinit_def pinit_def)
  note 1 = cruns.next_step [OF 0 this TrueI]
  let ?s1 = "?s0\<lparr>loop := (loop ?s0)\<lparr>fstate := (fstate (loop ?s0))\<lparr>fshutdown := True\<rparr>, ppc := PCheck True\<rparr>\<rparr>"
  from round_runs [of ?s1 True L] cruns_weaken [where Q = "\<lambda>_. True"] obtain p where p: "csteps L ?s1 (?s1\<lparr>loop := p\<rparr>)" "ppc p = Ended"
    by (fastforce simp: after_round_def)
  let ?s2 = "?s1\<lparr>loop := p\<rparr>"
  note 2 = cruns_trans [OF 1 p(1)]
  have "cstep L ?s2 (CloseSend 0) (?s2\<lparr>tokens := tokens ?s2 + 1, closers := (closers ?s2)(0 := CWaiting)\<rparr>)"
    by (rule cstep.close_send) (simp_all add: cinit_def doneCap_def)
  note 3 = cruns.next_step [OF 2 this TrueI]
  let ?s3 = "?s2\<lparr>tokens := tokens ?s2 + 1, closers := (closers ?s2)(0 := CWaiting)\<rparr>"
  have "cstep L ?s3 CloseFinish (?s3\<lparr>finish_closed := True\<rparr>)"
    by (rule cstep.close_finish) (simp_all add: p(2) cinit_def)
  note 4 = cruns.next_step [OF 3 this TrueI]
  let ?s4 = "?s3\<lparr>finish_closed := True\<rparr>"
  have "cstep L ?s4 (CloseReturn 0) (?s4\<lparr>closers := (closers ?s4)(0 := CClosed)\<rparr>)"
    by (rule cstep.close_return) simp_all
  note 5 = cruns.next_step [OF 4 this TrueI]
  let ?s5 = "?s4\<lparr>closers := (closers ?s4)(0 := CClosed)\<rparr>"
  show ?thesis by (rule that [OF 5]) (simp_all add: p(2) cinit_def doneCap_def)
qed

text \<open>Three ways towards the end of a \<open>Close\<close> that waits: the loop has ended, it makes its last round, or it
  waits in its select and a value is in the channel.\<close>

lemma returns_ended:
  assumes "cruns L (serves i) s u" and "ppc (loop u) = Ended" and "closers u = closers s" and "closers s i = CWaiting"
  shows "\<exists>t. cruns L (serves i) s t \<and> closers t = (closers s)(i := CClosed) \<and> ppc (loop t) = Ended"
proof -
  obtain v where v: "cruns L (serves i) s v" "finish_closed v" "ppc (loop v) = Ended" "closers v = closers s"
  proof (cases "finish_closed u")
    case True
    show ?thesis by (rule that [OF assms(1) True assms(2,3)])
  next
    case False
    show ?thesis
      by (rule that [OF cruns.next_step [OF assms(1) cstep.close_finish [OF assms(2) False]]]) (simp_all add: assms)
  qed
  have "closers v i = CWaiting" using v(4) assms(4) by simp
  from cruns.next_step [OF v(1) cstep.close_return [OF this v(2)]] v(3,4) show ?thesis by fastforce
qed

lemma returns_final:
  assumes "cruns L (serves i) s u" and "final_round (ppc (loop u))" and "closers u = closers s" and "closers s i = CWaiting"
  shows "\<exists>t. cruns L (serves i) s t \<and> closers t = (closers s)(i := CClosed) \<and> ppc (loop t) = Ended"
proof (cases "ppc (loop u) = Ended")
  case True
  from returns_ended [OF assms(1) True assms(3,4)] show ?thesis .
next
  case False
  then have "ppc (loop u) \<in> {PCheck True, PDump True, PClear True}" using assms(2) by (auto simp: final_round_def)
  from round_runs [OF this, of L] obtain p where "cruns L (serves i) u (u\<lparr>loop := p\<rparr>)" "ppc p = Ended"
    by (auto simp: after_round_def)
  with returns_ended [OF cruns_trans [OF assms(1)], of "u\<lparr>loop := p\<rparr>"] assms(3,4) show ?thesis by simp
qed

lemma returns_select:
  assumes "cruns L (serves i) s u" and "ppc (loop u) = PSelect" and "closers u = closers s" and "0 < tokens u"
    and "closers s i = CWaiting"
  shows "\<exists>t. cruns L (serves i) s t \<and> closers t = (closers s)(i := CClosed) \<and> ppc (loop t) = Ended"
  using returns_final [OF cruns.next_step [OF assms(1) cstep.stop_done [OF assms(4) pstep.pstop [OF assms(2)]]]] assms(3,5)
  by (simp add: final_round_def)

section \<open>Properties\<close>

text \<open>\<open>Close\<close> ends the writing: in every state after a \<open>Close\<close> has returned, the persistence loop is over, the
  storage refuses new urls, and no further step changes the file.\<close>

theorem close_is_final:
  assumes "csteps L (cinit f) s" and "closers s i = CClosed" and "csteps L s t"
  shows "ppc (loop t) = Ended \<and> fshutdown (fstate (loop t)) \<and> fcontent (fstate (loop t)) = fcontent (fstate (loop s))"
proof -
  have inv: "close_inv s" by (rule close_inv_steps [OF assms(1) close_inv_init])
  then have e: "ppc (loop s) = Ended" using assms(2) by (auto simp: close_inv_def)
  from assms(3) e have "ppc (loop t) = Ended \<and> fcontent (fstate (loop t)) = fcontent (fstate (loop s))"
  proof (induction rule: cruns.induct)
    case (next_step s t e u)
    then show ?case by (auto elim!: cstep.cases dest: pstep_ended)
  qed simp
  moreover have "close_inv t" by (rule close_inv_steps [OF assms(3) inv])
  ultimately show ?thesis by (simp add: close_inv_def final_round_def)
qed

theorem close_is_final_witness:
  "\<exists>s t. csteps sample_libs (cinit (sample_file False)) s \<and> closers s 0 = CClosed \<and> csteps sample_libs s t \<and>
    closers t 1 = COpen \<and> ppc (loop t) = Ended \<and> fshutdown (fstate (loop t)) \<and>
    fcontent (fstate (loop t)) = fcontent (fstate (loop s))"
proof -
  obtain s where s: "csteps sample_libs (cinit (sample_file False)) s" "closers s 0 = CClosed" "closers s 1 = COpen"
    by (rule closed_after_context)
  have t: "csteps sample_libs s (s\<lparr>ctx_done := True\<rparr>)" by (rule cruns_one [OF cstep.ctx_end TrueI])
  from close_is_final [OF s(1,2) t] s t show ?thesis
    by (intro exI [of _ s] exI [of _ "s\<lparr>ctx_done := True\<rparr>"]) simp
qed

text \<open>C16. \<open>Close\<close> returns: from every reachable state in which a \<open>Close\<close> has sent its value, there is a run in
  which the loop finishes its round, takes that value from its channel (unless it is already on
  its last round), makes the last round and closes \<open>finish\<close>, and the call returns. The run has no end
  of the context, no stop by the context, no tick, and no step of any other caller.\<close>

theorem close_returns:
  assumes "csteps L (cinit f) s" and "closers s i = CWaiting"
  shows "\<exists>t. cruns L (serves i) s t \<and> closers t = (closers s)(i := CClosed) \<and> ppc (loop t) = Ended"
proof (cases "final_round (ppc (loop s))")
  case True
  from returns_final [OF cruns.refl True _ assms(2)] show ?thesis by simp
next
  case False
  have "close_inv s" by (rule close_inv_steps [OF assms(1) close_inv_init])
  then have tok: "0 < tokens s" using False assms(2) by (auto simp: close_inv_def)
  show ?thesis
  proof (cases "ppc (loop s) = PSelect")
    case True
    from returns_select [OF cruns.refl True _ tok assms(2)] show ?thesis by simp
  next
    case Fa: False
    then have "ppc (loop s) \<in> {PCheck False, PDump False, PClear False}"
      using False by (cases "ppc (loop s)") (auto simp: final_round_def)
    from round_runs [OF this, of L] obtain p where "cruns L (serves i) s (s\<lparr>loop := p\<rparr>)" "ppc p = PSelect"
      by (auto simp: after_round_def)
    with returns_select [of L i s "s\<lparr>loop := p\<rparr>"] tok assms(2) show ?thesis by simp
  qed
qed

theorem close_returns_witness:
  "\<exists>s t. csteps sample_libs (cinit (sample_file True)) s \<and> closers s 0 = CWaiting \<and> cruns sample_libs (serves 0) s t \<and>
    closers t 0 = CClosed \<and> ppc (loop t) = Ended"
proof -
  let ?s = "(cinit (sample_file True))\<lparr>tokens := 1, closers := (\<lambda>_. COpen)(0 := CWaiting)\<rparr>"
  have "cstep sample_libs (cinit (sample_file True)) (CloseSend 0) ?s"
    using cstep.close_send [where L = sample_libs and s = "cinit (sample_file True)" and i = 0]
    by (simp add: cinit_def doneCap_def)
  then have s: "csteps sample_libs (cinit (sample_file True)) ?s" by (rule cruns_one) simp
  obtain t where "cruns sample_libs (serves 0) ?s t" "closers t = (closers ?s)(0 := CClosed)" "ppc (loop t) = Ended"
    using close_returns [OF s, of 0] by auto
  moreover from this(2) have "closers t 0 = CClosed" by simp
  moreover have "closers ?s 0 = CWaiting" by simp
  ultimately show ?thesis using s by blast
qed

text \<open>A second \<open>Close\<close> can block for ever: when the end of the context has stopped the loop, the value of the
  first \<open>Close\<close> stays in the channel, and no later call can send its own.\<close>

theorem second_close_blocks:
  "\<exists>s. csteps L (cinit f) s \<and> closers s 0 = CClosed \<and> (\<forall>t. csteps L s t \<longrightarrow> closers t 1 = COpen)"
proof -
  obtain s where s: "csteps L (cinit f) s" "closers s 0 = CClosed" "closers s 1 = COpen"
      "ppc (loop s) = Ended" "tokens s = doneCap"
    by (rule closed_after_context)
  have "closers t 1 = COpen" if "csteps L s t" for t
  proof -
    have "ppc (loop t) = Ended \<and> tokens t = doneCap \<and> closers t 1 = COpen" using that s(3-)
    proof (induction rule: cruns.induct)
      case (next_step s t e u)
      then show ?case by (auto elim!: cstep.cases elim: pstep.cases dest: pstep_ended)
    qed simp
    then show ?thesis by blast
  qed
  with s(1,2) show ?thesis by blast
qed

end
