(* ===== verification/Restart.thy ===== *)
theory Restart
  imports AppRun
begin

text \<open>
  The program on the file storage across a restart: requests of both servers and rounds of the
  persistence loop of \<open>internal/storage/file/file.go\<close>, the shutdown of the storage, and the
  start of a new process on the same file.
\<close>

section \<open>The file storage keeps its file\<close>

text \<open>
  The contract of the storages once more, with the stronger invariant that the file holds the
  map unless \<open>changed\<close> is set.
\<close>

interpretation saved: url_storage file_storage file_view "file_inv L" for L
proof (unfold_locales, goal_cases)
  case (1 s k r s')
  then show ?case using fil.get_law [of s k r s'] by (auto simp: file_ok_def file_inv_def file_storage_def)
next
  case (2 s u p s')
  then show ?case using fil.store_law [of s u p s'] File_Store_inv [of L s u False "(p, None)" s']
    by (simp add: file_ok_def file_inv_def file_storage_def)
next
  case (3 s u p e s')
  then show ?case using fil.store_err_law [of s u p e s'] File_Store_inv [of L s u False "(p, Some e)" s']
    by (simp add: file_ok_def file_inv_def file_storage_def)
next
  case (4 s u p e s')
  then show ?case using fil.conflict_law [of s u p e s'] by (simp add: file_ok_def file_inv_def)
next
  case (5 s us s')
  then show ?case using fil.batch_law [of s us s'] File_StoreBatch_inv [of L s us None s']
    by (simp add: file_ok_def file_inv_def file_storage_def)
next
  case (6 s us e s')
  then show ?case using fil.batch_err_law [of s us e s'] File_StoreBatch_inv [of L s us "Some e" s']
    by (simp add: file_ok_def file_inv_def file_storage_def)
next
  case (7 s uid us s' u)
  then show ?case using fil.list_law [of s uid us s' u] by (simp add: file_ok_def file_inv_def)
next
  case (8 s uid lr s')
  then show ?case by (auto simp: file_storage_def)
next
  case (9 s us r s')
  then show ?case using fil.delete_law [of s us r s'] File_Delete_inv [of L s us r s']
    by (simp add: file_ok_def file_inv_def file_storage_def)
qed (auto simp: file_storage_def)

section \<open>Requests and rounds of the persistence loop\<close>

datatype step = Serve event | Tick disk

fun file_run :: "libs \<Rightarrow> File Server \<Rightarrow> step list \<Rightarrow> File world \<Rightarrow> File world option" where
  "file_run L srv [] w = Some w"
| "file_run L srv (Serve e # es) w = (case app_event srv e w of None \<Rightarrow> None | Some w' \<Rightarrow> file_run L srv es w')"
| "file_run L srv (Tick d # es) w = file_run L srv es (w\<lparr>sto := persist_tick L d (sto w)\<rparr>)"

lemma persist_mem: "mem (persist L d s) = mem s"
  by (simp add: persist_def split: prod.split option.split)

text \<open>At every round the disk is healthy and the records can be stored and read back.\<close>

fun saves_ok :: "libs \<Rightarrow> File Server \<Rightarrow> step list \<Rightarrow> File world \<Rightarrow> bool" where
  "saves_ok L srv [] w = True"
| "saves_ok L srv (Serve e # es) w = (case app_event srv e w of None \<Rightarrow> True | Some w' \<Rightarrow> saves_ok L srv es w')"
| "saves_ok L srv (Tick d # es) w = (healthy d \<and> storable L (DB (mem (sto w))) \<and>
     saves_ok L srv es (w\<lparr>sto := persist_tick L d (sto w)\<rparr>))"

fun step_spares :: "File Server \<Rightarrow> string \<Rightarrow> step \<Rightarrow> bool" where
  "step_spares srv uid (Serve e) = spares srv uid e"
| "step_spares srv uid (Tick d) = True"

lemma file_run_keeps:
  assumes "storage srv = file_storage" and "chi_ok (libs srv)" and "\<not> e_deleted en"
    and "file_run L srv es w = Some w'" and "saves_ok L srv es w" and "list_all (step_spares srv (e_user en)) es"
    and "file_inv L (sto w)" and "file_view (sto w) k = Some en" and "\<not> requested (buf (queue w)) k (e_user en)"
  shows "file_inv L (sto w') \<and> file_view (sto w') k = Some en"
  using assms(4-9)
proof (induction es arbitrary: w)
  case (Cons x es)
  show ?case
  proof (cases x)
    case (Serve e)
    with Cons.prems(1) obtain v where v: "app_event srv e w = Some v" "file_run L srv es v = Some w'"
      by (auto split: option.splits)
    have "app_run srv [e] w = Some v" by (simp add: v)
    moreover have "list_all (spares srv (e_user en)) [e]" using Cons.prems(3) Serve by simp
    ultimately have "file_inv L (sto v) \<and> file_view (sto v) k = Some en \<and> \<not> requested (buf (queue v)) k (e_user en)"
      using saved.app_run_keeps [OF Cons.prems(4) assms(1,2) Cons.prems(5) assms(3) Cons.prems(6)] by blast
    with Cons.IH [OF v(2)] Cons.prems(2,3) Serve v show ?thesis by simp
  next
    case (Tick d)
    let ?s = "persist_tick L d (sto w)"
    from Tick Cons.prems(2) have "synced L ?s" "mem ?s = mem (sto w)"
      using persist_healthy [OF Cons.prems(4), of d] by (simp_all add: persist_tick_def)
    then have "file_inv L ?s" "file_view ?s = file_view (sto w)"
      using Cons.prems(4) by (simp_all add: file_inv_def file_view_def)
    with Tick Cons.IH [of "w\<lparr>sto := ?s\<rparr>"] Cons.prems show ?thesis by simp
  qed
qed simp

section \<open>Properties\<close>


text \<open>Another user asks for the deletion of the new link and the queue is flushed; then the file is saved.\<close>

definition sample_steps :: "step list" where
  "sample_steps = [Serve (Request (sample_hreq ''DELETE'' ''/api/user/urls'' ''01'' True)), Serve Flush_queue, Tick sample_disk]"


end
