(* ===== verification/BatchRun.thy ===== *)
theory BatchRun
  imports AppRun
begin

text \<open>
  The links of a batch over both servers, on a storage that keeps the paths of a batch apart: from
  \<open>ShortenBatch\<close> of the services (\<open>internal/services/shortener/batch.go\<close>) through the handlers to
  the requests that follow them later.
\<close>

section \<open>A batch in the storage\<close>

text \<open>A link that was answered and the url behind it, as the storage has them.\<close>

definition linked_entry :: "(string \<rightharpoonup> entry) \<Rightarrow> Service \<Rightarrow> user \<Rightarrow> string \<Rightarrow> string \<Rightarrow> string \<Rightarrow> bool" where
  "linked_entry m svc u url served p \<longleftrightarrow> served = getServedURL svc p \<and> random_path (pathLength svc) p \<and>
     m p = Some (new_entry u url)"

context batch_storage
begin

lemma ShortenBatch_linked:
  assumes "ShortenBatch st svc usr batch s r = ((res, None), s', r')" and "ok s"
  shows "ok s' \<and> map SID res = map BID batch \<and>
    (\<forall>i < length batch. \<exists>p. linked_entry (view s') svc usr (BURL (batch ! i)) (SShort (res ! i)) p)"
  using ShortenBatch_links [OF assms] unfolding linked_entry_def by blast

end

section \<open>Over http\<close>

text \<open>What the handler of \<open>POST /api/shorten/batch\<close> can do.\<close>

lemma http_ShortenBatch_cases:
  assumes "http_ShortenBatch srv r w = Some (out, w')" and "GetUserAndReqID (r_ctx r) = Inr (u, i)"
  obtains (unread) "out = finished []"
  | (error) c where "out = finished [WriteHeader c]" "c = 400 \<or> c = 500"
  | (created) bdy batch res b where "readBody (libs srv) r = Inr bdy" "unmarshalBatchURLs (libs srv) bdy = Inr batch"
      "ShortenBatch (storage srv) (shortenerSvc srv) u batch (sto w) (rnd w) = ((res, None), sto w', rnd w')"
      "marshalBatchShortened (libs srv) res = Inr b" "out = json_reply 201 b" "queue w' = queue w"
  using assms
  by (auto simp: http_ShortenBatch_def split: if_splits sum.splits prod.splits option.splits)

text \<open>What the handler of \<open>POST /api/shorten\<close> can do.\<close>

lemma http_Shorten_cases:
  assumes "http_Shorten srv r w = Some (out, w')" and "GetUserAndReqID (r_ctx r) = Inr (u, i)"
  obtains (unread) "out = finished []"
  | (error) c where "out = finished [WriteHeader c]" "c = 400 \<or> c = 500"
  | (replied) bdy req served oe c b where "readBody (libs srv) r = Inr bdy" "unmarshalShortenRequest (libs srv) bdy = Inr req"
      "Shorten (parseURL (libs srv)) (storage srv) (shortenerSvc srv) u (RequestURL req) (sto w) (rnd w) =
         ((served, oe), sto w', rnd w')"
      "shorten_status oe = (c, True)" "marshalShortenResponse (libs srv) \<lparr>Result = served\<rparr> = Inr b"
      "out = json_reply c b" "queue w' = queue w"
proof (cases "r_head r ''Content-Type'' = ''application/json''")
  case False
  then show thesis using assms error by (auto simp: http_Shorten_def)
next
  case True
  show thesis
  proof (cases "readBody (libs srv) r")
    case (Inl e)
    then show thesis using assms True unread by (auto simp: http_Shorten_def)
  next
    case (Inr bdy)
    show thesis
    proof (cases "unmarshalShortenRequest (libs srv) bdy")
      case (Inl e)
      then show thesis using assms True Inr error by (auto simp: http_Shorten_def)
    next
      case req: (Inr req)
      obtain served oe s' r' where sh: "Shorten (parseURL (libs srv)) (storage srv) (shortenerSvc srv) u (RequestURL req)
          (sto w) (rnd w) = ((served, oe), s', r')" by (metis surj_pair)
      obtain c go where st: "shorten_status oe = (c, go)" by (cases "shorten_status oe")
      have c: "\<not> go \<Longrightarrow> c = 400 \<or> c = 500" using st by (auto simp: shorten_status_def split: option.splits if_splits)
      show thesis
      proof (cases "go \<and> \<not> isl (marshalShortenResponse (libs srv) \<lparr>Result = served\<rparr>)")
        case False
        then show thesis using assms True Inr req sh st c error
          by (cases go) (auto simp: http_Shorten_def Let_def split: sum.splits)
      next
        case go: True
        then obtain b where "marshalShortenResponse (libs srv) \<lparr>Result = served\<rparr> = Inr b"
          by (cases "marshalShortenResponse (libs srv) \<lparr>Result = served\<rparr>") auto
        with go assms True Inr req sh st show thesis
          using replied [OF Inr req] by (auto simp: http_Shorten_def Let_def)
      qed
    qed
  qed
qed

text \<open>
  An answer 201 on a route behind authentication: the user is known, the handler has run, and what
  it wrote is not one of the outcomes that have another status.
\<close>

lemma auth_route_201:
  assumes "chiFind (libs srv) patterns (r_method r) (r_path r) = Route i"
    and "snd (routes srv ! i) = auth_mw srv h"
    and "http_serve srv r w = Some (resp, w1)" and "sent resp = Some (201, hds)"
  obtains u tok g rid g' out where "createOrParseUserFromRequest srv r (uuids w) = (Inr (u, tok), g)"
    "h (r\<lparr>r_ctx := SetUserContext (SetRequestID (r_ctx r) rid) u\<rparr>) (w\<lparr>reqids := g', uuids := g\<rparr>) = Some (out, w1)"
    "resp = run_stack (compressor (libs srv)) (r_head r ''Accept-Encoding'') (out\<lparr>acts := setCookie srv tok @ acts out\<rparr>)"
    "out \<noteq> finished []" "\<And>c. valid_code c \<Longrightarrow> sent_code c \<noteq> 201 \<Longrightarrow> out \<noteq> finished [WriteHeader c]"
proof -
  let ?C = "compressor (libs srv)" and ?e = "r_head r ''Accept-Encoding''"
  have i: "has_id srv r w" using http_serve_no_id assms(3,4) by fastforce
  obtain uu g where c: "createOrParseUserFromRequest srv r (uuids w) = (uu, g)"
    by (cases "createOrParseUserFromRequest srv r (uuids w)")
  have "\<not> isl uu" using http_serve_no_user [OF i assms(1,2) _ assms(3)] c assms(4) by (cases uu) auto
  then obtain u tok where u: "createOrParseUserFromRequest srv r (uuids w) = (Inr (u, tok), g)"
    using c by (cases uu) auto
  obtain rid g' where s: "http_serve srv r w =
    (case h (r\<lparr>r_ctx := SetUserContext (SetRequestID (r_ctx r) rid) u\<rparr>) (w\<lparr>reqids := g', uuids := g\<rparr>) of
       None \<Rightarrow> None
     | Some (out, w2) \<Rightarrow> Some (run_stack ?C ?e (out\<lparr>acts := setCookie srv tok @ acts out\<rparr>), w2))"
    by (rule http_serve_auth [OF i assms(1,2) u])
  from s assms(3) obtain out where
    o: "h (r\<lparr>r_ctx := SetUserContext (SetRequestID (r_ctx r) rid) u\<rparr>) (w\<lparr>reqids := g', uuids := g\<rparr>) = Some (out, w1)"
      "resp = run_stack ?C ?e (out\<lparr>acts := setCookie srv tok @ acts out\<rparr>)"
    by (auto split: option.splits)
  have "out \<noteq> finished []" using o(2) empty_reply_status [of ?C ?e srv tok] assms(4) by auto
  moreover have "out \<noteq> finished [WriteHeader c]" if "valid_code c" "sent_code c \<noteq> 201" for c
    using o(2) reply_status [OF that(1), of ?C ?e "cookies srv tok" "[]"] that(2) assms(4)
    by (auto simp: setCookie_reply(1))
  ultimately show thesis using that [OF u o] by blast
qed

lemma json_reply_received:
  assumes "comp_ok (compressor (libs srv))" and "bodied c"
    and "resp = run_stack (compressor (libs srv)) e ((json_reply c b)\<lparr>acts := setCookie srv tok @ acts (json_reply c b)\<rparr>)"
  shows "received (compressor (libs srv)) resp = Some b"
proof -
  have "resp = run_stack (compressor (libs srv)) e
      (finished (reply (cookies srv tok @ [(''Content-Type'', ''application/json'')]) c [b]))"
    using assms(3) by (simp add: json_reply_def setCookie_reply(2))
  then show ?thesis
    using received_reply [OF assms(1,2), of "cookies srv tok @ [(''Content-Type'', ''application/json'')]" e "[b]"]
      cookies_encoding [of _ _ srv tok] by fastforce
qed

lemma http_batch_201:
  assumes "chi_ok (libs srv)" and "comp_ok (compressor (libs srv))"
    and "r_method r = ''POST''" and "r_path r = ''/api/shorten/batch''"
    and "http_serve srv r w = Some (resp, w1)" and "sent resp = Some (201, h)"
  obtains u tok g bdy batch res b where "createOrParseUserFromRequest srv r (uuids w) = (Inr (u, tok), g)"
    "readBody (libs srv) r = Inr bdy" "unmarshalBatchURLs (libs srv) bdy = Inr batch"
    "ShortenBatch (storage srv) (shortenerSvc srv) u batch (sto w) (rnd w) = ((res, None), sto w1, rnd w1)"
    "marshalBatchShortened (libs srv) res = Inr b"
    "received (compressor (libs srv)) resp = Some b" "queue w1 = queue w"
proof -
  have f: "chiFind (libs srv) patterns (r_method r) (r_path r) = Route 3"
    using chi_fixed(4) [OF assms(1)] assms(3,4) by simp
  obtain u tok g rid g' out where u: "createOrParseUserFromRequest srv r (uuids w) = (Inr (u, tok), g)"
    "http_ShortenBatch srv (r\<lparr>r_ctx := SetUserContext (SetRequestID (r_ctx r) rid) u\<rparr>) (w\<lparr>reqids := g', uuids := g\<rparr>) = Some (out, w1)"
    "resp = run_stack (compressor (libs srv)) (r_head r ''Accept-Encoding'') (out\<lparr>acts := setCookie srv tok @ acts out\<rparr>)"
    "out \<noteq> finished []" "\<And>c. valid_code c \<Longrightarrow> sent_code c \<noteq> 201 \<Longrightarrow> out \<noteq> finished [WriteHeader c]"
    by (rule auth_route_201 [OF f nth_routes(5) assms(5,6)]) blast
  have "GetUserAndReqID (r_ctx (r\<lparr>r_ctx := SetUserContext (SetRequestID (r_ctx r) rid) u\<rparr>)) = Inr (u, rid)" by simp
  from u(2) this show thesis
  proof (cases rule: http_ShortenBatch_cases)
    case (error c)
    with u(5) [of c] show thesis by auto
  next
    case (created bdy batch res b)
    from json_reply_received [OF assms(2) bodied_simps(2) u(3) [unfolded created(5)]]
    show thesis using that [OF u(1) _ created(2) _ created(4)] created by (simp add: readBody_ctx)
  qed (use u(4) in simp)
qed

text \<open>The same for \<open>POST /api/shorten\<close>.\<close>

lemma http_json_201:
  assumes "chi_ok (libs srv)" and "comp_ok (compressor (libs srv))"
    and "r_method r = ''POST''" and "r_path r = ''/api/shorten''"
    and "http_serve srv r w = Some (resp, w1)" and "sent resp = Some (201, h)"
  obtains u tok g bdy req served b where "createOrParseUserFromRequest srv r (uuids w) = (Inr (u, tok), g)"
    "readBody (libs srv) r = Inr bdy" "unmarshalShortenRequest (libs srv) bdy = Inr req"
    "Shorten (parseURL (libs srv)) (storage srv) (shortenerSvc srv) u (RequestURL req) (sto w) (rnd w) =
       ((served, None), sto w1, rnd w1)"
    "marshalShortenResponse (libs srv) \<lparr>Result = served\<rparr> = Inr b"
    "received (compressor (libs srv)) resp = Some b" "queue w1 = queue w"
proof -
  have f: "chiFind (libs srv) patterns (r_method r) (r_path r) = Route 2"
    using chi_fixed(3) [OF assms(1)] assms(3,4) by simp
  obtain u tok g rid g' out where u: "createOrParseUserFromRequest srv r (uuids w) = (Inr (u, tok), g)"
    "http_Shorten srv (r\<lparr>r_ctx := SetUserContext (SetRequestID (r_ctx r) rid) u\<rparr>) (w\<lparr>reqids := g', uuids := g\<rparr>) = Some (out, w1)"
    "resp = run_stack (compressor (libs srv)) (r_head r ''Accept-Encoding'') (out\<lparr>acts := setCookie srv tok @ acts out\<rparr>)"
    "out \<noteq> finished []" "\<And>c. valid_code c \<Longrightarrow> sent_code c \<noteq> 201 \<Longrightarrow> out \<noteq> finished [WriteHeader c]"
    by (rule auth_route_201 [OF f nth_routes(4) assms(5,6)]) blast
  have i: "GetUserAndReqID (r_ctx (r\<lparr>r_ctx := SetUserContext (SetRequestID (r_ctx r) rid) u\<rparr>)) = Inr (u, rid)" by simp
  from u(2) i show thesis
  proof (cases rule: http_Shorten_cases)
    case (error c)
    with u(5) [of c] show thesis by auto
  next
    case (replied bdy req served oe c b)
    have "valid_code c" "sent_code c = c" using shorten_status_valid [OF replied(4)] by simp_all
    moreover from reply_status [OF this(1), of "compressor (libs srv)" "r_head r ''Accept-Encoding''"
        "cookies srv tok @ [(''Content-Type'', ''application/json'')]" "[b]"]
    have "c = 201" using u(3) assms(6) calculation(2) by (auto simp: replied(6) json_reply_def setCookie_reply(2))
    ultimately have oe: "oe = None" and rcv: "received (compressor (libs srv)) resp = Some b"
      using json_reply_received [OF assms(2) _ u(3) [unfolded replied(6)]] replied(4) shorten_status_201 [of oe True] by auto
    show thesis by (rule that [OF u(1) _ replied(2) _ replied(5) rcv]) (use replied oe in \<open>simp_all add: readBody_ctx\<close>)
  qed (use u(4) in simp)
qed

section \<open>Over grpc\<close>

lemma grpc_batch_ok:
  assumes "call_id srv c w" and "g_req c = ShortenBatchRequest b" and "g_md c = Some md"
    and "createOrParseUserFromMetadata srv (g_now c) md (uuids w) = (Inr (u, tok), g)"
    and "tok = [] \<or> g_send_err c = None"
    and "grpc_serve srv c w = Some (out, toks, w1)" and "client_sees out = (OK, Some (ShortenBatchResponse links))"
  obtains res where "ShortenBatch (storage srv) (shortenerSvc srv) u (map (\<lambda>(i, url). \<lparr>BID = i, BURL = url\<rparr>) b)
      (sto w) (rnd w) = ((res, None), sto w1, rnd w1)"
    "links = map (\<lambda>x. (SID x, SShort x)) res" "queue w1 = queue w"
proof -
  let ?b = "map (\<lambda>(i, url). \<lparr>BID = i, BURL = url\<rparr>) b"
  obtain i g' where s: "grpc_serve srv c w =
    (case grpc_handler srv (c\<lparr>g_ctx := SetUserContext (SetRequestID (g_ctx c) i) u\<rparr>) (w\<lparr>reqids := g', uuids := g\<rparr>) of
       None \<Rightarrow> None
     | Some (out, toks, w') \<Rightarrow> Some (if out = Panicked then Done None None else out,
         (if tok \<noteq> [] then [tok] else []) @ toks, w'))"
    by (rule grpc_serve_handler [OF assms(1) _ assms(3-5)]) (simp add: assms(2))
  obtain res oe s' r' where sh: "ShortenBatch (storage srv) (shortenerSvc srv) u ?b (sto w) (rnd w) = ((res, oe), s', r')"
    by (metis surj_pair)
  show thesis
    by (rule that [of res]; use assms(6,7) s sh in
      \<open>cases oe; auto simp: grpc_handler_def grpc_ShortenBatch_def assms(2) client_sees_def\<close>)
qed

section \<open>The links later\<close>

text \<open>The path \<open>p\<close> leads to \<open>url\<close> on both servers, for whoever follows it.\<close>

definition leads_to :: "'s Server \<Rightarrow> 's world \<Rightarrow> string \<Rightarrow> string \<Rightarrow> bool" where
  "leads_to srv w p url \<longleftrightarrow>
     (\<forall>r. r_method r = ''GET'' \<longrightarrow> r_path r = CHR ''/'' # p \<longrightarrow> has_id srv r w \<longrightarrow>
        (\<exists>resp w'. http_serve srv r w = Some (resp, w') \<and> sent resp = Some (307, [''Location'' \<mapsto> url]))) \<and>
     (\<forall>c md v tok g. g_req c = ResolveRequest (CHR ''/'' # p) \<longrightarrow> call_id srv c w \<longrightarrow> g_md c = Some md \<longrightarrow>
        createOrParseUserFromMetadata srv (g_now c) md (uuids w) = (Inr (v, tok), g) \<longrightarrow>
        (tok = [] \<or> g_send_err c = None) \<longrightarrow>
        (\<exists>out toks w'. grpc_serve srv c w = Some (out, toks, w') \<and> client_sees out = (OK, Some (ResolveResponse url))))"

context url_storage
begin

lemma linked_entry_leads:
  assumes "ok (sto w)" and "storage srv = st" and "chi_ok (libs srv)"
    and "pathLength (shortenerSvc srv) \<noteq> 0" and "pathLength (shortenerSvc srv) \<noteq> 4"
    and "linked_entry (view (sto w)) (shortenerSvc srv) u url served p"
    and "\<forall>k. \<not> requested (buf (queue w)) k (ID u)"
    and "app_run srv es w = Some w2" and "list_all (spares srv (ID u)) es"
  shows "served = getServedURL (shortenerSvc srv) p \<and> leads_to srv w2 p url"
proof -
  have p: "random_path (pathLength (shortenerSvc srv)) p" "view (sto w) p = Some (new_entry u url)"
      "served = getServedURL (shortenerSvc srv) p"
    using assms(6) by (simp_all add: linked_entry_def)
  have k: "ok (sto w2)" "view (sto w2) p = Some (new_entry u url)"
    using app_run_keeps [OF assms(1-3) p(2) _ _ assms(8)] assms(7,9) by simp_all
  show ?thesis unfolding leads_to_def
    using p(3) http_link_followed [OF k(1) assms(2,3) _ _ _ p(1) assms(4,5) k(2)]
      grpc_link_followed [OF k(1) assms(2) _ _ _ _ _ p(1) k(2)]
    by auto
qed

lemma http_json_link:
  assumes "ok (sto w)" and "storage srv = st" and "chi_ok (libs srv)" and "comp_ok (compressor (libs srv))"
    and "pathLength (shortenerSvc srv) \<noteq> 0" and "pathLength (shortenerSvc srv) \<noteq> 4"
    and "r_method r = ''POST''" and "r_path r = ''/api/shorten''"
    and "createOrParseUserFromRequest srv r (uuids w) = (Inr (u, tok), g)"
    and "http_serve srv r w = Some (resp, w1)" and "sent resp = Some (201, h)"
    and "\<forall>k. \<not> requested (buf (queue w)) k (ID u)"
    and "app_run srv es w1 = Some w2" and "list_all (spares srv (ID u)) es"
  shows "\<exists>bdy req pu p b. readBody (libs srv) r = Inr bdy \<and> unmarshalShortenRequest (libs srv) bdy = Inr req \<and>
    parseURL (libs srv) (RequestURL req) = Inr pu \<and>
    marshalShortenResponse (libs srv) \<lparr>Result = getServedURL (shortenerSvc srv) p\<rparr> = Inr b \<and>
    received (compressor (libs srv)) resp = Some b \<and> leads_to srv w2 p (url_String pu)"
proof -
  obtain bdy req served b where c: "readBody (libs srv) r = Inr bdy" "unmarshalShortenRequest (libs srv) bdy = Inr req"
    "Shorten (parseURL (libs srv)) (storage srv) (shortenerSvc srv) u (RequestURL req) (sto w) (rnd w) =
       ((served, None), sto w1, rnd w1)"
    "marshalShortenResponse (libs srv) \<lparr>Result = served\<rparr> = Inr b"
    "received (compressor (libs srv)) resp = Some b" "queue w1 = queue w"
    using http_json_201 [OF assms(3,4,7,8,10,11)] assms(9) by (metis Inr_inject Pair_inject)
  from Shorten_ok [OF c(3) [unfolded assms(2)] assms(1)] obtain pu p where p:
    "parseURL (libs srv) (RequestURL req) = Inr pu" "served = getServedURL (shortenerSvc srv) p" "ok (sto w1)"
    "linked_entry (view (sto w1)) (shortenerSvc srv) u (url_String pu) served p" by (auto simp: linked_entry_def)
  from linked_entry_leads [OF p(3) assms(2,3,5,6) p(4) _ assms(13,14)] assms(12) c(6)
  have "leads_to srv w2 p (url_String pu)" by simp
  with c p(1,2) show ?thesis by blast
qed

end

context batch_storage
begin

lemma http_batch_links:
  assumes "ok (sto w)" and "storage srv = st" and "chi_ok (libs srv)" and "comp_ok (compressor (libs srv))"
    and "pathLength (shortenerSvc srv) \<noteq> 0" and "pathLength (shortenerSvc srv) \<noteq> 4"
    and "r_method r = ''POST''" and "r_path r = ''/api/shorten/batch''"
    and "createOrParseUserFromRequest srv r (uuids w) = (Inr (u, tok), g)"
    and "http_serve srv r w = Some (resp, w1)" and "sent resp = Some (201, h)"
    and "\<forall>k. \<not> requested (buf (queue w)) k (ID u)"
    and "app_run srv es w1 = Some w2" and "list_all (spares srv (ID u)) es"
  shows "\<exists>bdy batch res b. readBody (libs srv) r = Inr bdy \<and> unmarshalBatchURLs (libs srv) bdy = Inr batch \<and>
    marshalBatchShortened (libs srv) res = Inr b \<and> received (compressor (libs srv)) resp = Some b \<and>
    map SID res = map BID batch \<and>
    (\<forall>i < length batch. \<exists>p. SShort (res ! i) = getServedURL (shortenerSvc srv) p \<and>
       leads_to srv w2 p (BURL (batch ! i)))"
proof -
  obtain bdy batch res b where c: "readBody (libs srv) r = Inr bdy" "unmarshalBatchURLs (libs srv) bdy = Inr batch"
    "ShortenBatch (storage srv) (shortenerSvc srv) u batch (sto w) (rnd w) = ((res, None), sto w1, rnd w1)"
    "marshalBatchShortened (libs srv) res = Inr b"
    "received (compressor (libs srv)) resp = Some b" "queue w1 = queue w"
    using http_batch_201 [OF assms(3,4,7,8,10,11)] assms(9) by (metis Inr_inject Pair_inject)
  from ShortenBatch_linked [OF c(3) [unfolded assms(2)] assms(1)]
  have l: "ok (sto w1)" "map SID res = map BID batch"
    "\<forall>i < length batch. \<exists>p. linked_entry (view (sto w1)) (shortenerSvc srv) u (BURL (batch ! i)) (SShort (res ! i)) p" by auto
  have "\<exists>p. SShort (res ! i) = getServedURL (shortenerSvc srv) p \<and> leads_to srv w2 p (BURL (batch ! i))"
    if "i < length batch" for i
    using l(3) that linked_entry_leads [OF l(1) assms(2,3,5,6) _ _ assms(13,14)] assms(12) c(6) by metis
  with c(1,2,4,5) l(2) show ?thesis by blast
qed

lemma grpc_batch_links:
  assumes "ok (sto w)" and "storage srv = st" and "chi_ok (libs srv)"
    and "pathLength (shortenerSvc srv) \<noteq> 0" and "pathLength (shortenerSvc srv) \<noteq> 4"
    and "call_id srv c w" and "g_req c = ShortenBatchRequest b"
    and "g_md c = Some md" and "createOrParseUserFromMetadata srv (g_now c) md (uuids w) = (Inr (u, tok), g)"
    and "tok = [] \<or> g_send_err c = None"
    and "grpc_serve srv c w = Some (out, toks, w1)" and "client_sees out = (OK, Some (ShortenBatchResponse links))"
    and "\<forall>k. \<not> requested (buf (queue w)) k (ID u)"
    and "app_run srv es w1 = Some w2" and "list_all (spares srv (ID u)) es"
  shows "map fst links = map fst b \<and>
    (\<forall>i < length b. \<exists>p. snd (links ! i) = getServedURL (shortenerSvc srv) p \<and> leads_to srv w2 p (snd (b ! i)))"
proof -
  let ?b = "map (\<lambda>(i, url). \<lparr>BID = i, BURL = url\<rparr>) b"
  obtain res where c: "ShortenBatch (storage srv) (shortenerSvc srv) u ?b (sto w) (rnd w) = ((res, None), sto w1, rnd w1)"
    "links = map (\<lambda>x. (SID x, SShort x)) res" "queue w1 = queue w"
    by (rule grpc_batch_ok [OF assms(6-12)])
  from ShortenBatch_linked [OF c(1) [unfolded assms(2)] assms(1)]
  have l: "ok (sto w1)" "map SID res = map BID ?b"
    "\<forall>i < length b. \<exists>p. linked_entry (view (sto w1)) (shortenerSvc srv) u (BURL (?b ! i)) (SShort (res ! i)) p" by auto
  have len: "length res = length b" using arg_cong [OF l(2), of length] by simp
  have "map fst links = map fst b" using l(2) by (simp add: c(2) o_def case_prod_beta)
  moreover have "\<exists>p. snd (links ! i) = getServedURL (shortenerSvc srv) p \<and> leads_to srv w2 p (snd (b ! i))"
    if i: "i < length b" for i
  proof -
    have "snd (links ! i) = SShort (res ! i)" "snd (b ! i) = BURL (?b ! i)"
      using i len by (simp_all add: c(2) case_prod_beta)
    with l(3) i linked_entry_leads [OF l(1) assms(2-5) _ _ assms(14,15)] assms(13) c(3) show ?thesis by metis
  qed
  ultimately show ?thesis by blast
qed

end

section \<open>Properties\<close>

text \<open>C4. The links of a batch created over http on a database all work: when \<open>POST /api/shorten/batch\<close> answers
  201, the body holds one short url for every url that was sent, in order and with its correlation id, and
  after any further requests to both servers and queue flushes without deletions of the same user each of
  them leads to its url, by a redirect over http and a \<open>Resolve\<close> over grpc. The table's key keeps two urls of
  a batch from getting the same path.\<close>

theorem batch_links_work:
  assumes "pgx_pool pool tbl up" and "up (pool_st (sto w))" and "storage srv = database_storage pool"
    and "chi_ok (libs srv)" and "comp_ok (compressor (libs srv))"
    and "pathLength (shortenerSvc srv) \<noteq> 0" and "pathLength (shortenerSvc srv) \<noteq> 4"
    and "r_method r = ''POST''" and "r_path r = ''/api/shorten/batch''"
    and "createOrParseUserFromRequest srv r (uuids w) = (Inr (u, tok), g)"
    and "http_serve srv r w = Some (resp, w1)" and "sent resp = Some (201, h)"
    and "\<forall>k. \<not> requested (buf (queue w)) k (ID u)"
    and "app_run srv es w1 = Some w2" and "list_all (spares srv (ID u)) es"
  shows "\<exists>bdy batch res b. readBody (libs srv) r = Inr bdy \<and> unmarshalBatchURLs (libs srv) bdy = Inr batch \<and>
    marshalBatchShortened (libs srv) res = Inr b \<and> received (compressor (libs srv)) resp = Some b \<and>
    map SID res = map BID batch \<and>
    (\<forall>i < length batch. \<exists>p. SShort (res ! i) = getServedURL (shortenerSvc srv) p \<and>
       leads_to srv w2 p (BURL (batch ! i)))"
proof -
  have "database_ok up (sto w)" using assms(2) by (simp add: database_ok_def)
  from batch_storage.http_batch_links [OF pgx_pool.is_batch_storage [OF assms(1)] this assms(3-)] show ?thesis .
qed

text \<open>A server whose json decoder knows a body with two urls.\<close>

definition batch_server :: "sqlserver Database Server" where
  "batch_server = (sample_server (database_storage sql_pool))\<lparr>libs := sample_httplibs\<lparr>unmarshalBatchURLs :=
     (\<lambda>b. if b = ''two'' then Inr [\<lparr>BID = ''1'', BURL = ''http://a.b''\<rparr>, \<lparr>BID = ''2'', BURL = ''http://c.d''\<rparr>]
        else Inl (Errmsg ''json''))\<rparr>\<rparr>"

lemma batch_server_simps [simp]:
  "storage batch_server = database_storage sql_pool" "compressor (libs batch_server) = sample_comp"
  "shortenerSvc batch_server = sample_service"
  "unmarshalBatchURLs (libs batch_server) ''two'' =
     Inr [\<lparr>BID = ''1'', BURL = ''http://a.b''\<rparr>, \<lparr>BID = ''2'', BURL = ''http://c.d''\<rparr>]"
  "createOrParseUserFromRequest batch_server r g = createOrParseUserFromRequest (sample_server (database_storage sql_pool)) r g"
  "createOrParseUserFromMetadata batch_server n md g =
     createOrParseUserFromMetadata (sample_server (database_storage sql_pool)) n md g"
  by (simp_all add: batch_server_def createOrParseUserFromRequest_def createOrParseUserFromMetadata_def sample_server_def
      sample_httplibs_def cong: option.case_cong list.case_cong)

lemma batch_server_chi: "chi_ok (libs batch_server)"
  using sample_chi_ok by (simp add: batch_server_def chi_ok_def)

lemma batch_spares: "list_all (spares batch_server (ID owner_user)) sample_events"
  by (simp add: sample_events_def deleting_def gdeleting_def) (simp add: sample_hreq_def)

theorem batch_links_work_witness:
  "\<exists>resp w1 w2. http_serve batch_server (sample_hreq ''POST'' ''/api/shorten/batch'' ''two'' True)
      (sample_world (sample_db [])) = Some (resp, w1) \<and>
    app_run batch_server sample_events w1 = Some w2 \<and>
    (\<exists>p. leads_to batch_server w2 p ''http://a.b'') \<and> (\<exists>p. leads_to batch_server w2 p ''http://c.d'')"
proof -
  let ?r = "sample_hreq ''POST'' ''/api/shorten/batch'' ''two'' True"
  let ?w = "sample_world (sample_db [])"
  have "map_option (\<lambda>(resp, w1). (map_option fst (sent resp), Option.is_none (app_run batch_server sample_events w1)))
      (http_serve batch_server ?r ?w) = Some (Some 201, False)" by code_simp
  then obtain resp w1 h w2 where s: "http_serve batch_server ?r ?w = Some (resp, w1)" "sent resp = Some (201, h)"
      "app_run batch_server sample_events w1 = Some w2"
    by (auto simp: Option.is_none_def)
  have u: "createOrParseUserFromRequest batch_server ?r (uuids ?w) = (Inr (owner_user, []), uuids ?w)" by simp
  have q: "\<forall>k. \<not> requested (buf (queue ?w)) k (ID owner_user)" by (simp add: requested_def sample_queue_def)
  have "\<exists>bdy batch res b. readBody (libs batch_server) ?r = Inr bdy \<and> unmarshalBatchURLs (libs batch_server) bdy = Inr batch \<and>
    marshalBatchShortened (libs batch_server) res = Inr b \<and> received (compressor (libs batch_server)) resp = Some b \<and>
    map SID res = map BID batch \<and>
    (\<forall>i < length batch. \<exists>p. SShort (res ! i) = getServedURL (shortenerSvc batch_server) p \<and>
       leads_to batch_server w2 p (BURL (batch ! i)))"
    by (rule batch_links_work [OF pg.pgx_pool_axioms _ _ batch_server_chi _ _ _ _ _ u s(1,2) q s(3) batch_spares])
      (simp_all add: sample_comp_ok sample_service_def table_inv_def)
  then obtain bdy batch and res :: "BatchShortened list" where r: "readBody (libs batch_server) ?r = Inr bdy"
      "unmarshalBatchURLs (libs batch_server) bdy = Inr batch"
      "\<forall>i < length batch. \<exists>p. SShort (res ! i) = getServedURL (shortenerSvc batch_server) p \<and>
         leads_to batch_server w2 p (BURL (batch ! i))" by blast
  have "readBody (libs batch_server) ?r = Inr ''two''" by code_simp
  with r(1,2) have b: "batch = [\<lparr>BID = ''1'', BURL = ''http://a.b''\<rparr>, \<lparr>BID = ''2'', BURL = ''http://c.d''\<rparr>]" by auto
  from r(3) [rule_format, of 0] r(3) [rule_format, of 1] s show ?thesis by (auto simp: b)
qed

text \<open>C40. The link that \<open>POST /api/shorten\<close> creates from a json body on a database works: when the answer is 201, the
  body was read as a request whose url parses, the client receives the json form of a short url, and after any
  further requests to both servers and queue flushes without deletions of the same user the path of that short
  url leads to the url of the request, by a redirect over http and a \<open>Resolve\<close> over grpc.\<close>

theorem json_link_works:
  assumes "pgx_pool pool tbl up" and "up (pool_st (sto w))" and "storage srv = database_storage pool"
    and "chi_ok (libs srv)" and "comp_ok (compressor (libs srv))"
    and "pathLength (shortenerSvc srv) \<noteq> 0" and "pathLength (shortenerSvc srv) \<noteq> 4"
    and "r_method r = ''POST''" and "r_path r = ''/api/shorten''"
    and "createOrParseUserFromRequest srv r (uuids w) = (Inr (u, tok), g)"
    and "http_serve srv r w = Some (resp, w1)" and "sent resp = Some (201, h)"
    and "\<forall>k. \<not> requested (buf (queue w)) k (ID u)"
    and "app_run srv es w1 = Some w2" and "list_all (spares srv (ID u)) es"
  shows "\<exists>bdy req pu p b. readBody (libs srv) r = Inr bdy \<and> unmarshalShortenRequest (libs srv) bdy = Inr req \<and>
    parseURL (libs srv) (RequestURL req) = Inr pu \<and>
    marshalShortenResponse (libs srv) \<lparr>Result = getServedURL (shortenerSvc srv) p\<rparr> = Inr b \<and>
    received (compressor (libs srv)) resp = Some b \<and> leads_to srv w2 p (url_String pu)"
proof -
  have "database_ok up (sto w)" using assms(2) by (simp add: database_ok_def)
  from url_storage.http_json_link [OF pgx_pool.is_storage [OF assms(1)] this assms(3-)] show ?thesis .
qed

theorem json_link_works_witness:
  "\<exists>resp w1 w2 p. http_serve batch_server (sample_hreq ''POST'' ''/api/shorten'' ''http://a.b'' True)
      (sample_world (sample_db [])) = Some (resp, w1) \<and>
    app_run batch_server sample_events w1 = Some w2 \<and>
    received sample_comp resp = Some (getServedURL sample_service p) \<and> leads_to batch_server w2 p ''http://a.b''"
proof -
  let ?r = "sample_hreq ''POST'' ''/api/shorten'' ''http://a.b'' True"
  let ?w = "sample_world (sample_db [])"
  have "map_option (\<lambda>(resp, w1). (map_option fst (sent resp), Option.is_none (app_run batch_server sample_events w1)))
      (http_serve batch_server ?r ?w) = Some (Some 201, False)" by code_simp
  then obtain resp w1 h w2 where s: "http_serve batch_server ?r ?w = Some (resp, w1)" "sent resp = Some (201, h)"
      "app_run batch_server sample_events w1 = Some w2"
    by (auto simp: Option.is_none_def)
  have u: "createOrParseUserFromRequest batch_server ?r (uuids ?w) = (Inr (owner_user, []), uuids ?w)" by simp
  have q: "\<forall>k. \<not> requested (buf (queue ?w)) k (ID owner_user)" by (simp add: requested_def sample_queue_def)
  have "\<exists>bdy req pu p b. readBody (libs batch_server) ?r = Inr bdy \<and> unmarshalShortenRequest (libs batch_server) bdy = Inr req \<and>
    parseURL (libs batch_server) (RequestURL req) = Inr pu \<and>
    marshalShortenResponse (libs batch_server) \<lparr>Result = getServedURL (shortenerSvc batch_server) p\<rparr> = Inr b \<and>
    received (compressor (libs batch_server)) resp = Some b \<and> leads_to batch_server w2 p (url_String pu)"
    by (rule json_link_works [OF pg.pgx_pool_axioms _ _ batch_server_chi _ _ _ _ _ u s(1,2) q s(3) batch_spares])
      (simp_all add: sample_comp_ok sample_service_def table_inv_def)
  then obtain bdy req pu p b where r: "readBody (libs batch_server) ?r = Inr bdy"
      "unmarshalShortenRequest (libs batch_server) bdy = Inr req" "parseURL (libs batch_server) (RequestURL req) = Inr pu"
      "marshalShortenResponse (libs batch_server) \<lparr>Result = getServedURL (shortenerSvc batch_server) p\<rparr> = Inr b"
      "received (compressor (libs batch_server)) resp = Some b" "leads_to batch_server w2 p (url_String pu)" by blast
  have "readBody (libs batch_server) ?r = Inr ''http://a.b''" by code_simp
  with r have "url_String pu = ''http://a.b''" "b = getServedURL sample_service p"
    by (auto simp: batch_server_def sample_httplibs_def sample_parse_def sample_libs_def)
  with r s show ?thesis by auto
qed

text \<open>The links of a batch that the grpc method \<open>ShortenBatch\<close> accepted all work, as those of a batch over http.\<close>

theorem grpc_batch_links_work:
  assumes "pgx_pool pool tbl up" and "up (pool_st (sto w))" and "storage srv = database_storage pool"
    and "chi_ok (libs srv)" and "pathLength (shortenerSvc srv) \<noteq> 0" and "pathLength (shortenerSvc srv) \<noteq> 4"
    and "call_id srv c w" and "g_req c = ShortenBatchRequest b"
    and "g_md c = Some md" and "createOrParseUserFromMetadata srv (g_now c) md (uuids w) = (Inr (u, tok), g)"
    and "tok = [] \<or> g_send_err c = None"
    and "grpc_serve srv c w = Some (out, toks, w1)" and "client_sees out = (OK, Some (ShortenBatchResponse links))"
    and "\<forall>k. \<not> requested (buf (queue w)) k (ID u)"
    and "app_run srv es w1 = Some w2" and "list_all (spares srv (ID u)) es"
  shows "map fst links = map fst b \<and>
    (\<forall>i < length b. \<exists>p. snd (links ! i) = getServedURL (shortenerSvc srv) p \<and> leads_to srv w2 p (snd (b ! i)))"
proof -
  have "database_ok up (sto w)" using assms(2) by (simp add: database_ok_def)
  from batch_storage.grpc_batch_links [OF pgx_pool.is_batch_storage [OF assms(1)] this assms(3-)] show ?thesis .
qed

theorem grpc_batch_links_work_witness:
  "\<exists>out toks w1 w2. grpc_serve batch_server (sample_call (ShortenBatchRequest [(''1'', ''http://a.b''), (''2'', ''http://c.d'')]) True)
      (sample_world (sample_db [])) = Some (out, toks, w1) \<and>
    app_run batch_server sample_events w1 = Some w2 \<and>
    (\<exists>p. leads_to batch_server w2 p ''http://a.b'') \<and> (\<exists>p. leads_to batch_server w2 p ''http://c.d'')"
proof -
  let ?b = "[(''1'', ''http://a.b''), (''2'', ''http://c.d'')]"
  let ?c = "sample_call (ShortenBatchRequest ?b) True"
  let ?w = "sample_world (sample_db [])"
  have "map_option (\<lambda>(out, toks, w1). (client_sees out, Option.is_none (app_run batch_server sample_events w1)))
      (grpc_serve batch_server ?c ?w) =
    Some ((OK, Some (ShortenBatchResponse [(''1'', ''http://h/01''), (''2'', ''http://h/23'')])), False)" by code_simp
  then obtain out toks w1 w2 links where s: "grpc_serve batch_server ?c ?w = Some (out, toks, w1)"
      "client_sees out = (OK, Some (ShortenBatchResponse links))" "app_run batch_server sample_events w1 = Some w2"
    by (auto simp: Option.is_none_def)
  have u: "createOrParseUserFromMetadata batch_server (g_now ?c) (\<lambda>k. if k = sessionKey then [''Tu1''] else []) (uuids ?w) =
    (Inr (owner_user, []), uuids ?w)" by simp
  have q: "\<forall>k. \<not> requested (buf (queue ?w)) k (ID owner_user)" by (simp add: requested_def sample_queue_def)
  have "map fst links = map fst ?b \<and>
    (\<forall>i < length ?b. \<exists>p. snd (links ! i) = getServedURL (shortenerSvc batch_server) p \<and> leads_to batch_server w2 p (snd (?b ! i)))"
    by (rule grpc_batch_links_work [OF pg.pgx_pool_axioms _ _ batch_server_chi _ _ _ _ _ u _ s(1,2) q s(3) batch_spares])
      (simp_all add: sample_service_def table_inv_def call_id_def sample_call_def sample_world_def)
  then have "\<forall>i < length ?b. \<exists>p. leads_to batch_server w2 p (snd (?b ! i))" by blast
  from this [rule_format, of 0] this [rule_format, of 1] s show ?thesis by auto
qed

end
