(* ===== verification/Concurrent.thy ===== *)
theory Concurrent
  imports EndToEnd
begin

text \<open>
  Requests served at the same time. Every request runs in its own goroutine, and the services
  hold no lock across the calls they make, so the requests interleave between one call of a
  storage method (or one \<open>Push\<close>) and the next. A storage method is one step: it runs under the
  lock of the storage, or is one statement or transaction of the database; so is a flush of the
  delete queue, which holds the lock of the queue. The paths of \<open>RandString\<close> are drawn from one
  shared source; other ways for the goroutines to share it are runs with another source.
\<close>

section \<open>The goroutine of a request\<close>

datatype answer =
    AShorten "string gret"
  | ABatch "BatchShortened list gret"
  | AResolve "string gret"
  | AList "URL list gret"
  | ADelete "gerr option"
  | APing "gerr option"
  | AStats "Stats option gret"
  | AFlushed
  | APanic

text \<open>
  Where a goroutine stands: at the start of its request; in the loop of \<open>storeURL\<close> with the user,
  the url, the number of attempts left and the named results; in the loop of \<open>DeleteBatch\<close> with the
  paths left to queue; or done.
\<close>

datatype thread =
    Ready req
  | Storing user string nat string "gerr option"
  | Pushing int user "string list"
  | Done answer

text \<open>What \<open>Shorten\<close> does with the results of \<open>storeURL\<close>.\<close>

definition shorten_answer :: "Service \<Rightarrow> string \<Rightarrow> gerr option \<Rightarrow> string gret" where
  "shorten_answer svc path err = (case err of
     None \<Rightarrow> (getServedURL svc path, None)
   | Some e \<Rightarrow>
       if \<not> errors_is (Sentinel ErrConflict) e
       then ([], errors_join [Some (Sentinel ErrStorageError), Some e])
       else (getServedURL svc path, Some e))"

text \<open>\<open>Shorten\<close> up to its call of \<open>storeURL\<close>.\<close>

definition shorten_start :: "(string \<Rightarrow> gerr + purl) \<Rightarrow> Service \<Rightarrow> user \<Rightarrow> string \<Rightarrow> thread" where
  "shorten_start parse svc usr origURL = (case parse origURL of
     Inl e \<Rightarrow> Done (AShorten ([], errors_join [Some (Sentinel ErrInvalidURL), Some e]))
   | Inr u \<Rightarrow>
       if redirectScheme svc \<noteq> [] \<and> Scheme u \<noteq> redirectScheme svc
       then Done (AShorten ([], Some (Sentinel ErrUnsupportedURLScheme)))
       else Storing usr (url_String u) defaultStoreRetries [] None)"

text \<open>One round of the loop of \<open>storeURL\<close>, with \<open>i\<close> rounds left after it.\<close>

definition store_round ::
  "'s Storage \<Rightarrow> Service \<Rightarrow> user \<Rightarrow> string \<Rightarrow> nat \<Rightarrow> 's sys \<Rightarrow> thread \<times> 's sys" where
  "store_round st svc usr u i x =
     (let (path, r) = RandString (pathLength svc) (rnd x);
          ((storedPath, err), s) =
            st_Store st (sto x) \<lparr>Short = path, Orig = u, UserID = ID usr, TS = 0\<rparr> False;
          y = x\<lparr>sto := s, rnd := r\<rparr>
      in case err of
           None \<Rightarrow> (Done (AShorten (shorten_answer svc path None)), y)
         | Some e \<Rightarrow>
             if errors_is e (Sentinel ErrConflict)
             then (Done (AShorten (shorten_answer svc storedPath (Some e))), y)
             else if errors_is e (Sentinel ErrAlreadyExists)
             then (Storing usr u i path (Some e), y)
             else (Done (AShorten (shorten_answer svc path (Some e))), y))"

text \<open>One step of a goroutine; \<^const>\<open>None\<close> when it is done, or blocked in a \<open>Push\<close>.\<close>

fun tstep :: "(string \<Rightarrow> gerr + purl) \<Rightarrow> 's Storage \<Rightarrow> Service \<Rightarrow> thread \<Rightarrow> 's sys \<Rightarrow>
     (thread \<times> 's sys) option" where
  "tstep parse st svc (Ready (ReqShorten usr u)) x = Some (shorten_start parse svc usr u, x)"
| "tstep parse st svc (Storing usr u 0 path err) x =
     Some (Done (AShorten (shorten_answer svc path (map_option (Wrap ''cannot store url'') err))), x)"
| "tstep parse st svc (Storing usr u (Suc i) path err) x = Some (store_round st svc usr u i x)"
| "tstep parse st svc (Ready (ReqBatch usr b)) x = (case ShortenBatch st svc usr b (sto x) (rnd x) of
     (a, s', r') \<Rightarrow> Some (Done (ABatch a), x\<lparr>sto := s', rnd := r'\<rparr>))"
| "tstep parse st svc (Ready (ReqResolve p)) x = (case Resolve st p (sto x) of
     Panic \<Rightarrow> Some (Done APanic, x)
   | Ret (a, s') \<Rightarrow> Some (Done (AResolve a), x\<lparr>sto := s'\<rparr>))"
| "tstep parse st svc (Ready (ReqGetAll usr)) x = (case GetAll st svc usr (sto x) of
     (a, s') \<Rightarrow> Some (Done (AList a), x\<lparr>sto := s'\<rparr>))"
| "tstep parse st svc (Ready (ReqDelete now usr shorts)) x =
     Some (if IsNew usr then Done (ADelete (Some (Sentinel ErrUnauthorized)))
       else if shorts = [] then Done (ADelete (Some (Sentinel ErrEmptyBatch)))
       else Pushing now usr shorts, x)"
| "tstep parse st svc (Pushing now usr []) x = Some (Done (ADelete None), x)"
| "tstep parse st svc (Pushing now usr (short # shorts)) x =
     (case Push (queue x) \<lparr>Short = short, Orig = [], UserID = ID usr, TS = now\<rparr> of
        None \<Rightarrow> None
      | Some (Some e, f) \<Rightarrow>
          Some (Done (ADelete (errors_join [Some (Sentinel ErrDelete), Some e])), x\<lparr>queue := f\<rparr>)
      | Some (None, f) \<Rightarrow> Some (Pushing now usr shorts, x\<lparr>queue := f\<rparr>))"
| "tstep parse st svc (Ready ReqPing) x = (case status_Ping st (sto x) of
     (a, s') \<Rightarrow> Some (Done (APing a), x\<lparr>sto := s'\<rparr>))"
| "tstep parse st svc (Ready ReqStats) x = (case status_Stats st (sto x) of
     (a, s') \<Rightarrow> Some (Done (AStats a), x\<lparr>sto := s'\<rparr>))"
| "tstep parse st svc (Ready FlushQueue) x = (case flush_deletes st (queue x) (sto x) of
     (f, s') \<Rightarrow> Some (Done AFlushed, x\<lparr>sto := s', queue := f\<rparr>))"
| "tstep parse st svc (Done a) x = None"

text \<open>A run of the goroutines \<open>T\<close>: the schedule names the one that takes the next step.\<close>

fun crun :: "(string \<Rightarrow> gerr + purl) \<Rightarrow> 's Storage \<Rightarrow> Service \<Rightarrow> nat list \<Rightarrow> thread list \<Rightarrow> 's sys \<Rightarrow>
     (thread list \<times> 's sys) option" where
  "crun parse st svc [] T x = Some (T, x)"
| "crun parse st svc (i # is) T x =
     (if i < length T
      then (case tstep parse st svc (T ! i) x of
          None \<Rightarrow> None
        | Some (t, y) \<Rightarrow> crun parse st svc is (T[i := t]) y)
      else None)"

section \<open>A request alone\<close>

lemma crun_append:
  "crun parse st svc (is @ js) T x = (case crun parse st svc is T x of
     None \<Rightarrow> None | Some (T', y) \<Rightarrow> crun parse st svc js T' y)"
  by (induction "is" arbitrary: T x) (auto split: option.splits)

definition alone ::
  "(string \<Rightarrow> gerr + purl) \<Rightarrow> 's Storage \<Rightarrow> Service \<Rightarrow> nat \<Rightarrow> thread \<Rightarrow> 's sys \<Rightarrow> (thread \<times> 's sys) option" where
  "alone parse st svc n t x = map_option (\<lambda>(T, y). (T ! 0, y)) (crun parse st svc (replicate n 0) [t] x)"

lemma alone_simps [simp]:
  "alone parse st svc 0 t x = Some (t, x)"
  "alone parse st svc (Suc n) t x = (case tstep parse st svc t x of
     None \<Rightarrow> None | Some (t', y) \<Rightarrow> alone parse st svc n t' y)"
  by (simp_all add: alone_def split: option.splits)

lemma alone_store:
  assumes "storeURL_loop st (pathLength svc) usr u i p0 err (sto x) (rnd x) = ((p, e), s', r')"
  shows "\<exists>n \<le> Suc i. alone parse st svc n (Storing usr u i p0 err) x =
    Some (Done (AShorten (shorten_answer svc p e)), x\<lparr>sto := s', rnd := r'\<rparr>)"
  using assms
proof (induction i arbitrary: p0 err x)
  case 0
  then have "alone parse st svc (Suc 0) (Storing usr u 0 p0 err) x =
      Some (Done (AShorten (shorten_answer svc p e)), x\<lparr>sto := s', rnd := r'\<rparr>)"
    by simp
  then show ?case by blast
next
  case (Suc i)
  obtain q r1 where q: "RandString (pathLength svc) (rnd x) = (q, r1)"
    by (cases "RandString (pathLength svc) (rnd x)")
  obtain sp er s1 where sto: "st_Store st (sto x) \<lparr>Short = q, Orig = u, UserID = ID usr, TS = 0\<rparr> False = ((sp, er), s1)"
    by (metis surj_pair)
  let ?y = "x\<lparr>sto := s1, rnd := r1\<rparr>"
  show ?case
  proof (cases "\<exists>er'. er = Some er' \<and> \<not> errors_is er' (Sentinel ErrConflict) \<and> errors_is er' (Sentinel ErrAlreadyExists)")
    case True
    then obtain er' where er: "er = Some er'" "\<not> errors_is er' (Sentinel ErrConflict)" "errors_is er' (Sentinel ErrAlreadyExists)"
      by blast
    with Suc.prems q sto
    have "storeURL_loop st (pathLength svc) usr u i q (Some er') (sto ?y) (rnd ?y) = ((p, e), s', r')" by simp
    from Suc.IH [OF this] obtain n where n: "n \<le> Suc i"
      "alone parse st svc n (Storing usr u i q (Some er')) ?y =
        Some (Done (AShorten (shorten_answer svc p e)), ?y\<lparr>sto := s', rnd := r'\<rparr>)" by blast
    then have "alone parse st svc (Suc n) (Storing usr u (Suc i) p0 err) x =
        Some (Done (AShorten (shorten_answer svc p e)), x\<lparr>sto := s', rnd := r'\<rparr>)"
      using q sto er by (simp add: store_round_def)
    with n(1) show ?thesis by (metis Suc_le_mono)
  next
    case False
    then have "alone parse st svc (Suc 0) (Storing usr u (Suc i) p0 err) x =
        Some (Done (AShorten (shorten_answer svc p e)), x\<lparr>sto := s', rnd := r'\<rparr>)"
      using q sto Suc.prems by (auto simp: store_round_def split: option.splits if_splits)
    then show ?thesis by (metis One_nat_def Suc_le_mono le0)
  qed
qed

lemma shorten_answer_eq:
  "Shorten parse st svc usr u s r = (case shorten_start parse svc usr u of
     Done (AShorten a) \<Rightarrow> (a, s, r)
   | _ \<Rightarrow> (case parse u of Inr pu \<Rightarrow>
        (case storeURL st svc usr (url_String pu) s r of
          ((p, e), s', r') \<Rightarrow> (shorten_answer svc p e, s', r'))))"
  by (simp add: Shorten_def shorten_start_def shorten_answer_def split: sum.splits option.splits prod.splits)

lemma alone_shorten:
  assumes "Shorten parse st svc usr u (sto x) (rnd x) = (a, s', r')"
  shows "\<exists>n \<le> 5. alone parse st svc n (Ready (ReqShorten usr u)) x =
    Some (Done (AShorten a), x\<lparr>sto := s', rnd := r'\<rparr>)"
proof (cases "\<exists>pu. parse u = Inr pu \<and> (redirectScheme svc = [] \<or> Scheme pu = redirectScheme svc)")
  case True
  then obtain pu where pu: "parse u = Inr pu" "redirectScheme svc = [] \<or> Scheme pu = redirectScheme svc" by blast
  obtain p e s1 r1 where l: "storeURL_loop st (pathLength svc) usr (url_String pu) defaultStoreRetries [] None
      (sto x) (rnd x) = ((p, e), s1, r1)"
    by (metis surj_pair)
  from alone_store [OF l, of parse] obtain n where n: "n \<le> Suc defaultStoreRetries"
    "alone parse st svc n (Storing usr (url_String pu) defaultStoreRetries [] None) x =
      Some (Done (AShorten (shorten_answer svc p e)), x\<lparr>sto := s1, rnd := r1\<rparr>)" by blast
  have st: "shorten_start parse svc usr u = Storing usr (url_String pu) defaultStoreRetries [] None"
    using pu by (auto simp: shorten_start_def)
  then have "(a, s', r') = (shorten_answer svc p e, s1, r1)"
    using assms pu l by (simp add: shorten_answer_eq storeURL_def)
  then have "alone parse st svc (Suc n) (Ready (ReqShorten usr u)) x =
      Some (Done (AShorten a), x\<lparr>sto := s', rnd := r'\<rparr>)" using n(2) st by simp
  moreover have "Suc n \<le> 5" using n(1) by (simp add: defaultStoreRetries_def)
  ultimately show ?thesis by blast
next
  case False
  then have "alone parse st svc (Suc 0) (Ready (ReqShorten usr u)) x = Some (Done (AShorten a), x\<lparr>sto := s', rnd := r'\<rparr>)"
    using assms by (auto simp: Shorten_def shorten_start_def split: sum.splits)
  then show ?thesis by (metis One_nat_def one_le_numeral)
qed

lemma alone_det:
  "alone parse st svc n t x = Some (Done a, y) \<Longrightarrow> alone parse st svc m t x = Some (Done b, z) \<Longrightarrow> a = b \<and> y = z"
proof (induction n arbitrary: t x m)
  case 0
  then show ?case by (cases m) simp_all
next
  case (Suc n)
  then show ?case by (cases m) (auto split: option.splits)
qed

lemma alone_push:
  "case push_all now usr shorts (queue x) of
     None \<Rightarrow> \<forall>n t y. alone parse st svc n (Pushing now usr shorts) x = Some (t, y) \<longrightarrow> (\<exists>ss. t = Pushing now usr ss)
   | Some (e, f) \<Rightarrow> \<exists>n. alone parse st svc n (Pushing now usr shorts) x = Some (Done (ADelete e), x\<lparr>queue := f\<rparr>)"
proof (induction shorts arbitrary: x)
  case Nil
  show ?case by (simp add: exI [of _ "Suc 0"])
next
  case (Cons s ss)
  show ?case
  proof (cases "Push (queue x) \<lparr>Short = s, Orig = [], UserID = ID usr, TS = now\<rparr>")
    case None
    have "\<exists>ss'. t = Pushing now usr ss'" if "alone parse st svc n (Pushing now usr (s # ss)) x = Some (t, y)" for n t y
      using that None by (cases n) auto
    with None show ?thesis by auto
  next
    case (Some q)
    obtain e f where q: "q = (e, f)" by (cases q)
    show ?thesis
    proof (cases e)
      case None
      let ?y = "x\<lparr>queue := f\<rparr>"
      have one: "alone parse st svc (Suc n) (Pushing now usr (s # ss)) x = alone parse st svc n (Pushing now usr ss) ?y" for n
        using Some q None by simp
      have al: "push_all now usr (s # ss) (queue x) = push_all now usr ss (queue ?y)" using Some q None by simp
      show ?thesis
      proof (cases "push_all now usr ss (queue ?y)")
        case None
        have "\<exists>ss'. t = Pushing now usr ss'" if "alone parse st svc n (Pushing now usr (s # ss)) x = Some (t, y)" for n t y
          using that Cons.IH [of ?y] None one by (cases n) (auto simp del: alone_simps(2))
        with al None show ?thesis by auto
      next
        case (Some eg)
        then obtain e' g where eg: "push_all now usr ss (queue ?y) = Some (e', g)" by (metis surj_pair)
        with Cons.IH [of ?y] obtain n where "alone parse st svc n (Pushing now usr ss) ?y = Some (Done (ADelete e'), ?y\<lparr>queue := g\<rparr>)"
          by auto
        with one [of n] have "alone parse st svc (Suc n) (Pushing now usr (s # ss)) x = Some (Done (ADelete e'), x\<lparr>queue := g\<rparr>)"
          by simp
        with al eg show ?thesis by (simp del: alone_simps(2) push_all.simps(2)) blast
      qed
    next
      case er: (Some d)
      then show ?thesis using Some q by (auto intro: exI [of _ "Suc 0"])
    qed
  qed
qed

lemma alone_delete:
  "case DeleteBatch now usr shorts (queue x) of
     None \<Rightarrow> \<forall>n a y. alone parse st svc n (Ready (ReqDelete now usr shorts)) x \<noteq> Some (Done a, y)
   | Some (e, f) \<Rightarrow> \<exists>n. alone parse st svc n (Ready (ReqDelete now usr shorts)) x = Some (Done (ADelete e), x\<lparr>queue := f\<rparr>)"
proof (cases "IsNew usr \<or> shorts = []")
  case True
  then show ?thesis by (auto simp: DeleteBatch_def intro: exI [of _ "Suc 0"])
next
  case False
  then have one: "alone parse st svc (Suc n) (Ready (ReqDelete now usr shorts)) x = alone parse st svc n (Pushing now usr shorts) x" for n
    by simp
  have eq: "DeleteBatch now usr shorts (queue x) = push_all now usr shorts (queue x)"
    using False by (simp add: DeleteBatch_def)
  show ?thesis
  proof (cases "push_all now usr shorts (queue x)")
    case None
    have "alone parse st svc n (Ready (ReqDelete now usr shorts)) x \<noteq> Some (Done a, y)" for n a y
      using alone_push [where now = now and usr = usr and shorts = shorts and x = x and parse = parse and st = st and svc = svc] None one [of "n - 1"]
      by (cases n) (simp_all del: alone_simps(2), fastforce)
    with eq None show ?thesis by simp
  next
    case (Some ef)
    then obtain e f where ef: "push_all now usr shorts (queue x) = Some (e, f)" by (metis surj_pair)
    then show ?thesis using alone_push [where now = now and usr = usr and shorts = shorts and x = x and parse = parse and st = st and svc = svc] one eq by auto (metis one)
  qed
qed

section \<open>All interleavings\<close>

text \<open>Nobody asks for a deletion in the name of \<open>uid\<close>, in the queue or in one of the requests.\<close>

definition spared :: "'s sys \<Rightarrow> req list \<Rightarrow> string \<Rightarrow> bool" where
  "spared x rs uid \<longleftrightarrow> (\<forall>k. \<not> requested (buf (queue x)) k uid \<and> list_all (\<lambda>r. \<not> deletes k uid r) rs)"

text \<open>A goroutine in the middle of its request: what it has kept of the request.\<close>

fun follows :: "(string \<Rightarrow> gerr + purl) \<Rightarrow> Service \<Rightarrow> req \<Rightarrow> thread \<Rightarrow> bool" where
  "follows parse svc r (Ready r') \<longleftrightarrow> r' = r"
| "follows parse svc r (Storing usr u i path err) \<longleftrightarrow>
     (\<exists>orig pu. r = ReqShorten usr orig \<and> parse orig = Inr pu \<and> u = url_String pu \<and>
       (i = 0 \<longrightarrow> err \<noteq> None))"
| "follows parse svc r (Pushing now usr ss) \<longleftrightarrow>
     (\<exists>shorts. r = ReqDelete now usr shorts \<and> set ss \<subseteq> set shorts)"
| "follows parse svc r (Done a) \<longleftrightarrow> True"

text \<open>The goroutine of the request has answered the user with the short url \<open>served\<close> for \<open>orig\<close>.\<close>

fun gives :: "req \<Rightarrow> thread \<Rightarrow> user \<Rightarrow> string \<Rightarrow> string \<Rightarrow> bool" where
  "gives (ReqShorten v url) (Done (AShorten (s, None))) usr orig served \<longleftrightarrow> v = usr \<and> url = orig \<and> s = served"
| "gives (ReqBatch v b) (Done (ABatch (res, None))) usr orig served \<longleftrightarrow> v = usr \<and>
     (\<exists>k < length b. orig = BURL (b ! k) \<and> served = SShort (res ! k))"
| "gives _ _ usr orig served \<longleftrightarrow> False"

text \<open>What is stored for a url: \<open>Shorten\<close> prints the url it has parsed, \<open>ShortenBatch\<close> does not look at it.\<close>

fun stored_url :: "(string \<Rightarrow> gerr + purl) \<Rightarrow> req \<Rightarrow> string \<Rightarrow> string option" where
  "stored_url parse (ReqShorten v url) orig = (case parse orig of Inl e \<Rightarrow> None | Inr pu \<Rightarrow> Some (url_String pu))"
| "stored_url parse _ orig = Some orig"

text \<open>The short url names a path that stands for the url.\<close>

definition linked :: "(string \<Rightarrow> gerr + purl) \<Rightarrow> Service \<Rightarrow> (string \<rightharpoonup> entry) \<Rightarrow> req \<Rightarrow> user \<Rightarrow> string \<Rightarrow> string \<Rightarrow> bool" where
  "linked parse svc m q usr orig served \<longleftrightarrow>
     (\<exists>url p. stored_url parse q orig = Some url \<and> served = getServedURL svc p \<and> random_path (pathLength svc) p \<and>
       m p = Some (new_entry usr url))"

text \<open>The short url names a path that was given out at some time.\<close>

definition occupied :: "Service \<Rightarrow> (string \<rightharpoonup> entry) \<Rightarrow> string \<Rightarrow> bool" where
  "occupied svc m served \<longleftrightarrow> (\<exists>p. served = getServedURL svc p \<and> random_path (pathLength svc) p \<and> m p \<noteq> None)"

lemma linked_occupied: "linked parse svc m q usr orig served \<Longrightarrow> occupied svc m served"
  by (auto simp: linked_def occupied_def)

lemma gives_shorten [simp]:
  "gives (ReqShorten v url) t usr orig served \<longleftrightarrow> v = usr \<and> url = orig \<and> t = Done (AShorten (served, None))"
  by (cases "(ReqShorten v url, t, usr, orig, served)" rule: gives.cases) auto

lemma gives_batch [simp]:
  "gives (ReqBatch v b) t usr orig served \<longleftrightarrow> v = usr \<and> (\<exists>res. t = Done (ABatch (res, None)) \<and>
     (\<exists>k < length b. orig = BURL (b ! k) \<and> served = SShort (res ! k)))"
  by (cases "(ReqBatch v b, t, usr, orig, served)" rule: gives.cases) auto

lemma gives_cases:
  assumes "gives q t usr orig served"
  obtains (shorten) "q = ReqShorten usr orig" "t = Done (AShorten (served, None))"
  | (batch) b res k where "q = ReqBatch usr b" "t = Done (ABatch (res, None))" "k < length b" "orig = BURL (b ! k)"
      "served = SShort (res ! k)"
  using assms by (cases q) auto

lemma getServedURL_inj [simp]: "getServedURL svc p = getServedURL svc q \<longleftrightarrow> p = q"
  by (simp add: getServedURL_def)

lemma shorten_answer_ok [simp]:
  "shorten_answer svc p e = (served, None) \<longleftrightarrow> e = None \<and> served = getServedURL svc p"
  by (auto simp: shorten_answer_def split: option.splits)

context url_storage
begin

text \<open>What one round of the store loop does.\<close>

lemma store_round_result:
  assumes "store_round st svc usr u i x = (t, y)" and "ok (sto x)"
  shows "ok (sto y) \<and> queue y = queue x \<and>
    (\<forall>served. t = Done (AShorten (served, None)) \<longrightarrow> (\<exists>p. served = getServedURL svc p \<and>
       random_path (pathLength svc) p \<and> \<not> live (view (sto x) p) \<and>
       view (sto y) = (view (sto x))(p \<mapsto> new_entry usr u))) \<and>
    ((\<forall>served. t \<noteq> Done (AShorten (served, None))) \<longrightarrow> view (sto y) = view (sto x)) \<and>
    (\<forall>r. t \<noteq> Ready r) \<and> (\<forall>n v ss. t \<noteq> Pushing n v ss) \<and>
    (\<forall>v w j p e. t = Storing v w j p e \<longrightarrow> v = usr \<and> w = u \<and> e \<noteq> None)"
proof -
  obtain q r1 where q: "RandString (pathLength svc) (rnd x) = (q, r1)"
    by (cases "RandString (pathLength svc) (rnd x)")
  obtain sp er s1 where s1: "st_Store st (sto x) \<lparr>Short = q, Orig = u, UserID = ID usr, TS = 0\<rparr> False = ((sp, er), s1)"
    by (metis surj_pair)
  show ?thesis
  proof (cases er)
    case None
    with assms(1) q s1 have "t = Done (AShorten (getServedURL svc q, None))" "y = x\<lparr>sto := s1, rnd := r1\<rparr>"
      by (auto simp: store_round_def shorten_answer_def)
    with store_law [OF assms(2) s1 [unfolded None]] random_pathI [OF q] show ?thesis by auto
  next
    case (Some e)
    with assms(1) q s1 have t: "y = x\<lparr>sto := s1, rnd := r1\<rparr>" "\<forall>served. t \<noteq> Done (AShorten (served, None))"
        "t = Storing usr u i q (Some e) \<or> (\<exists>a. t = Done a)"
      by (auto simp: store_round_def Let_def split: if_splits)
    with store_err_law [OF assms(2) s1 [unfolded Some]] show ?thesis by auto
  qed
qed

end

text \<open>Every other request is one step, which is the whole request.\<close>

lemma tstep_serve:
  assumes "tstep parse st svc (Ready r) x = Some (t, y)" and "\<forall>usr u. r \<noteq> ReqShorten usr u"
    and "\<forall>now usr ss. r \<noteq> ReqDelete now usr ss"
  shows "\<exists>a. t = Done a \<and> (\<forall>g. a \<noteq> AShorten g) \<and>
    (a = APanic \<and> y = x \<and> serve parse st svc r x = None \<or> a \<noteq> APanic \<and> serve parse st svc r x = Some y)"
  using assms by (cases r) (auto split: prod.splits outcome.splits)

lemma tstep_ready: "\<exists>t y. tstep parse st svc (Ready r) x = Some (t, y)"
  by (cases r) (auto split: prod.splits outcome.splits)

lemma store_round_follows:
  assumes "store_round st svc usr u i x = (t, y)"
  shows "(\<exists>p e. t = Storing usr u i p (Some e)) \<or> (\<exists>g. t = Done (AShorten g))"
  using assms by (auto simp: store_round_def Let_def split: prod.splits option.splits if_splits)

lemma tstep_follows:
  assumes "tstep parse st svc t x = Some (t', y)" and "follows parse svc r t"
  shows "follows parse svc r t'"
proof (cases t)
  case (Ready r')
  then have [simp]: "r' = r" using assms(2) by simp
  show ?thesis
  proof (cases r)
    case (ReqShorten usr u)
    with assms Ready show ?thesis
      by (auto simp: shorten_start_def defaultStoreRetries_def split: sum.splits if_splits)
  next
    case (ReqDelete now usr ss)
    with assms Ready show ?thesis by (auto split: if_splits)
  qed (use assms Ready tstep_serve [of parse st svc r x t' y] in auto)
next
  case (Storing usr u i p e)
  show ?thesis
  proof (cases i)
    case 0
    with Storing assms show ?thesis by auto
  next
    case (Suc j)
    with Storing assms show ?thesis using store_round_follows [of st svc usr u j x t' y] by auto
  qed
next
  case (Pushing now usr ss)
  with assms show ?thesis by (cases ss) (auto split: option.splits)
qed (use assms in simp)

text \<open>
  The invariant of a run for the requests \<open>rs\<close>, where the users \<open>U\<close> are spared: the goroutines
  follow their requests, no two of them have answered with the same short url, and what they have
  answered users in \<open>U\<close> are working links.
\<close>

definition links_hold :: "(string \<Rightarrow> gerr + purl) \<Rightarrow> Service \<Rightarrow> req list \<Rightarrow> string set \<Rightarrow> thread list \<Rightarrow>
     (string \<rightharpoonup> entry) \<Rightarrow> bool" where
  "links_hold parse svc rs U T m \<longleftrightarrow> length T = length rs \<and>
     (\<forall>i < length rs. follows parse svc (rs ! i) (T ! i)) \<and>
     (\<forall>i < length rs. \<forall>usr orig served. gives (rs ! i) (T ! i) usr orig served \<longrightarrow>
        occupied svc m served \<and> (ID usr \<in> U \<longrightarrow> linked parse svc m (rs ! i) usr orig served) \<and>
        (\<forall>j < length rs. \<forall>usr' orig'. j \<noteq> i \<longrightarrow> \<not> gives (rs ! j) (T ! j) usr' orig' served))"

lemma spared_nth: "spared x rs uid \<Longrightarrow> i < length rs \<Longrightarrow> spared x [rs ! i] uid"
  by (simp add: spared_def list_all_length)

lemma spared_step: "spared x rs uid \<Longrightarrow> spared y [r] uid \<Longrightarrow> spared y rs uid"
  by (simp add: spared_def)

context url_storage
begin

text \<open>A step leaves the live entries of spared users as they are.\<close>

lemma tstep_keeps:
  assumes "tstep parse st svc t x = Some (t', y)" and "ok (sto x)" and "follows parse svc r t"
  shows "ok (sto y) \<and> (spared x [r] uid \<longrightarrow> spared y [r] uid \<and>
    (\<forall>k en. view (sto x) k = Some en \<longrightarrow> \<not> e_deleted en \<longrightarrow> e_user en = uid \<longrightarrow> view (sto y) k = Some en))"
proof -
  have one: ?thesis if "serve parse st svc r x = Some y"
    using serve_sto_ok [OF that assms(2)] serve_requested [OF that] unfolding spared_def by auto
  show ?thesis
  proof (cases t)
    case (Ready r')
    with assms(1,3) tstep_serve [of parse st svc r x t' y] one assms(2) show ?thesis
      by (cases r) auto
  next
    case (Storing usr u i p e)
    show ?thesis
    proof (cases i)
      case 0
      with Storing assms show ?thesis by (simp add: spared_def)
    next
      case (Suc j)
      with Storing assms(1) have "store_round st svc usr u j x = (t', y)" by simp
      from store_round_result [OF this assms(2)] show ?thesis
        by (cases "\<exists>served. t' = Done (AShorten (served, None))") (auto simp: spared_def fun_upd_def split: if_splits)
    qed
  next
    case (Pushing now usr ss)
    show ?thesis
    proof (cases ss)
      case Nil
      with Pushing assms show ?thesis by (simp add: spared_def)
    next
      case (Cons s ss')
      with Pushing assms(1) obtain e f where
        p: "Push (queue x) \<lparr>Short = s, Orig = [], UserID = ID usr, TS = now\<rparr> = Some (e, f)" "y = x\<lparr>queue := f\<rparr>"
        by (auto split: option.splits)
      from Pushing Cons assms(3) have "deletes s (ID usr) r" by auto
      then have "\<not> requested (buf f) k uid" if "spared x [r] uid" for k
        using that Push_buf [OF p(1)] by (fastforce simp: spared_def requested_def)
      then show ?thesis using p(2) assms(2) by (simp add: spared_def)
    qed
  qed (use assms in simp)
qed

text \<open>A step leaves every path that was given out in the storage.\<close>

lemma tstep_dom:
  assumes "tstep parse st svc t x = Some (t', y)" and "ok (sto x)" and "view (sto x) k \<noteq> None"
  shows "view (sto y) k \<noteq> None"
proof (cases t)
  case (Ready r)
  with assms tstep_serve [of parse st svc r x t' y] serve_dom [of parse svc r x y k] show ?thesis
    by (cases r) auto
next
  case (Storing usr u i p e)
  show ?thesis
  proof (cases i)
    case 0
    with Storing assms show ?thesis by simp
  next
    case (Suc j)
    with Storing assms(1) have "store_round st svc usr u j x = (t', y)" by simp
    from store_round_result [OF this assms(2)] assms(3) show ?thesis
      by (cases "\<exists>served. t' = Done (AShorten (served, None))") (auto simp: fun_upd_def split: if_splits)
  qed
next
  case (Pushing now usr ss)
  with assms show ?thesis by (cases ss) (auto split: option.splits)
qed (use assms in simp)

end

text \<open>
  A step that ends a \<open>Shorten\<close> or a \<open>ShortenBatch\<close> without an error takes paths that were never given
  out; the storage must keep the paths of a batch apart.
\<close>

context batch_storage
begin

lemma store_round_new:
  assumes "store_round st svc usr u i x = (Done (AShorten (served, None)), y)" and "ok (sto x)"
  shows "\<exists>p. served = getServedURL svc p \<and> random_path (pathLength svc) p \<and> view (sto x) p = None \<and>
    view (sto y) p = Some (new_entry usr u)"
proof -
  obtain q r1 where q: "RandString (pathLength svc) (rnd x) = (q, r1)"
    by (cases "RandString (pathLength svc) (rnd x)")
  obtain sp er s1 where s1: "st_Store st (sto x) \<lparr>Short = q, Orig = u, UserID = ID usr, TS = 0\<rparr> False = ((sp, er), s1)"
    by (metis surj_pair)
  from assms(1) q s1 have "er = None" "served = getServedURL svc q" "y = x\<lparr>sto := s1, rnd := r1\<rparr>"
    by (auto simp: store_round_def Let_def split: option.splits if_splits)
  with store_law [OF assms(2) s1 [unfolded \<open>er = None\<close>]] store_new_law [OF assms(2) s1 [unfolded \<open>er = None\<close>]]
    random_pathI [OF q] show ?thesis by (auto simp: url_entry_def new_entry_def)
qed

lemma tstep_links:
  assumes "tstep parse st svc t x = Some (t', y)" and "ok (sto x)" and "follows parse svc q t"
    and "gives q t' usr orig served"
  shows "linked parse svc (view (sto y)) q usr orig served \<and> \<not> occupied svc (view (sto x)) served"
proof (cases t)
  case (Ready r)
  with assms(3) have r: "r = q" by simp
  from assms(4) show ?thesis
  proof (cases rule: gives_cases)
    case shorten
    with Ready r assms(1) show ?thesis by (auto simp: shorten_start_def split: sum.splits if_splits)
  next
    case (batch b res k)
    with Ready r assms(1) have "ShortenBatch st svc usr b (sto x) (rnd x) = ((res, None), sto y, rnd y)"
      by (auto split: prod.splits)
    from ShortenBatch_links [OF this assms(2)] batch(3) obtain p where "SShort (res ! k) = getServedURL svc p"
        "random_path (pathLength svc) p" "view (sto x) p = None" "view (sto y) p = Some (new_entry usr (BURL (b ! k)))"
      by blast
    with batch show ?thesis by (auto simp: linked_def occupied_def)
  qed
next
  case (Storing usr' u i p e)
  with assms(3) obtain url pu where pu: "q = ReqShorten usr' url" "parse url = Inr pu" "u = url_String pu" "i = 0 \<longrightarrow> e \<noteq> None"
    by auto
  with assms(4) have t': "usr' = usr" "url = orig" "t' = Done (AShorten (served, None))" by simp_all
  with Storing assms(1) pu obtain j where "i = Suc j" by (cases i) auto
  with Storing assms(1) pu t' have "store_round st svc usr (url_String pu) j x = (Done (AShorten (served, None)), y)"
    by simp
  from store_round_new [OF this assms(2)] pu(1,2) t' show ?thesis by (auto simp: linked_def occupied_def)
next
  case (Pushing now v ss)
  with assms show ?thesis by auto
qed (use assms in simp)

text \<open>A step of one goroutine keeps the links of the others, and they are not answered again.\<close>

lemma links_hold_step:
  assumes "links_hold parse svc rs U T (view (sto x))" and "ok (sto x)" and "\<forall>uid \<in> U. spared x rs uid"
    and "i < length rs" and "tstep parse st svc (T ! i) x = Some (t, y)"
  shows "links_hold parse svc rs U (T[i := t]) (view (sto y)) \<and> ok (sto y) \<and> (\<forall>uid \<in> U. spared y rs uid)"
proof -
  have len: "length T = length rs" and fo: "\<And>j. j < length rs \<Longrightarrow> follows parse svc (rs ! j) (T ! j)"
    using assms(1) by (auto simp: links_hold_def)
  note keeps = tstep_keeps [OF assms(5,2) fo [OF assms(4)]]
  have sp: "\<forall>uid \<in> U. spared y rs uid"
    using keeps assms(3,4) spared_nth spared_step by metis
  have still: "linked parse svc (view (sto y)) q usr orig served"
    if "linked parse svc (view (sto x)) q usr orig served" "ID usr \<in> U" for q usr orig served
  proof -
    have "spared x [rs ! i] (ID usr)" using assms(3,4) that(2) spared_nth by blast
    then show ?thesis using that(1) keeps [of "ID usr"] unfolding linked_def by fastforce
  qed
  have kept: "occupied svc (view (sto y)) served" if "occupied svc (view (sto x)) served" for served
    using that tstep_dom [OF assms(5,2)] unfolding occupied_def by blast
  note fresh = tstep_links [OF assms(5,2) fo [OF assms(4)]]
  have old: "occupied svc (view (sto x)) served \<and> (ID usr \<in> U \<longrightarrow> linked parse svc (view (sto x)) (rs ! j) usr orig served) \<and>
      (\<forall>k < length rs. \<forall>usr' orig'. k \<noteq> j \<longrightarrow> \<not> gives (rs ! k) (T ! k) usr' orig' served)"
    if "j < length rs" "gives (rs ! j) (T ! j) usr orig served" for j usr orig served
    using assms(1) that unfolding links_hold_def by blast
  have "follows parse svc (rs ! j) (T[i := t] ! j)" if "j < length rs" for j
    using tstep_follows [OF assms(5) fo [OF assms(4)]] fo that len by (cases "j = i") simp_all
  moreover have "occupied svc (view (sto y)) served \<and> (ID usr \<in> U \<longrightarrow> linked parse svc (view (sto y)) (rs ! j) usr orig served)"
    if "j < length rs" "gives (rs ! j) (T[i := t] ! j) usr orig served" for j usr orig served
  proof (cases "j = i")
    case True
    with that len fresh [of usr orig served] linked_occupied show ?thesis by auto
  next
    case False
    then have "gives (rs ! j) (T ! j) usr orig served" using that(2) by simp
    from old [OF that(1) this] still kept show ?thesis by blast
  qed
  moreover have "\<not> gives (rs ! k) (T[i := t] ! k) usr' orig' served"
    if "j < length rs" "gives (rs ! j) (T[i := t] ! j) usr orig served" "k < length rs" "k \<noteq> j"
    for j k usr usr' orig orig' served
  proof
    assume k: "gives (rs ! k) (T[i := t] ! k) usr' orig' served"
    consider "j = i" | "k = i" | "j \<noteq> i" "k \<noteq> i" by blast
    then show False
    proof cases
      case 1
      with that k len have "gives (rs ! k) (T ! k) usr' orig' served" "gives (rs ! i) t usr orig served" by auto
      with old [OF that(3)] fresh show False by blast
    next
      case 2
      with that k len have "gives (rs ! j) (T ! j) usr orig served" "gives (rs ! i) t usr' orig' served" by auto
      with old [OF that(1)] fresh show False by blast
    next
      case 3
      with that k have "gives (rs ! j) (T ! j) usr orig served" "gives (rs ! k) (T ! k) usr' orig' served" by auto
      with old [OF that(1)] that(3,4) show False by blast
    qed
  qed
  moreover have "length (T[i := t]) = length rs" using len by simp
  ultimately have "links_hold parse svc rs U (T[i := t]) (view (sto y))"
    unfolding links_hold_def by blast
  with keeps sp show ?thesis by blast
qed

lemma links_hold_run:
  assumes "crun parse st svc sched T x = Some (T', y)" and "links_hold parse svc rs U T (view (sto x))"
    and "ok (sto x)" and "\<forall>uid \<in> U. spared x rs uid"
  shows "links_hold parse svc rs U T' (view (sto y)) \<and> ok (sto y)"
  using assms
proof (induction sched arbitrary: T x)
  case Nil
  then show ?case by simp
next
  case (Cons i sched)
  then obtain t z where t: "i < length T" "tstep parse st svc (T ! i) x = Some (t, z)"
      "crun parse st svc sched (T[i := t]) z = Some (T', y)"
    by (auto split: if_splits option.splits)
  have "i < length rs" using t(1) Cons.prems(2) by (simp add: links_hold_def)
  from links_hold_step [OF Cons.prems(2-4) this t(2)] Cons.IH [OF t(3)] show ?case by blast
qed

lemma concurrent_links_hold:
  assumes "crun parse st svc sched (map Ready rs) x = Some (T, y)" and "ok (sto x)"
    and "i < length rs" and "gives (rs ! i) (T ! i) usr orig served" and "spared x rs (ID usr)"
  shows "(\<exists>url p s. stored_url parse (rs ! i) orig = Some url \<and> served = getServedURL svc p \<and>
      Resolve st (CHR ''/'' # p) (sto y) = Ret ((url, None), s)) \<and>
    (\<forall>j < length rs. \<forall>usr' orig'. j \<noteq> i \<longrightarrow> \<not> gives (rs ! j) (T ! j) usr' orig' served)"
proof -
  let ?U = "{uid. spared x rs uid}"
  have "\<not> gives (rs ! j) (Ready (rs ! j)) usr' orig' sv" for j usr' orig' sv by (auto elim: gives_cases)
  then have "links_hold parse svc rs ?U (map Ready rs) (view (sto x))" by (simp add: links_hold_def)
  from links_hold_run [OF assms(1) this assms(2)]
  have h: "links_hold parse svc rs ?U T (view (sto y))" "ok (sto y)" by auto
  with assms(3-5) have "linked parse svc (view (sto y)) (rs ! i) usr orig served"
    "\<forall>j < length rs. \<forall>usr' orig'. j \<noteq> i \<longrightarrow> \<not> gives (rs ! j) (T ! j) usr' orig' served"
    unfolding links_hold_def by blast+
  then show ?thesis using resolve_result [OF h(2)] random_path_valid unfolding linked_def by fastforce
qed

end

section \<open>Properties\<close>

text \<open>The goroutine of a request, run alone, does what the request does: it reaches the same state
  exactly when the sequential service does not panic or block, and its answer to a \<open>Shorten\<close> (within
  five steps) or a \<open>DeleteBatch\<close> is the answer of the service.\<close>

theorem alone_serves:
  "(serve parse st svc r x = Some y \<longleftrightarrow>
     (\<exists>n a. a \<noteq> APanic \<and> alone parse st svc n (Ready r) x = Some (Done a, y))) \<and>
   (\<exists>n \<le> 5. alone parse st svc n (Ready (ReqShorten usr u)) x =
      (case Shorten parse st svc usr u (sto x) (rnd x) of
         (a, s', r') \<Rightarrow> Some (Done (AShorten a), x\<lparr>sto := s', rnd := r'\<rparr>))) \<and>
   (case DeleteBatch now usr shorts (queue x) of
      None \<Rightarrow> \<forall>n a z. alone parse st svc n (Ready (ReqDelete now usr shorts)) x \<noteq> Some (Done a, z)
    | Some (e, f) \<Rightarrow> \<exists>n. alone parse st svc n (Ready (ReqDelete now usr shorts)) x =
        Some (Done (ADelete e), x\<lparr>queue := f\<rparr>))"
proof (intro conjI)
  show "serve parse st svc r x = Some y \<longleftrightarrow>
     (\<exists>n a. a \<noteq> APanic \<and> alone parse st svc n (Ready r) x = Some (Done a, y))"
  proof -
    have run: "serve parse st svc r x = Some y \<longleftrightarrow> (\<exists>n a. a \<noteq> APanic \<and> alone parse st svc n (Ready r) x = Some (Done a, y))"
      if "alone parse st svc m (Ready r) x = Some (Done b, z)" "b = APanic \<and> serve parse st svc r x = None \<or>
        b \<noteq> APanic \<and> serve parse st svc r x = Some z" for m b z
      using that alone_det [OF that(1)] by (metis option.distinct(1) option.inject)
    have one: ?thesis if "\<forall>usr u. r \<noteq> ReqShorten usr u" "\<forall>now usr ss. r \<noteq> ReqDelete now usr ss"
    proof -
      obtain t z where t: "tstep parse st svc (Ready r) x = Some (t, z)" using tstep_ready by blast
      from tstep_serve [OF t that] obtain a where "t = Done a" "a = APanic \<and> serve parse st svc r x = None \<or>
          a \<noteq> APanic \<and> serve parse st svc r x = Some z" by blast
      then show ?thesis using run [of "Suc 0" a z] t by simp
    qed
    show ?thesis
    proof (cases r)
      case (ReqShorten v w)
      obtain a s' r' where s: "Shorten parse st svc v w (sto x) (rnd x) = (a, s', r')" by (metis surj_pair)
      with alone_shorten [OF s] ReqShorten show ?thesis using run by auto
    next
      case (ReqDelete ts v ss)
      show ?thesis
      proof (cases "DeleteBatch ts v ss (queue x)")
        case None
        with ReqDelete show ?thesis
          using alone_delete [where now = ts and usr = v and shorts = ss and x = x and parse = parse and st = st and svc = svc]
          by simp
      next
        case (Some ef)
        then obtain e f where ef: "DeleteBatch ts v ss (queue x) = Some (e, f)" by (metis surj_pair)
        with alone_delete [where now = ts and usr = v and shorts = ss and x = x and parse = parse and st = st and svc = svc]
        obtain n where "alone parse st svc n (Ready (ReqDelete ts v ss)) x = Some (Done (ADelete e), x\<lparr>queue := f\<rparr>)"
          by auto
        with ReqDelete ef run show ?thesis by simp
      qed
    qed (use one in auto)
  qed
next
  show "\<exists>n \<le> 5. alone parse st svc n (Ready (ReqShorten usr u)) x =
      (case Shorten parse st svc usr u (sto x) (rnd x) of
         (a, s', r') \<Rightarrow> Some (Done (AShorten a), x\<lparr>sto := s', rnd := r'\<rparr>))"
    using alone_shorten [of parse st svc usr u x] by (cases "Shorten parse st svc usr u (sto x) (rnd x)") auto
qed (rule alone_delete)

text \<open>Requests served at the same time on a database do not spoil each other's links: whatever the
  schedule of the goroutines, a short url that a finished \<open>Shorten\<close> or \<open>ShortenBatch\<close> gives a user for
  whom nobody asks for deletions resolves to its url, and no other of them gives the same.\<close>

theorem concurrent_links:
  assumes "pgx_pool pool tbl up" and "up (pool_st (sto x))"
    and "crun parse (database_storage pool) svc sched (map Ready rs) x = Some (T, y)"
    and "i < length rs" and "gives (rs ! i) (T ! i) usr orig served" and "spared x rs (ID usr)"
  shows "(\<exists>url p s. stored_url parse (rs ! i) orig = Some url \<and> served = getServedURL svc p \<and>
      Resolve (database_storage pool) (CHR ''/'' # p) (sto y) = Ret ((url, None), s)) \<and>
    (\<forall>j < length rs. \<forall>usr' orig'. j \<noteq> i \<longrightarrow> \<not> gives (rs ! j) (T ! j) usr' orig' served)"
proof -
  have "database_ok up (sto x)" using assms(2) by (simp add: database_ok_def)
  from batch_storage.concurrent_links_hold [OF pgx_pool.is_batch_storage [OF assms(1)] assms(3) this assms(4-6)]
  show ?thesis .
qed

text \<open>Two users shorten at the same time while a third one queues deletions; the second draws the path
  of the first and tries again.\<close>

definition sample_race :: "req list" where
  "sample_race = [ReqShorten owner_user ''http://a.b'', ReqShorten other_user ''http://c.d'',
     ReqDelete 7 \<lparr>ID = ''u3'', is_new = False\<rparr> [''01''], FlushQueue]"

definition sample_schedule :: "nat list" where
  "sample_schedule = [0, 1, 2, 0, 2, 1, 3, 1]"

theorem concurrent_links_witness:
  "\<exists>T y s. crun sample_parse (database_storage sql_pool) sample_service sample_schedule (map Ready sample_race)
      ((sample_sys (sample_db []))\<lparr>rnd := (\<lambda>i. if i < 4 then i mod 2 else i)\<rparr>) = Some (T, y) \<and>
    T ! 1 = Done (AShorten (''http://h/45'', None)) \<and> T ! 0 \<noteq> T ! 1 \<and>
    Resolve (database_storage sql_pool) ''/45'' (sto y) = Ret ((''http://c.d'', None), s)"
proof -
  let ?x = "(sample_sys (sample_db []))\<lparr>rnd := (\<lambda>i. if i < 4 then i mod 2 else i)\<rparr>"
  let ?run = "crun sample_parse (database_storage sql_pool) sample_service sample_schedule (map Ready sample_race) ?x"
  have "map_option (\<lambda>(T, y). (T ! 0, T ! 1)) ?run =
      Some (Done (AShorten (''http://h/01'', None)), Done (AShorten (''http://h/45'', None)))" by code_simp
  then obtain z where z: "?run = Some z"
      "(\<lambda>(T, y). (T ! 0, T ! 1)) z = (Done (AShorten (''http://h/01'', None)), Done (AShorten (''http://h/45'', None)))"
    unfolding map_option_eq_Some by blast
  obtain T y where Ty: "z = (T, y)" by (cases z)
  note T = z(1) [unfolded Ty]
  have t1: "T ! 1 = Done (AShorten (''http://h/45'', None))" "T ! 0 = Done (AShorten (''http://h/01'', None))"
    using z(2) unfolding Ty by simp_all
  have sp: "spared ?x sample_race (ID other_user)"
    by (simp add: spared_def sample_race_def other_user_def)
  have "gives (sample_race ! 1) (T ! 1) other_user ''http://c.d'' ''http://h/45''" using t1 by (simp add: sample_race_def)
  with concurrent_links [OF pg.pgx_pool_axioms _ T _ _ sp, of 1]
  have "\<exists>url p s. stored_url sample_parse (sample_race ! 1) ''http://c.d'' = Some url \<and>
      ''http://h/45'' = getServedURL sample_service p \<and>
      Resolve (database_storage sql_pool) (CHR ''/'' # p) (sto y) = Ret ((url, None), s)"
    by (simp add: sample_race_def table_inv_def)
  then obtain s where "Resolve (database_storage sql_pool) ''/45'' (sto y) = Ret ((''http://c.d'', None), s)"
    by (auto simp: sample_race_def sample_parse_def sample_libs_def getServedURL_def sample_service_def)
  with T t1 show ?thesis by auto
qed

end
