(* ===== verification/Goroutines.thy ===== *)
theory Goroutines
  imports BatchRun Concurrent
begin

text \<open>
  The requests of both servers served at the same time. \<open>net/http\<close> and \<open>grpc\<close> run every request in
  a goroutine of its own, beside the one of the flusher. Such a goroutine touches shared state where it
  draws a request id, where it creates a user, and in the calls of the services, whose own steps are
  those of the theory \<open>Concurrent\<close>. The handlers of \<open>internal/http/server/handlers.go\<close> and
  \<open>internal/grpc/server/handlers.go\<close> are therefore cut in two: what they do up to their call of a
  service, and what they make of its results. The first property shows that the two parts are the
  handlers of the theories \<open>HttpServer\<close> and \<open>Grpc\<close>.
\<close>

section \<open>The http handlers, cut at their call of a service\<close>

text \<open>What stands before a handler: a session, a trusted address, or nothing.\<close>

datatype access = Session | Trusted | Open

text \<open>
  A handler up to its call: what it has written when it makes no call, or the call; and what it
  writes for the results of the call.
\<close>

record half =
  h_access :: access
  h_before :: "hreq \<Rightarrow> hout + req"
  h_after :: "answer \<Rightarrow> hout"

definition crashed :: hout where
  "crashed = \<lparr>acts = [], panicked = True\<rparr>"

definition Ping_before :: "hreq \<Rightarrow> hout + req" where
  "Ping_before r = Inr ReqPing"

fun Ping_after :: "answer \<Rightarrow> hout" where
  "Ping_after (APing (Some e)) = finished [WriteHeader 500]"
| "Ping_after (APing None) = finished [WriteHeader 200]"
| "Ping_after _ = crashed"

definition Stats_before :: "hreq \<Rightarrow> hout + req" where
  "Stats_before r = (case GetRequestID (r_ctx r) of
     None \<Rightarrow> Inl (finished [WriteHeader 500]) | Some reqID \<Rightarrow> Inr ReqStats)"

fun Stats_after :: "httplibs \<Rightarrow> answer \<Rightarrow> hout" where
  "Stats_after L (AStats (stats, err)) = (case marshalStats L stats of
     Inl e \<Rightarrow> finished [WriteHeader 500]
   | Inr b \<Rightarrow> finished [WriteHeader 200, WriteBody b])"
| "Stats_after L _ = crashed"

definition Resolve_before :: "hreq \<Rightarrow> hout + req" where
  "Resolve_before r = (case GetRequestID (r_ctx r) of
     None \<Rightarrow> Inl (finished [WriteHeader 500]) | Some reqID \<Rightarrow> Inr (ReqResolve (r_path r)))"

fun Resolve_after :: "answer \<Rightarrow> hout" where
  "Resolve_after (AResolve (redirect, Some err)) = finished [WriteHeader
     (if errors_is err (Sentinel ErrInvalidPath) then 400
      else if errors_is err (Sentinel ErrNotFound) then 404
      else if errors_is err (Sentinel ErrDeleted) then 410
      else 500)]"
| "Resolve_after (AResolve (redirect, None)) = finished [SetHeader ''Location'' redirect, WriteHeader 307]"
| "Resolve_after _ = crashed"

definition Shorten_before :: "httplibs \<Rightarrow> hreq \<Rightarrow> hout + req" where
  "Shorten_before L r = (case GetUserAndReqID (r_ctx r) of
     Inl e \<Rightarrow> Inl (finished [WriteHeader 500])
   | Inr (u, reqID) \<Rightarrow>
       if r_head r ''Content-Type'' \<noteq> ''application/json'' then Inl (finished [WriteHeader 400])
       else (case readBody L r of
         Inl e \<Rightarrow> Inl (finished [])
       | Inr bdy \<Rightarrow> (case unmarshalShortenRequest L bdy of
           Inl e \<Rightarrow> Inl (finished [WriteHeader 400])
         | Inr shortenReq \<Rightarrow> Inr (ReqShorten u (RequestURL shortenReq)))))"

fun Shorten_after :: "httplibs \<Rightarrow> answer \<Rightarrow> hout" where
  "Shorten_after L (AShorten (result, err)) =
     (let (respStatus, go_on) = shorten_status err in
      if \<not> go_on then finished [WriteHeader respStatus]
      else (case marshalShortenResponse L \<lparr>Result = result\<rparr> of
          Inl e \<Rightarrow> finished [WriteHeader 500]
        | Inr b \<Rightarrow> json_reply respStatus b))"
| "Shorten_after L _ = crashed"

definition ShortenPlain_before :: "httplibs \<Rightarrow> hreq \<Rightarrow> hout + req" where
  "ShortenPlain_before L r = (case GetUserAndReqID (r_ctx r) of
     Inl e \<Rightarrow> Inl (finished [WriteHeader 500])
   | Inr (u, reqID) \<Rightarrow> (case readBody L r of
       Inl e \<Rightarrow> Inl (finished [])
     | Inr bdy \<Rightarrow> Inr (ReqShorten u bdy)))"

fun ShortenPlain_after :: "answer \<Rightarrow> hout" where
  "ShortenPlain_after (AShorten (result, err)) =
     (let (respStatus, go_on) = shorten_status err in
      if \<not> go_on then finished [WriteHeader respStatus]
      else finished [SetHeader ''Content-Type'' ''text/plain'', WriteHeader respStatus, WriteBody result])"
| "ShortenPlain_after _ = crashed"

definition GetAll_before :: "hreq \<Rightarrow> hout + req" where
  "GetAll_before r = (case GetUserAndReqID (r_ctx r) of
     Inl e \<Rightarrow> Inl (finished [WriteHeader 500]) | Inr (u, reqID) \<Rightarrow> Inr (ReqGetAll u))"

fun GetAll_after :: "httplibs \<Rightarrow> answer \<Rightarrow> hout" where
  "GetAll_after L (AList (urls, Some err)) = finished [WriteHeader
     (if errors_is err (Sentinel ErrNotFound) then 204
      else if errors_is err (Sentinel ErrUnauthorized) then 401
      else 500)]"
| "GetAll_after L (AList (urls, None)) = (case marshalURLs L urls of
     Inl e \<Rightarrow> finished [WriteHeader 500] | Inr b \<Rightarrow> json_reply 200 b)"
| "GetAll_after L _ = crashed"

definition ShortenBatch_before :: "httplibs \<Rightarrow> hreq \<Rightarrow> hout + req" where
  "ShortenBatch_before L r = (case GetUserAndReqID (r_ctx r) of
     Inl e \<Rightarrow> Inl (finished [WriteHeader 500])
   | Inr (u, reqID) \<Rightarrow>
       if r_head r ''Content-Type'' \<noteq> ''application/json'' then Inl (finished [WriteHeader 400])
       else (case readBody L r of
         Inl e \<Rightarrow> Inl (finished [])
       | Inr bdy \<Rightarrow> (case unmarshalBatchURLs L bdy of
           Inl e \<Rightarrow> Inl (finished [WriteHeader 400])
         | Inr batch \<Rightarrow> Inr (ReqBatch u batch))))"

fun ShortenBatch_after :: "httplibs \<Rightarrow> answer \<Rightarrow> hout" where
  "ShortenBatch_after L (ABatch (shortURLs, Some err)) = finished [WriteHeader 500]"
| "ShortenBatch_after L (ABatch (shortURLs, None)) = (case marshalBatchShortened L shortURLs of
     Inl e \<Rightarrow> finished [WriteHeader 500] | Inr b \<Rightarrow> json_reply 201 b)"
| "ShortenBatch_after L _ = crashed"

definition DeleteBatch_before :: "httplibs \<Rightarrow> hreq \<Rightarrow> hout + req" where
  "DeleteBatch_before L r = (case GetUserAndReqID (r_ctx r) of
     Inl e \<Rightarrow> Inl (finished [WriteHeader 500])
   | Inr (u, reqID) \<Rightarrow>
       if r_head r ''Content-Type'' \<noteq> ''application/json'' then Inl (finished [WriteHeader 400])
       else (case readBody L r of
         Inl e \<Rightarrow> Inl (finished [])
       | Inr bdy \<Rightarrow> (case unmarshalStrings L bdy of
           Inl e \<Rightarrow> Inl (finished [])
         | Inr shorts \<Rightarrow> Inr (ReqDelete (r_now r div 1000) u shorts))))"

fun DeleteBatch_after :: "answer \<Rightarrow> hout" where
  "DeleteBatch_after (ADelete oe) = finished ((case oe of
       None \<Rightarrow> []
     | Some err \<Rightarrow> [WriteHeader
         (if errors_is err (Sentinel ErrUnauthorized) then 401
          else if errors_is err (Sentinel ErrEmptyBatch) then 400
          else 500)]) @ [WriteHeader 202])"
| "DeleteBatch_after _ = crashed"

text \<open>The handlers in the order of \<^const>\<open>routes\<close>.\<close>

definition halves :: "httplibs \<Rightarrow> half list" where
  "halves L = [
     \<lparr>h_access = Session, h_before = GetAll_before, h_after = GetAll_after L\<rparr>,
     \<lparr>h_access = Session, h_before = DeleteBatch_before L, h_after = DeleteBatch_after\<rparr>,
     \<lparr>h_access = Session, h_before = Shorten_before L, h_after = Shorten_after L\<rparr>,
     \<lparr>h_access = Session, h_before = ShortenBatch_before L, h_after = ShortenBatch_after L\<rparr>,
     \<lparr>h_access = Session, h_before = ShortenPlain_before L, h_after = ShortenPlain_after\<rparr>,
     \<lparr>h_access = Open, h_before = Resolve_before, h_after = Resolve_after\<rparr>,
     \<lparr>h_access = Open, h_before = Ping_before, h_after = Ping_after\<rparr>,
     \<lparr>h_access = Trusted, h_before = Stats_before, h_after = Stats_after L\<rparr>]"

section \<open>The grpc handlers, cut in the same way\<close>

definition for_user :: "gcall \<Rightarrow> (user \<Rightarrow> req) \<Rightarrow> gout + req" where
  "for_user c q = (case GetUserAndReqID (g_ctx c) of
     Inl e \<Rightarrow> Inl (gerror Internal ErrRequestCtx) | Inr (u, reqID) \<Rightarrow> Inr (q u))"

definition grpc_before :: "gcall \<Rightarrow> gout + req" where
  "grpc_before c = (case g_req c of
     StatsRequest \<Rightarrow> Inr ReqStats
   | ResolveRequest p \<Rightarrow> (case GetRequestID (g_ctx c) of
       None \<Rightarrow> Inl (gerror Internal ErrRequestCtx) | Some reqID \<Rightarrow> Inr (ReqResolve p))
   | ShortenRequest url \<Rightarrow> for_user c (\<lambda>u. ReqShorten u url)
   | ShortenBatchRequest b \<Rightarrow> for_user c (\<lambda>u. ReqBatch u (map (\<lambda>(i, url). \<lparr>BID = i, BURL = url\<rparr>) b))
   | DeleteBatchRequest hs \<Rightarrow> for_user c (\<lambda>u. ReqDelete (g_now c div 1000) u hs)
   | GetAllRequest \<Rightarrow> for_user c ReqGetAll)"

fun grpc_after :: "answer \<Rightarrow> gout" where
  "grpc_after (AStats (res, Some err)) = gerror Internal ''internal error occured''"
| "grpc_after (AStats (Some resp, None)) = gout.Done (Some (StatsResponse (URLs resp) (Users resp))) None"
| "grpc_after (AResolve (result, Some err)) =
     (if errors_is err (Sentinel ErrInvalidPath) then gerror InvalidArgument ''invalid path''
      else if errors_is err (Sentinel ErrNotFound) then gerror NotFound ''path is not found''
      else if errors_is err (Sentinel ErrDeleted) then gerror FailedPrecondition ''path is deleted''
      else gerror Internal ''internal error occurred'')"
| "grpc_after (AResolve (result, None)) = gout.Done (Some (ResolveResponse result)) None"
| "grpc_after (AShorten (result, None)) = gout.Done (Some (ShortenResponse result)) None"
| "grpc_after (AShorten (result, Some err)) =
     (if errors_is (Sentinel ErrInvalidURL) err \<or> errors_is (Sentinel ErrUnsupportedURLScheme) err
      then gerror InvalidArgument (case err of Sentinel s \<Rightarrow> sentinel_text s | _ \<Rightarrow> [])
      else if errors_is (Sentinel ErrConflict) err
      then gout.Done (Some (ShortenResponse result)) (Some (FailedPrecondition, ''url conflict''))
      else gerror Internal ''internal error'')"
| "grpc_after (ABatch (shortURLs, Some err)) = gerror Internal ''internal error''"
| "grpc_after (ABatch (shortURLs, None)) =
     gout.Done (Some (ShortenBatchResponse (map (\<lambda>x. (SID x, SShort x)) shortURLs))) None"
| "grpc_after (ADelete (Some err)) =
     (if errors_is (Sentinel ErrUnauthorized) err then gerror Unauthenticated ''unauthorized''
      else if errors_is (Sentinel ErrEmptyBatch) err then gerror InvalidArgument ''empty batch''
      else gerror Internal ''delete error'')"
| "grpc_after (ADelete None) = gerror OK ''accepted''"
| "grpc_after (AList (urls, Some err)) =
     (if errors_is err (Sentinel ErrNotFound) then gerror NotFound ''no urls''
      else gerror Internal ''internal error'')"
| "grpc_after (AList (urls, None)) =
     gout.Done (Some (GetAllResponse (map (\<lambda>v. (Short v, Orig v)) urls))) None"
| "grpc_after _ = Panicked"

section \<open>The goroutines\<close>

text \<open>
  Where the goroutine of a request stands: at its arrival; with its request id; in the call of a
  service, with the request as the handler sees it (for http the handler and the cookie that was set,
  for grpc the token that was sent) and the goroutine of the call; or done. The flusher never ends.
\<close>

datatype goroutine =
    HttpArrived hreq
  | HttpRouted hreq
  | HttpCalling nat hreq "wact list" thread
  | HttpDone hreq response
  | GrpcArrived gcall
  | GrpcChecked gcall
  | GrpcCalling gcall "string list" thread
  | GrpcDone gcall gout "string list"
  | FlusherLoop

definition respond :: "'s Server \<Rightarrow> hreq \<Rightarrow> hout \<Rightarrow> goroutine" where
  "respond srv r out = HttpDone r (run_stack (compressor (libs srv)) (r_head r ''Accept-Encoding'') out)"

text \<open>The handler \<open>i\<close> from its start, behind the headers \<open>ck\<close> that were set before it.\<close>

definition http_start :: "'s Server \<Rightarrow> nat \<Rightarrow> wact list \<Rightarrow> hreq \<Rightarrow> goroutine" where
  "http_start srv i ck r = (case h_before (halves (libs srv) ! i) r of
     Inl out \<Rightarrow> respond srv r (out\<lparr>acts := ck @ acts out\<rparr>)
   | Inr q \<Rightarrow> HttpCalling i r ck (Ready q))"

text \<open>\<^const>\<open>auth_mw\<close> before its handler.\<close>

definition with_session ::
  "'s Server \<Rightarrow> (wact list \<Rightarrow> hreq \<Rightarrow> goroutine) \<Rightarrow> hreq \<Rightarrow> 's world \<Rightarrow> goroutine \<times> 's world" where
  "with_session srv k r w = (case GetRequestID (r_ctx r) of
     None \<Rightarrow> (respond srv r (finished [WriteHeader 500]), w)
   | Some requestID \<Rightarrow> (case createOrParseUserFromRequest srv r (uuids w) of
       (Inl e, g) \<Rightarrow> (respond srv r (finished [WriteHeader 500]), w\<lparr>uuids := g\<rparr>)
     | (Inr (u, token), g) \<Rightarrow>
         (k (setCookie srv token) (r\<lparr>r_ctx := SetUserContext (r_ctx r) u\<rparr>), w\<lparr>uuids := g\<rparr>)))"

text \<open>\<^const>\<open>route\<close> up to the call of a service.\<close>

definition http_enter :: "'s Server \<Rightarrow> hreq \<Rightarrow> 's world \<Rightarrow> goroutine \<times> 's world" where
  "http_enter srv r w = (case chiFind (libs srv) (map fst (routes srv)) (r_method r) (r_path r) of
     RouterDefault as \<Rightarrow> (respond srv r (finished as), w)
   | SubrouterDefault as \<Rightarrow> with_session srv (\<lambda>ck r. respond srv r (finished (ck @ as))) r w
   | Route i \<Rightarrow> (case h_access (halves (libs srv) ! i) of
       Session \<Rightarrow> with_session srv (http_start srv i) r w
     | Open \<Rightarrow> (http_start srv i [] r, w)
     | Trusted \<Rightarrow>
         if Subnets (filterMW srv) \<noteq> [] \<and>
           CheckRequestParams (filterMW srv) (r_remote r) (r_head r ''X-Real-IP'') (r_head r ''X-Forwarded-For'')
         then (http_start srv i [] r, w)
         else (respond srv r (finished [WriteHeader 403]), w)))"

text \<open>The end of a call inside the logging interceptor, which recovers a panic.\<close>

definition grpc_end :: "gcall \<Rightarrow> string list \<Rightarrow> gout \<Rightarrow> goroutine" where
  "grpc_end c toks out = GrpcDone c (if out = Panicked then gout.Done None None else out) toks"

definition grpc_start :: "gcall \<Rightarrow> string list \<Rightarrow> goroutine" where
  "grpc_start c toks = (case grpc_before c of Inl out \<Rightarrow> grpc_end c toks out | Inr q \<Rightarrow> GrpcCalling c toks (Ready q))"

text \<open>\<^const>\<open>auth_int\<close> before its handler.\<close>

definition grpc_session :: "'s Server \<Rightarrow> gcall \<Rightarrow> 's world \<Rightarrow> goroutine \<times> 's world" where
  "grpc_session srv c w = (case g_md c of
     None \<Rightarrow> (grpc_end c [] (gerror Internal ''cannot get metadata''), w)
   | Some md \<Rightarrow> (case createOrParseUserFromMetadata srv (g_now c) md (uuids w) of
       (Inl e, g) \<Rightarrow> (grpc_end c [] (gerror Internal ''cannot create user session''), w\<lparr>uuids := g\<rparr>)
     | (Inr (u, token), g) \<Rightarrow>
         (if token \<noteq> [] \<and> g_send_err c \<noteq> None
          then grpc_end c [] (gerror Internal ''cannot send header'')
          else grpc_start (c\<lparr>g_ctx := SetUserContext (g_ctx c) u\<rparr>) (if token \<noteq> [] then [token] else []),
          w\<lparr>uuids := g\<rparr>)))"

text \<open>\<^const>\<open>filter_int\<close> and what follows it.\<close>

definition grpc_enter :: "'s Server \<Rightarrow> gcall \<Rightarrow> 's world \<Rightarrow> goroutine \<times> 's world" where
  "grpc_enter srv c w =
     (if \<not> methodMatch filter_methods (FullMethod (g_req c)) then grpc_session srv c w
      else if Subnets (filterMW srv) = [] then (grpc_end c [] (gerror PermissionDenied ''denied''), w)
      else
        (let remoteAddr = (case g_peer c of Some a \<Rightarrow> a | None \<Rightarrow> []);
             xff = (case md_Get (g_md c) ''x-forwarded-for'' of [] \<Rightarrow> [] | v # _ \<Rightarrow> v);
             xRealIP = (case md_Get (g_md c) ''x-real-ip'' of [] \<Rightarrow> [] | v # _ \<Rightarrow> v)
         in if CheckRequestParams (filterMW srv) remoteAddr xRealIP xff then grpc_session srv c w
            else (grpc_end c [] (gerror PermissionDenied ''denied''), w)))"

definition grpc_id :: "'s Server \<Rightarrow> gcall \<Rightarrow> 's world \<Rightarrow> goroutine \<times> 's world" where
  "grpc_id srv c w =
     (case (if trustRequestID srv then getRequestIDFromContext c else None) of
        Some reqID \<Rightarrow> (GrpcChecked (c\<lparr>g_ctx := SetRequestID (g_ctx c) reqID\<rparr>), w)
      | None \<Rightarrow> (case next_src (reqids w) of
            (Inl e, g) \<Rightarrow> (GrpcDone c (gerror Internal ''cannot generate request id'') [], w\<lparr>reqids := g\<rparr>)
          | (Inr u, g) \<Rightarrow> (GrpcChecked (c\<lparr>g_ctx := SetRequestID (g_ctx c) u\<rparr>), w\<lparr>reqids := g\<rparr>)))"

text \<open>The world with the part that the services share replaced.\<close>

definition put_sys :: "'s sys \<Rightarrow> 's world \<Rightarrow> 's world" where
  "put_sys x w = w\<lparr>sto := sto x, queue := queue x, rnd := rnd x\<rparr>"

definition service_step :: "'s Server \<Rightarrow> thread \<Rightarrow> 's world \<Rightarrow> (thread \<times> 's world) option" where
  "service_step srv t w =
     map_option (\<lambda>(t', x). (t', put_sys x w))
       (tstep (parseURL (libs srv)) (storage srv) (shortenerSvc srv) t (sys.truncate w))"

text \<open>One step of a goroutine; \<^const>\<open>None\<close> when it is done, or blocked in a \<open>Push\<close>.\<close>

fun gstep :: "'s Server \<Rightarrow> goroutine \<Rightarrow> 's world \<Rightarrow> (goroutine \<times> 's world) option" where
  "gstep srv (HttpArrived r) w = Some (case requestid_mw srv r w of
     (Inl e, w1) \<Rightarrow> (HttpDone r (resp_WriteHeader new_response 500), w1)
   | (Inr r1, w1) \<Rightarrow> (HttpRouted r1, w1))"
| "gstep srv (HttpRouted r) w = Some (http_enter srv r w)"
| "gstep srv (HttpCalling i r ck (Done a)) w =
     Some (respond srv r (let out = h_after (halves (libs srv) ! i) a in out\<lparr>acts := ck @ acts out\<rparr>), w)"
| "gstep srv (HttpCalling i r ck t) w =
     map_option (\<lambda>(t', w'). (HttpCalling i r ck t', w')) (service_step srv t w)"
| "gstep srv (HttpDone r resp) w = None"
| "gstep srv (GrpcArrived c) w = Some (grpc_id srv c w)"
| "gstep srv (GrpcChecked c) w = Some (grpc_enter srv c w)"
| "gstep srv (GrpcCalling c toks (Done a)) w = Some (grpc_end c toks (grpc_after a), w)"
| "gstep srv (GrpcCalling c toks t) w =
     map_option (\<lambda>(t', w'). (GrpcCalling c toks t', w')) (service_step srv t w)"
| "gstep srv (GrpcDone c out toks) w = None"
| "gstep srv FlusherLoop w = (case flush_deletes (storage srv) (queue w) (sto w) of
     (f, s') \<Rightarrow> Some (FlusherLoop, w\<lparr>sto := s', queue := f\<rparr>))"

text \<open>A run: the schedule names the goroutine that takes the next step.\<close>

fun grun :: "'s Server \<Rightarrow> nat list \<Rightarrow> goroutine list \<Rightarrow> 's world \<Rightarrow> (goroutine list \<times> 's world) option" where
  "grun srv [] G w = Some (G, w)"
| "grun srv (i # is) G w =
     (if i < length G
      then (case gstep srv (G ! i) w of
          None \<Rightarrow> None
        | Some (g, w') \<Rightarrow> grun srv is (G[i := g]) w')
      else None)"

section \<open>A request alone\<close>

text \<open>The services in sequence, with their answers.\<close>

fun serve_answer :: "(string \<Rightarrow> gerr + purl) \<Rightarrow> 's Storage \<Rightarrow> Service \<Rightarrow> req \<Rightarrow> 's sys \<Rightarrow> (answer \<times> 's sys) option" where
  "serve_answer parse st svc (ReqShorten usr u) x = (case Shorten parse st svc usr u (sto x) (rnd x) of
     (a, s', r') \<Rightarrow> Some (AShorten a, x\<lparr>sto := s', rnd := r'\<rparr>))"
| "serve_answer parse st svc (ReqBatch usr b) x = (case ShortenBatch st svc usr b (sto x) (rnd x) of
     (a, s', r') \<Rightarrow> Some (ABatch a, x\<lparr>sto := s', rnd := r'\<rparr>))"
| "serve_answer parse st svc (ReqResolve p) x = (case Resolve st p (sto x) of
     Panic \<Rightarrow> Some (APanic, x)
   | Ret (a, s') \<Rightarrow> Some (AResolve a, x\<lparr>sto := s'\<rparr>))"
| "serve_answer parse st svc (ReqGetAll usr) x = (case GetAll st svc usr (sto x) of
     (a, s') \<Rightarrow> Some (AList a, x\<lparr>sto := s'\<rparr>))"
| "serve_answer parse st svc (ReqDelete now usr shorts) x = (case DeleteBatch now usr shorts (queue x) of
     None \<Rightarrow> None
   | Some (e, f) \<Rightarrow> Some (ADelete e, x\<lparr>queue := f\<rparr>))"
| "serve_answer parse st svc ReqPing x = (case status_Ping st (sto x) of
     (a, s') \<Rightarrow> Some (APing a, x\<lparr>sto := s'\<rparr>))"
| "serve_answer parse st svc ReqStats x = (case status_Stats st (sto x) of
     (a, s') \<Rightarrow> Some (AStats a, x\<lparr>sto := s'\<rparr>))"
| "serve_answer parse st svc FlushQueue x = (case flush_deletes st (queue x) (sto x) of
     (f, s') \<Rightarrow> Some (AFlushed, x\<lparr>sto := s', queue := f\<rparr>))"

text \<open>The goroutine of a call, alone, ends with the answer of the sequential service.\<close>

lemma alone_answer:
  "(\<exists>n. alone parse st svc n (Ready q) x = Some (Done a, y)) \<longleftrightarrow> serve_answer parse st svc q x = Some (a, y)"
proof -
  have iff: ?thesis if "alone parse st svc n (Ready q) x = Some (Done b, z)" "serve_answer parse st svc q x = Some (b, z)"
    for n b z
  proof
    assume "\<exists>n. alone parse st svc n (Ready q) x = Some (Done a, y)"
    then obtain m where "alone parse st svc m (Ready q) x = Some (Done a, y)" ..
    from alone_det [OF that(1) this] that(2) show "serve_answer parse st svc q x = Some (a, y)" by simp
  next
    assume "serve_answer parse st svc q x = Some (a, y)"
    with that show "\<exists>n. alone parse st svc n (Ready q) x = Some (Done a, y)" by (intro exI [of _ n]) simp
  qed
  have one: ?thesis if "tstep parse st svc (Ready q) x = Some (Done b, z)" "serve_answer parse st svc q x = Some (b, z)"
    for b z by (rule iff [of "Suc 0" b z]) (use that in simp_all)
  show ?thesis
  proof (cases q)
    case (ReqShorten usr u)
    obtain b s' r' where s: "Shorten parse st svc usr u (sto x) (rnd x) = (b, s', r')" by (metis surj_pair)
    with alone_shorten [OF s] ReqShorten show ?thesis using iff by auto
  next
    case (ReqDelete now usr ss)
    show ?thesis
    proof (cases "DeleteBatch now usr ss (queue x)")
      case None
      with ReqDelete show ?thesis
        using alone_delete [where now = now and usr = usr and shorts = ss and x = x and parse = parse and st = st and svc = svc]
        by simp
    next
      case (Some ef)
      then obtain e f where ef: "DeleteBatch now usr ss (queue x) = Some (e, f)" by (metis surj_pair)
      with alone_delete [where now = now and usr = usr and shorts = ss and x = x and parse = parse and st = st and svc = svc]
      obtain n where "alone parse st svc n (Ready q) x = Some (Done (ADelete e), x\<lparr>queue := f\<rparr>)"
        using ReqDelete by auto
      from iff [OF this] ef ReqDelete show ?thesis by simp
    qed
  qed (use one in \<open>auto split: prod.splits outcome.splits\<close>)
qed

lemma put_sys_simps [simp]:
  "sys.truncate (put_sys x w) = x" "put_sys x (put_sys y w) = put_sys x w" "put_sys (sys.truncate w) w = w"
  "sto (put_sys x w) = sto x" "queue (put_sys x w) = queue x" "rnd (put_sys x w) = rnd x"
  "put_sys x (w\<lparr>uuids := g\<rparr>) = (put_sys x w)\<lparr>uuids := g\<rparr>" "put_sys x (w\<lparr>reqids := g2\<rparr>) = (put_sys x w)\<lparr>reqids := g2\<rparr>"
  "reqids (put_sys x w) = reqids w" "uuids (put_sys x w) = uuids w"
  by (simp_all add: put_sys_def sys.truncate_def)

lemma put_sys_updates:
  "put_sys ((sys.truncate w)\<lparr>sto := s, rnd := r\<rparr>) w = w\<lparr>sto := s, rnd := r\<rparr>"
  "put_sys ((sys.truncate w)\<lparr>sto := s\<rparr>) w = w\<lparr>sto := s\<rparr>"
  "put_sys ((sys.truncate w)\<lparr>queue := f\<rparr>) w = w\<lparr>queue := f\<rparr>"
  by (simp_all add: put_sys_def sys.truncate_def)

text \<open>The two parts of a handler, with the answer of the service between them.\<close>

definition http_joined :: "'s Server \<Rightarrow> half \<Rightarrow> 's handler" where
  "http_joined srv hf r w = (case h_before hf r of
     Inl out \<Rightarrow> Some (out, w)
   | Inr q \<Rightarrow> map_option (\<lambda>(a, x). (h_after hf a, put_sys x w))
       (serve_answer (parseURL (libs srv)) (storage srv) (shortenerSvc srv) q (sys.truncate w)))"

definition behind :: "'s Server \<Rightarrow> access \<Rightarrow> 's handler \<Rightarrow> 's handler" where
  "behind srv ac h = (case ac of Session \<Rightarrow> auth_mw srv h | Trusted \<Rightarrow> filter_mw srv h | Open \<Rightarrow> h)"

lemmas joined_defs = http_joined_def put_sys_updates Let_def

lemma GetAll_joined: "http_joined srv \<lparr>h_access = ac, h_before = GetAll_before, h_after = GetAll_after (libs srv)\<rparr>
    = http_GetAll srv"
  by (intro ext) (auto simp: joined_defs GetAll_before_def http_GetAll_def split: sum.splits option.splits prod.splits)

lemma DeleteBatch_joined:
  "http_joined srv \<lparr>h_access = ac, h_before = DeleteBatch_before (libs srv), h_after = DeleteBatch_after\<rparr>
    = http_DeleteBatch srv"
  by (intro ext) (auto simp: joined_defs DeleteBatch_before_def http_DeleteBatch_def split: sum.splits option.splits prod.splits)

lemma Shorten_joined:
  "http_joined srv \<lparr>h_access = ac, h_before = Shorten_before (libs srv), h_after = Shorten_after (libs srv)\<rparr>
    = http_Shorten srv"
  by (intro ext) (auto simp: joined_defs Shorten_before_def http_Shorten_def split: sum.splits option.splits prod.splits)

lemma ShortenBatch_joined:
  "http_joined srv \<lparr>h_access = ac, h_before = ShortenBatch_before (libs srv), h_after = ShortenBatch_after (libs srv)\<rparr>
    = http_ShortenBatch srv"
  by (intro ext)
    (auto simp: joined_defs ShortenBatch_before_def http_ShortenBatch_def split: sum.splits option.splits prod.splits)

lemma ShortenPlain_joined:
  "http_joined srv \<lparr>h_access = ac, h_before = ShortenPlain_before (libs srv), h_after = ShortenPlain_after\<rparr>
    = http_ShortenPlain srv"
  by (intro ext)
    (auto simp: joined_defs ShortenPlain_before_def http_ShortenPlain_def split: sum.splits option.splits prod.splits)

lemma Resolve_joined:
  "http_joined srv \<lparr>h_access = ac, h_before = Resolve_before, h_after = Resolve_after\<rparr> = http_Resolve srv"
  by (intro ext) (auto simp: joined_defs Resolve_before_def http_Resolve_def crashed_def
    split: sum.splits option.splits prod.splits outcome.splits)

lemma Ping_joined:
  "http_joined srv \<lparr>h_access = ac, h_before = Ping_before, h_after = Ping_after\<rparr> = http_Ping srv"
  by (intro ext) (auto simp: joined_defs Ping_before_def http_Ping_def split: option.splits prod.splits)

lemma Stats_joined:
  "http_joined srv \<lparr>h_access = ac, h_before = Stats_before, h_after = Stats_after (libs srv)\<rparr> = http_Stats srv"
  by (intro ext) (auto simp: joined_defs Stats_before_def http_Stats_def split: sum.splits option.splits prod.splits)

lemmas handlers_joined = GetAll_joined DeleteBatch_joined Shorten_joined ShortenBatch_joined ShortenPlain_joined
  Resolve_joined Ping_joined Stats_joined

lemma halves_routes:
  assumes "i < 8"
  shows "snd (routes srv ! i) = behind srv (h_access (halves (libs srv) ! i)) (http_joined srv (halves (libs srv) ! i))"
  using less_8_cases [OF assms] by (auto simp: halves_def behind_def handlers_joined)

text \<open>The same for grpc.\<close>

definition grpc_joined :: "'s Server \<Rightarrow> 's ghandler" where
  "grpc_joined srv c w = (case grpc_before c of
     Inl out \<Rightarrow> Some (out, [], w)
   | Inr q \<Rightarrow> map_option (\<lambda>(a, x). (grpc_after a, [], put_sys x w))
       (serve_answer (parseURL (libs srv)) (storage srv) (shortenerSvc srv) q (sys.truncate w)))"

lemmas gjoined_defs = grpc_joined_def put_sys_updates Let_def grpc_handler_def grpc_before_def for_user_def

lemma grpc_handler_joined: "grpc_joined srv = grpc_handler srv"
proof (intro ext)
  fix c w
  show "grpc_joined srv c w = grpc_handler srv c w"
  proof (cases "g_req c")
    case StatsRequest
    then show ?thesis by (auto simp: gjoined_defs grpc_Stats_def split: option.splits prod.splits)
  next
    case (ResolveRequest p)
    then show ?thesis by (auto simp: gjoined_defs grpc_Resolve_def split: option.splits prod.splits outcome.splits)
  next
    case (ShortenRequest url)
    then show ?thesis by (auto simp: gjoined_defs grpc_Shorten_def split: sum.splits option.splits prod.splits)
  next
    case (ShortenBatchRequest b)
    then show ?thesis by (auto simp: gjoined_defs grpc_ShortenBatch_def split: sum.splits option.splits prod.splits)
  next
    case (DeleteBatchRequest hs)
    then show ?thesis by (auto simp: gjoined_defs grpc_DeleteBatch_def split: sum.splits option.splits prod.splits)
  next
    case GetAllRequest
    then show ?thesis by (auto simp: gjoined_defs grpc_GetAll_def split: sum.splits option.splits prod.splits)
  qed
qed

text \<open>A goroutine alone.\<close>

fun galone :: "'s Server \<Rightarrow> nat \<Rightarrow> goroutine \<Rightarrow> 's world \<Rightarrow> (goroutine \<times> 's world) option" where
  "galone srv 0 g w = Some (g, w)"
| "galone srv (Suc n) g w = (case gstep srv g w of None \<Rightarrow> None | Some (g', w') \<Rightarrow> galone srv n g' w')"

lemma galone_grun: "galone srv n g w = map_option (\<lambda>(G, w'). (G ! 0, w')) (grun srv (replicate n 0) [g] w)"
  by (induction n arbitrary: g w) (auto split: option.splits)

definition is_done :: "goroutine \<Rightarrow> bool" where
  "is_done g \<longleftrightarrow> (case g of HttpDone r resp \<Rightarrow> True | GrpcDone c out toks \<Rightarrow> True | _ \<Rightarrow> False)"

text \<open>The goroutine ends as \<open>g'\<close>.\<close>

definition ends :: "'s Server \<Rightarrow> goroutine \<Rightarrow> 's world \<Rightarrow> goroutine \<Rightarrow> 's world \<Rightarrow> bool" where
  "ends srv g w g' w' \<longleftrightarrow> is_done g' \<and> (\<exists>n. galone srv n g w = Some (g', w'))"

lemma ends_step: "\<not> is_done g \<Longrightarrow> gstep srv g w = Some (g1, w1) \<Longrightarrow> ends srv g w g' w' \<longleftrightarrow> ends srv g1 w1 g' w'"
proof -
  assume g: "\<not> is_done g" "gstep srv g w = Some (g1, w1)"
  have "galone srv n g w = Some (g', w') \<longleftrightarrow> (\<exists>m. n = Suc m \<and> galone srv m g1 w1 = Some (g', w'))" if "is_done g'" for n
    using g that by (cases n) auto
  then show ?thesis unfolding ends_def by auto
qed

lemma ends_done: "is_done g \<Longrightarrow> ends srv g w g' w' \<longleftrightarrow> g' = g \<and> w' = w"
proof -
  assume "is_done g"
  then have "gstep srv g w = None" by (cases g) (simp_all add: is_done_def)
  then have "galone srv n g w = Some (g', w') \<longleftrightarrow> n = 0 \<and> g' = g \<and> w' = w" for n by (cases n) auto
  with \<open>is_done g\<close> show ?thesis by (auto simp: ends_def)
qed

text \<open>
  A goroutine in a call of a service, as \<open>call\<close> of the goroutine of the call, which goes on to
  \<open>fin\<close> of the answer.
\<close>

lemma ends_call:
  assumes "\<And>a w. gstep srv (call (Done a)) w = Some (fin a, w)"
    and "\<And>t w. \<forall>a. t \<noteq> Done a \<Longrightarrow>
      gstep srv (call t) w = map_option (\<lambda>(t', w'). (call t', w')) (service_step srv t w)"
    and "\<And>t. \<not> is_done (call t)" and "\<And>a. is_done (fin a)"
  shows "ends srv (call t) w g' w' \<longleftrightarrow> (\<exists>n a x. alone (parseURL (libs srv)) (storage srv) (shortenerSvc srv) n t
      (sys.truncate w) = Some (Done a, x) \<and> g' = fin a \<and> w' = put_sys x w)"
proof
  assume "ends srv (call t) w g' w'"
  then obtain n where "is_done g'" "galone srv n (call t) w = Some (g', w')" by (auto simp: ends_def)
  then show "\<exists>n a x. alone (parseURL (libs srv)) (storage srv) (shortenerSvc srv) n t (sys.truncate w) = Some (Done a, x) \<and>
      g' = fin a \<and> w' = put_sys x w"
  proof (induction n arbitrary: t w)
    case 0
    with assms(3) show ?case by auto
  next
    case (Suc n)
    show ?case
    proof (cases "\<exists>a. t = Done a")
      case True
      then obtain a where a: "t = Done a" by blast
      with Suc.prems(2) assms(1) have "galone srv n (fin a) w = Some (g', w')" by simp
      then have "g' = fin a" "w' = w" using ends_done [OF assms(4), of srv a w g' w'] Suc.prems(1) by (auto simp: ends_def)
      with a show ?thesis by (intro exI [of _ 0] exI [of _ a] exI [of _ "sys.truncate w"]) simp
    next
      case False
      with Suc.prems(2) assms(2) obtain t' x where s: "tstep (parseURL (libs srv)) (storage srv) (shortenerSvc srv) t
          (sys.truncate w) = Some (t', x)" "galone srv n (call t') (put_sys x w) = Some (g', w')"
        by (auto simp: service_step_def split: option.splits)
      from Suc.IH [OF Suc.prems(1) s(2)] obtain m a y where
        "alone (parseURL (libs srv)) (storage srv) (shortenerSvc srv) m t' x = Some (Done a, y)" "g' = fin a"
        "w' = put_sys y w" by auto
      with s(1) show ?thesis by (intro exI [of _ "Suc m"] exI [of _ a] exI [of _ y]) simp
    qed
  qed
next
  assume "\<exists>n a x. alone (parseURL (libs srv)) (storage srv) (shortenerSvc srv) n t (sys.truncate w) = Some (Done a, x) \<and>
      g' = fin a \<and> w' = put_sys x w"
  then obtain n a x where "alone (parseURL (libs srv)) (storage srv) (shortenerSvc srv) n t (sys.truncate w) = Some (Done a, x)"
      "g' = fin a" "w' = put_sys x w" by blast
  then show "ends srv (call t) w g' w'"
  proof (induction n arbitrary: t w)
    case 0
    then show ?case using ends_step [OF assms(3,1)] ends_done [OF assms(4), of srv] by auto
  next
    case (Suc n)
    then obtain t' y where s: "tstep (parseURL (libs srv)) (storage srv) (shortenerSvc srv) t (sys.truncate w) = Some (t', y)"
        "alone (parseURL (libs srv)) (storage srv) (shortenerSvc srv) n t' (sys.truncate (put_sys y w)) = Some (Done a, x)"
      by (auto split: option.splits)
    have "\<forall>a. t \<noteq> Done a" using s(1) by auto
    with assms(2) s(1) have "gstep srv (call t) w = Some (call t', put_sys y w)" by (simp add: service_step_def)
    from ends_step [OF assms(3) this] Suc.IH [OF s(2)] Suc.prems(2,3) show ?case by simp
  qed
qed

lemma is_done_simps [simp]:
  "is_done (HttpDone r resp)" "is_done (GrpcDone c out toks)" "is_done (respond srv r o1)" "is_done (grpc_end c toks out)"
  "\<not> is_done (HttpCalling i r ck t)" "\<not> is_done (GrpcCalling c toks t)" "\<not> is_done (HttpRouted r)"
  "\<not> is_done (HttpArrived r)" "\<not> is_done (GrpcArrived c)" "\<not> is_done (GrpcChecked c)"
  by (simp_all add: is_done_def respond_def grpc_end_def)

lemma gstep_calling:
  "\<forall>a. t \<noteq> Done a \<Longrightarrow> gstep srv (HttpCalling i r ck t) w =
     map_option (\<lambda>(t', w'). (HttpCalling i r ck t', w')) (service_step srv t w)"
  "\<forall>a. t \<noteq> Done a \<Longrightarrow> gstep srv (GrpcCalling c toks t) w =
     map_option (\<lambda>(t', w'). (GrpcCalling c toks t', w')) (service_step srv t w)"
  by (cases t; simp)+

lemma ends_http_calling:
  "ends srv (HttpCalling i r ck (Ready q)) w g' w' \<longleftrightarrow>
     (\<exists>a x. serve_answer (parseURL (libs srv)) (storage srv) (shortenerSvc srv) q (sys.truncate w) = Some (a, x) \<and>
       g' = respond srv r (let out = h_after (halves (libs srv) ! i) a in out\<lparr>acts := ck @ acts out\<rparr>) \<and> w' = put_sys x w)"
  unfolding alone_answer [symmetric]
  by (subst ends_call [where fin = "\<lambda>a. respond srv r (let out = h_after (halves (libs srv) ! i) a in
        out\<lparr>acts := ck @ acts out\<rparr>)"]) (auto simp: gstep_calling)

lemma ends_grpc_calling:
  "ends srv (GrpcCalling c toks (Ready q)) w g' w' \<longleftrightarrow>
     (\<exists>a x. serve_answer (parseURL (libs srv)) (storage srv) (shortenerSvc srv) q (sys.truncate w) = Some (a, x) \<and>
       g' = grpc_end c toks (grpc_after a) \<and> w' = put_sys x w)"
  unfolding alone_answer [symmetric]
  by (subst ends_call [where fin = "\<lambda>a. grpc_end c toks (grpc_after a)"]) (auto simp: gstep_calling)

text \<open>The goroutine ends with the response.\<close>

definition responds :: "'s Server \<Rightarrow> goroutine \<times> 's world \<Rightarrow> response \<Rightarrow> 's world \<Rightarrow> bool" where
  "responds srv gw resp w' \<longleftrightarrow> (\<exists>r. ends srv (fst gw) (snd gw) (HttpDone r resp) w')"

definition stacked :: "'s Server \<Rightarrow> hreq \<Rightarrow> (hout \<times> 's world) option \<Rightarrow> response \<Rightarrow> 's world \<Rightarrow> bool" where
  "stacked srv r oo resp w' \<longleftrightarrow> (\<exists>out. oo = Some (out, w') \<and>
     resp = run_stack (compressor (libs srv)) (r_head r ''Accept-Encoding'') out)"

lemma responds_step: "\<not> is_done g \<Longrightarrow> gstep srv g w = Some p \<Longrightarrow> responds srv (g, w) resp w' = responds srv p resp w'"
  by (cases p) (simp add: responds_def ends_step)

lemma responds_done: "responds srv (HttpDone r resp', w) resp w' \<longleftrightarrow> resp' = resp \<and> w = w'"
  by (auto simp: responds_def ends_done)

lemma responds_respond: "responds srv (respond srv r out, w) resp w' \<longleftrightarrow> stacked srv r (Some (out, w)) resp w'"
  by (auto simp: responds_def stacked_def ends_done) (auto simp: respond_def)

lemma stacked_ctx [simp]: "stacked srv (r\<lparr>r_ctx := c\<rparr>) oo resp w' = stacked srv r oo resp w'"
  by (simp add: stacked_def)

lemma responds_start:
  "responds srv (http_start srv i ck r, w) resp w' \<longleftrightarrow>
     stacked srv r (map_option (\<lambda>(out, w1). (out\<lparr>acts := ck @ acts out\<rparr>, w1)) (http_joined srv (halves (libs srv) ! i) r w)) resp w'"
proof (cases "h_before (halves (libs srv) ! i) r")
  case (Inl out)
  then show ?thesis by (simp add: http_start_def http_joined_def responds_respond)
next
  case (Inr q)
  then show ?thesis
    by (auto simp: http_start_def http_joined_def responds_def ends_http_calling stacked_def respond_def Let_def)
qed

lemma responds_session:
  assumes "\<And>ck r w. responds srv (k ck r, w) resp w' \<longleftrightarrow>
    stacked srv r (map_option (\<lambda>(out, w1). (out\<lparr>acts := ck @ acts out\<rparr>, w1)) (h r w)) resp w'"
  shows "responds srv (with_session srv k r w) resp w' \<longleftrightarrow> stacked srv r (auth_mw srv h r w) resp w'"
proof (cases "GetRequestID (r_ctx r)")
  case None
  then show ?thesis by (simp add: with_session_def auth_mw_def responds_respond)
next
  case (Some i)
  obtain x g where x: "createOrParseUserFromRequest srv r (uuids w) = (x, g)"
    by (cases "createOrParseUserFromRequest srv r (uuids w)")
  show ?thesis
  proof (cases x)
    case (Inl e)
    with Some x show ?thesis by (simp add: with_session_def auth_mw_def responds_respond)
  next
    case (Inr ut)
    obtain u tok where ut: "ut = (u, tok)" by (cases ut)
    have "(case h (r\<lparr>r_ctx := SetUserContext (r_ctx r) u\<rparr>) (w\<lparr>uuids := g\<rparr>) of
            None \<Rightarrow> None | Some (out, w') \<Rightarrow> Some (out\<lparr>acts := setCookie srv tok @ acts out\<rparr>, w')) =
        map_option (\<lambda>(out, w1). (out\<lparr>acts := setCookie srv tok @ acts out\<rparr>, w1))
          (h (r\<lparr>r_ctx := SetUserContext (r_ctx r) u\<rparr>) (w\<lparr>uuids := g\<rparr>))"
      by (simp split: option.split)
    with Some x Inr ut assms show ?thesis by (simp add: with_session_def auth_mw_def)
  qed
qed

lemma responds_enter:
  assumes "chi_ok (libs srv)"
  shows "responds srv (http_enter srv r w) resp w' \<longleftrightarrow> stacked srv r (route srv r w) resp w'"
proof (cases "chiFind (libs srv) patterns (r_method r) (r_path r)")
  case (Route i)
  from chi_found [OF assms this] have i: "i < 8" ..
  let ?hf = "halves (libs srv) ! i"
  have rt: "route srv r w = behind srv (h_access ?hf) (http_joined srv ?hf) r w"
    using Route halves_routes [OF i, of srv] by (simp add: route_def patterns_routes)
  have id: "map_option (\<lambda>(out, w1). (out\<lparr>acts := [] @ acts out\<rparr>, w1)) oo = oo" for oo :: "(hout \<times> 's world) option"
    by (cases oo) auto
  have sess: "responds srv (with_session srv (http_start srv i) r w) resp w' \<longleftrightarrow>
      stacked srv r (auth_mw srv (http_joined srv ?hf) r w) resp w'"
    by (rule responds_session) (rule responds_start)
  show ?thesis
    using Route sess responds_start [of srv i "[]" r w resp w', unfolded id]
    by (cases "h_access ?hf") (simp_all add: http_enter_def patterns_routes rt behind_def filter_mw_def responds_respond)
next
  case (SubrouterDefault as)
  have "responds srv (with_session srv (\<lambda>ck r. respond srv r (finished (ck @ as))) r w) resp w' \<longleftrightarrow>
      stacked srv r (auth_mw srv (\<lambda>r w. Some (finished as, w)) r w) resp w'"
    by (rule responds_session) (simp add: responds_respond)
  with SubrouterDefault show ?thesis by (simp add: http_enter_def route_def patterns_routes)
next
  case (RouterDefault as)
  then show ?thesis by (simp add: http_enter_def route_def patterns_routes responds_respond)
qed

lemma http_responds:
  assumes "chi_ok (libs srv)"
  shows "responds srv (HttpArrived r, w) resp w' \<longleftrightarrow> http_serve srv r w = Some (resp, w')"
proof -
  obtain x w1 where x: "requestid_mw srv r w = (x, w1)" by (cases "requestid_mw srv r w")
  show ?thesis
  proof (cases x)
    case (Inl e)
    with x show ?thesis by (simp add: responds_step http_serve_def responds_done)
  next
    case (Inr r1)
    with requestid_mw_cases [OF x] obtain i where r1: "r1 = r\<lparr>r_ctx := SetRequestID (r_ctx r) i\<rparr>" by blast
    have "responds srv (HttpArrived r, w) resp w' \<longleftrightarrow> responds srv (http_enter srv r1 w1) resp w'"
      using x Inr by (simp add: responds_step)
    also have "\<dots> \<longleftrightarrow> stacked srv r1 (route srv r1 w1) resp w'" by (rule responds_enter [OF assms])
    also have "\<dots> \<longleftrightarrow> http_serve srv r w = Some (resp, w')"
      using x Inr by (auto simp: http_serve_def stacked_def split: option.split)
    finally show ?thesis .
  qed
qed

text \<open>The same for grpc.\<close>

definition returns :: "'s Server \<Rightarrow> goroutine \<times> 's world \<Rightarrow> gout \<Rightarrow> string list \<Rightarrow> 's world \<Rightarrow> bool" where
  "returns srv gw out toks w' \<longleftrightarrow> (\<exists>c. ends srv (fst gw) (snd gw) (GrpcDone c out toks) w')"

lemma returns_step: "\<not> is_done g \<Longrightarrow> gstep srv g w = Some p \<Longrightarrow> returns srv (g, w) out toks w' = returns srv p out toks w'"
  by (cases p) (simp add: returns_def ends_step)

lemma returns_done: "returns srv (GrpcDone c out' toks', w) out toks w' \<longleftrightarrow> out' = out \<and> toks' = toks \<and> w = w'"
  by (auto simp: returns_def ends_done)

definition recovered :: "(gout \<times> string list \<times> 's world) option \<Rightarrow> (gout \<times> string list \<times> 's world) option" where
  "recovered oo = map_option (\<lambda>(out, toks, w'). (if out = Panicked then gout.Done None None else out, toks, w')) oo"

lemma logging_int_recovered: "logging_int h c w = recovered (h c w)"
  by (auto simp: logging_int_def recovered_def split: option.split gout.split)

lemma returns_end: "returns srv (grpc_end c toks out, w) out' toks' w' \<longleftrightarrow>
    recovered (Some (out, toks, w)) = Some (out', toks', w')"
  by (auto simp: returns_def ends_done recovered_def) (auto simp: grpc_end_def)

lemma returns_start:
  "returns srv (grpc_start c toks, w) out toks' w' \<longleftrightarrow>
     recovered (map_option (\<lambda>(out, ts, w'). (out, toks @ ts, w')) (grpc_handler srv c w)) = Some (out, toks', w')"
proof (cases "grpc_before c")
  case (Inl out)
  then show ?thesis
    by (simp add: grpc_start_def grpc_handler_joined [symmetric] grpc_joined_def returns_end)
next
  case (Inr q)
  have "returns srv (GrpcCalling c toks (Ready q), w) out toks' w' \<longleftrightarrow> (\<exists>a x. serve_answer (parseURL (libs srv)) (storage srv)
      (shortenerSvc srv) q (sys.truncate w) = Some (a, x) \<and> returns srv (grpc_end c toks (grpc_after a), put_sys x w) out toks' w')"
    by (auto simp: returns_def ends_grpc_calling ends_done)
  with Inr show ?thesis
    by (auto simp: grpc_start_def grpc_handler_joined [symmetric] grpc_joined_def returns_end recovered_def)
qed

lemma returns_session:
  "returns srv (grpc_session srv c w) out toks w' \<longleftrightarrow>
     recovered (auth_int srv (grpc_handler srv) c w) = Some (out, toks, w')"
proof (cases "g_md c")
  case None
  then show ?thesis by (simp add: grpc_session_def auth_int_def returns_end)
next
  case (Some md)
  obtain x g where x: "createOrParseUserFromMetadata srv (g_now c) md (uuids w) = (x, g)"
    by (cases "createOrParseUserFromMetadata srv (g_now c) md (uuids w)")
  show ?thesis
  proof (cases x)
    case (Inl e)
    with Some x show ?thesis by (simp add: grpc_session_def auth_int_def returns_end)
  next
    case (Inr ut)
    obtain u tok where ut: "ut = (u, tok)" by (cases ut)
    show ?thesis
      using Some x Inr ut
      by (cases "grpc_handler srv (c\<lparr>g_ctx := SetUserContext (g_ctx c) u\<rparr>) (w\<lparr>uuids := g\<rparr>)")
        (auto simp: grpc_session_def auth_int_def returns_end returns_start)
  qed
qed

lemma returns_enter:
  "returns srv (grpc_enter srv c w) out toks w' \<longleftrightarrow>
     logging_int (filter_int srv (auth_int srv (grpc_handler srv))) c w = Some (out, toks, w')"
  by (simp add: logging_int_recovered grpc_enter_def filter_int_def Let_def returns_session returns_end)

lemma grpc_returns:
  "returns srv (GrpcArrived c, w) out toks w' \<longleftrightarrow> grpc_serve srv c w = Some (out, toks, w')"
proof (cases "if trustRequestID srv then getRequestIDFromContext c else None")
  case None
  obtain x g where x: "next_src (reqids w) = (x, g)" by (cases "next_src (reqids w)")
  show ?thesis
  proof (cases x)
    case (Inl e)
    with None x show ?thesis
      by (simp add: returns_step grpc_id_def requestid_int_def grpc_serve_def returns_done)
  next
    case (Inr i)
    with None x show ?thesis
      by (simp add: returns_step grpc_id_def requestid_int_def grpc_serve_def returns_enter)
  qed
next
  case (Some i)
  then show ?thesis by (simp add: returns_step grpc_id_def requestid_int_def grpc_serve_def returns_enter)
qed

section \<open>Agreement with the sequential servers\<close>

text \<open>A request alone in its goroutine is served as in the sequential models of the two servers: the
  goroutine of an http request comes to its end with a response in a world exactly when the server
  gives that response in that world, and the goroutine of a grpc call with a result and the tokens
  sent exactly when the grpc server does. In particular it never ends when a \<open>Push\<close> blocks.\<close>

lemma goroutines_serve:
  assumes "chi_ok (libs srv)"
  shows "((\<exists>n r2. galone srv n (HttpArrived r) w = Some (HttpDone r2 resp, w')) \<longleftrightarrow>
      http_serve srv r w = Some (resp, w')) \<and>
    ((\<exists>n c2. galone srv n (GrpcArrived c) w = Some (GrpcDone c2 out toks, w')) \<longleftrightarrow>
      grpc_serve srv c w = Some (out, toks, w'))"
  using http_responds [OF assms, of r w resp w'] grpc_returns [of srv c w out toks w']
  by (auto simp: responds_def returns_def ends_def)

text \<open>A link posted to the memory storage.\<close>

lemma goroutines_serve_witness:
  "\<exists>n r2 resp w'. galone (sample_server memory_storage) n
      (HttpArrived (sample_hreq ''POST'' ''/'' ''http://a.b'' True)) (sample_world sample_mem) = Some (HttpDone r2 resp, w') \<and>
    received sample_comp resp = Some ''http://h/01''"
proof -
  let ?srv = "sample_server memory_storage"
  let ?r = "sample_hreq ''POST'' ''/'' ''http://a.b'' True"
  have "map_option (received sample_comp \<circ> fst) (http_serve ?srv ?r (sample_world sample_mem)) =
      Some (Some ''http://h/01'')" by code_simp
  then obtain resp w' where r: "http_serve ?srv ?r (sample_world sample_mem) = Some (resp, w')"
      "received sample_comp resp = Some ''http://h/01''" by auto
  have "chi_ok (libs ?srv)" by (simp add: sample_chi_ok)
  from goroutines_serve [OF this, of ?r "sample_world sample_mem" resp w'] r show ?thesis by blast
qed

end
