(* ===== verification/GoroutineLinks.thy ===== *)
theory GoroutineLinks
  imports Goroutines
begin

text \<open>
  What every interleaving of the requests to both servers keeps: the links that were answered stay
  apart and lead to their urls. The proof takes the calls of the services out of a run of the
  goroutines as the goroutines of the theory \<open>Concurrent\<close>, and their invariant with them.
\<close>

section \<open>Answered links\<close>

text \<open>
  A short url of the service; and: the goroutine has answered its client, the user \<open>u\<close> who posted \<open>url\<close>,
  alone or in a batch, with a new link of path \<open>p\<close>. That is status 201 on one of three http routes, or
  the response of one of two grpc methods.
\<close>

definition is_link :: "'s Server \<Rightarrow> string \<Rightarrow> bool" where
  "is_link srv served \<longleftrightarrow> (\<exists>p. random_path (pathLength (shortenerSvc srv)) p \<and> served = getServedURL (shortenerSvc srv) p)"

fun answered :: "'s Server \<Rightarrow> goroutine \<Rightarrow> user \<Rightarrow> string \<Rightarrow> string \<Rightarrow> bool" where
  "answered srv (HttpDone r resp) u url p \<longleftrightarrow> random_path (pathLength (shortenerSvc srv)) p \<and>
     GetUserFromContext (r_ctx r) = Some u \<and> r_method r = ''POST'' \<and> map_option fst (sent resp) = Some 201 \<and>
     (r_path r = ''/'' \<and> readBody (libs srv) r = Inr url \<and>
        received (compressor (libs srv)) resp = Some (getServedURL (shortenerSvc srv) p) \<or>
      r_path r = ''/api/shorten'' \<and> (\<exists>bdy req b. readBody (libs srv) r = Inr bdy \<and>
        unmarshalShortenRequest (libs srv) bdy = Inr req \<and> url = RequestURL req \<and>
        marshalShortenResponse (libs srv) \<lparr>Result = getServedURL (shortenerSvc srv) p\<rparr> = Inr b \<and>
        received (compressor (libs srv)) resp = Some b) \<or>
      r_path r = ''/api/shorten/batch'' \<and> (\<exists>bdy batch res b k. readBody (libs srv) r = Inr bdy \<and>
        unmarshalBatchURLs (libs srv) bdy = Inr batch \<and> k < length batch \<and> url = BURL (batch ! k) \<and>
        list_all (\<lambda>x. is_link srv (SShort x)) res \<and> SShort (res ! k) = getServedURL (shortenerSvc srv) p \<and>
        marshalBatchShortened (libs srv) res = Inr b \<and> received (compressor (libs srv)) resp = Some b))"
| "answered srv (GrpcDone c out toks) u url p \<longleftrightarrow> random_path (pathLength (shortenerSvc srv)) p \<and>
     GetUserFromContext (g_ctx c) = Some u \<and>
     (g_req c = ShortenRequest url \<and>
        client_sees out = (OK, Some (ShortenResponse (getServedURL (shortenerSvc srv) p))) \<or>
      (\<exists>b links k. g_req c = ShortenBatchRequest b \<and> client_sees out = (OK, Some (ShortenBatchResponse links)) \<and>
        k < length b \<and> k < length links \<and> url = snd (b ! k) \<and> snd (links ! k) = getServedURL (shortenerSvc srv) p))"
| "answered srv _ u url p \<longleftrightarrow> False"

text \<open>What is stored for a posted url: \<open>Shorten\<close> prints the url that it parsed, a batch is stored as it is.\<close>

fun posted_batch :: "goroutine \<Rightarrow> bool" where
  "posted_batch (HttpDone r resp) \<longleftrightarrow> r_path r = ''/api/shorten/batch''"
| "posted_batch (GrpcDone c out toks) \<longleftrightarrow> (case g_req c of ShortenBatchRequest b \<Rightarrow> True | _ \<Rightarrow> False)"
| "posted_batch _ \<longleftrightarrow> False"

definition stored_for :: "'s Server \<Rightarrow> goroutine \<Rightarrow> string \<Rightarrow> string option" where
  "stored_for srv g url = (if posted_batch g then Some url
     else (case parseURL (libs srv) url of Inl e \<Rightarrow> None | Inr pu \<Rightarrow> Some (url_String pu)))"

text \<open>\<open>json.Marshal\<close> keeps the responses with different short urls apart.\<close>

definition json_links :: "'s Server \<Rightarrow> bool" where
  "json_links srv \<longleftrightarrow>
     (\<forall>x y b. is_link srv x \<longrightarrow> is_link srv y \<longrightarrow> marshalShortenResponse (libs srv) \<lparr>Result = x\<rparr> = Inr b \<longrightarrow>
        marshalShortenResponse (libs srv) \<lparr>Result = y\<rparr> = Inr b \<longrightarrow> x = y) \<and>
     (\<forall>xs ys b. list_all (\<lambda>x. is_link srv (SShort x)) xs \<longrightarrow> list_all (\<lambda>x. is_link srv (SShort x)) ys \<longrightarrow>
        marshalBatchShortened (libs srv) xs = Inr b \<longrightarrow> marshalBatchShortened (libs srv) ys = Inr b \<longrightarrow>
        map SShort xs = map SShort ys)"

text \<open>The goroutine is not about to ask for deletions in the name of the user \<open>uid\<close>.\<close>

fun gspares :: "'s Server \<Rightarrow> string \<Rightarrow> goroutine \<Rightarrow> bool" where
  "gspares srv uid (HttpArrived r) \<longleftrightarrow> \<not> deleting srv uid r"
| "gspares srv uid (HttpRouted r) \<longleftrightarrow> \<not> deleting srv uid r"
| "gspares srv uid (GrpcArrived c) \<longleftrightarrow> \<not> gdeleting srv uid c"
| "gspares srv uid (GrpcChecked c) \<longleftrightarrow> \<not> gdeleting srv uid c"
| "gspares srv uid _ \<longleftrightarrow> True"

definition spared_user :: "'s Server \<Rightarrow> goroutine list \<Rightarrow> 's world \<Rightarrow> string \<Rightarrow> bool" where
  "spared_user srv G w uid \<longleftrightarrow> (\<forall>k. \<not> requested (buf (queue w)) k uid) \<and> list_all (gspares srv uid) G"

definition at_start :: "goroutine \<Rightarrow> bool" where
  "at_start g \<longleftrightarrow> (case g of HttpArrived r \<Rightarrow> True | GrpcArrived c \<Rightarrow> True | FlusherLoop \<Rightarrow> True | _ \<Rightarrow> False)"

section \<open>The calls of the services in a run\<close>

text \<open>
  A user without an account, whose session was just created, deletes nothing, since the service
  refuses the request: the request can be taken for one that names no paths.
\<close>

fun shadow_req :: "req \<Rightarrow> req" where
  "shadow_req (ReqDelete now usr ss) = ReqDelete now usr (if IsNew usr then [] else ss)"
| "shadow_req q = q"

fun shadow :: "thread \<Rightarrow> thread" where
  "shadow (Ready q) = Ready (shadow_req q)"
| "shadow t = t"

lemma tstep_shadow: "tstep parse st svc (shadow t) x = tstep parse st svc t x"
proof (cases t)
  case (Ready q)
  then show ?thesis by (cases q) simp_all
qed simp_all

lemma shorten_start_started: "shorten_start parse svc usr u \<noteq> Ready q"
  by (simp add: shorten_start_def split: sum.split)

lemma store_round_kinds:
  assumes "store_round st svc usr u i x = (t, y)"
  shows "t \<noteq> Ready q" and "t = Done a \<Longrightarrow> \<exists>g. a = AShorten g"
  using store_round_follows [OF assms] by auto

lemma tstep_started:
  assumes "tstep parse st svc t x = Some (t', y)" shows "shadow t' = t'"
proof -
  have "t' \<noteq> Ready q" for q
  proof (cases t)
    case (Ready r)
    with assms shorten_start_started show ?thesis
      by (cases r) (auto split: prod.splits outcome.splits if_splits)
  next
    case (Storing usr u i p e)
    with assms store_round_kinds(1) [of st svc usr u _ x _ y q] show ?thesis by (cases i) auto
  next
    case (Pushing now usr ss)
    with assms show ?thesis by (cases ss) (auto split: option.splits)
  qed (use assms in simp)
  then show ?thesis by (cases t') auto
qed

lemma shadow_simps [simp]:
  "shadow t = Done a \<longleftrightarrow> t = Done a" "gives (shadow_req q) t u url served = gives q t u url served"
  by (cases t; simp) (cases q; simp)

lemma gives_Ready [simp]: "\<not> gives q (Ready q') u url served"
  by (auto elim: gives_cases)

text \<open>A thread of \<open>Shorten\<close> ends with an answer of \<open>Shorten\<close>, one of \<open>ShortenBatch\<close> with one link for each url.\<close>

fun kind_ok :: "req \<Rightarrow> thread \<Rightarrow> bool" where
  "kind_ok (ReqShorten usr u) (Done a) \<longleftrightarrow> (\<exists>g. a = AShorten g)"
| "kind_ok (ReqBatch usr b) (Done a) \<longleftrightarrow> (\<exists>res oe. a = ABatch (res, oe) \<and> (oe = None \<longrightarrow> length res = length b))"
| "kind_ok _ _ \<longleftrightarrow> True"

lemma tstep_kind:
  assumes "tstep parse st svc t x = Some (t', y)" and "follows parse svc q t"
  shows "kind_ok q t'"
proof (cases q)
  case (ReqShorten usr u)
  show ?thesis
  proof (cases t)
    case (Ready r)
    with ReqShorten assms show ?thesis
      by (auto simp: shorten_start_def split: sum.splits)
  next
    case (Storing usr' u' i p e)
    show ?thesis
    proof (cases i)
      case 0
      with ReqShorten Storing assms show ?thesis by auto
    next
      case (Suc j)
      with Storing assms(1) have "store_round st svc usr' u' j x = (t', y)" by simp
      from store_round_kinds(2) [OF this] ReqShorten show ?thesis by (cases t') auto
    qed
  next
    case (Pushing now usr' ss)
    with ReqShorten assms(2) show ?thesis by simp
  next
    case (Done a)
    with assms(1) show ?thesis by simp
  qed
next
  case (ReqBatch usr b)
  with assms have t: "t = Ready (ReqBatch usr b)" by (cases t) auto
  obtain us r where us: "batch_urls (pathLength svc) usr b (rnd x) = (us, r)" by (metis surj_pair)
  with batch_urls_props [OF us] t ReqBatch assms(1) show ?thesis
    by (auto simp: ShortenBatch_def split: prod.splits option.splits)
qed simp_all

text \<open>To the client, the answers of the two threads look the same.\<close>

definition same_answer :: "'s Server \<Rightarrow> thread \<Rightarrow> thread \<Rightarrow> bool" where
  "same_answer srv t t' \<longleftrightarrow> t = t' \<or>
     (\<exists>x y b. t = Done (AShorten (x, None)) \<and> t' = Done (AShorten (y, None)) \<and> is_link srv y \<and>
        marshalShortenResponse (libs srv) \<lparr>Result = x\<rparr> = Inr b \<and> marshalShortenResponse (libs srv) \<lparr>Result = y\<rparr> = Inr b) \<or>
     (\<exists>xs ys b. t = Done (ABatch (xs, None)) \<and> t' = Done (ABatch (ys, None)) \<and> list_all (\<lambda>x. is_link srv (SShort x)) ys \<and>
        marshalBatchShortened (libs srv) xs = Inr b \<and> marshalBatchShortened (libs srv) ys = Inr b)"

definition told :: "'s Server \<Rightarrow> bool \<Rightarrow> req \<Rightarrow> thread \<Rightarrow> user \<Rightarrow> string \<Rightarrow> string \<Rightarrow> bool" where
  "told srv bat q t u url p \<longleftrightarrow> (\<exists>t'. same_answer srv t t' \<and> gives q t' u url (getServedURL (shortenerSvc srv) p)) \<and>
     (bat \<longleftrightarrow> (\<exists>v b. q = ReqBatch v b))"

lemma told_shadow [simp]: "told srv bat (shadow_req q) t u url p = told srv bat q t u url p"
proof -
  have "(\<exists>v b. shadow_req q = ReqBatch v b) \<longleftrightarrow> (\<exists>v b. q = ReqBatch v b)" by (cases q) simp_all
  then show ?thesis by (simp add: told_def)
qed

lemma toldI:
  "same_answer srv t t' \<Longrightarrow> gives q t' u url (getServedURL (shortenerSvc srv) p) \<Longrightarrow> bat \<longleftrightarrow> (\<exists>v b. q = ReqBatch v b) \<Longrightarrow>
     told srv bat q t u url p"
  unfolding told_def by blast

text \<open>How a goroutine stands to its call: the request \<open>q\<close> and the thread \<open>t\<close>.\<close>

definition stands :: "'s Server \<Rightarrow> goroutine \<Rightarrow> req \<Rightarrow> thread \<Rightarrow> bool" where
  "stands srv g q t \<longleftrightarrow> kind_ok q t \<and>
     (case g of
        HttpCalling i r ck t' \<Rightarrow> t = shadow t' \<and> chiFind (libs srv) patterns (r_method r) (r_path r) = Route i \<and>
          (\<exists>tok. ck = setCookie srv tok) \<and> (\<exists>q0. h_before (halves (libs srv) ! i) r = Inr q0 \<and> q = shadow_req q0)
      | GrpcCalling c toks t' \<Rightarrow> t = shadow t' \<and> (\<exists>q0. grpc_before c = Inr q0 \<and> q = shadow_req q0)
      | _ \<Rightarrow> True) \<and>
     (\<forall>u url p. answered srv g u url p \<longrightarrow> told srv (posted_batch g) q t u url p)"

lemma answered_201:
  assumes "answered srv (HttpDone r resp) u url p"
  obtains h where "sent resp = Some (201, h)"
  using assms by (cases "sent resp") auto

text \<open>A goroutine that ends without a call has not answered with a link.\<close>

lemma error_not_answered:
  assumes "valid_code c" and "sent_code c \<noteq> 201"
  shows "\<not> answered srv (respond srv r (finished (setCookie srv tok @ [WriteHeader c]))) u url p"
proof
  assume "answered srv (respond srv r (finished (setCookie srv tok @ [WriteHeader c]))) u url p"
  then obtain h where "sent (run_stack (compressor (libs srv)) (r_head r ''Accept-Encoding'')
      (finished (setCookie srv tok @ [WriteHeader c]))) = Some (201, h)"
    unfolding respond_def by (rule answered_201)
  with reply_status [OF assms(1), of "compressor (libs srv)" "r_head r ''Accept-Encoding''" "cookies srv tok" "[]"] assms(2)
  show False by (auto simp: setCookie_reply(1))
qed

lemma empty_not_answered: "\<not> answered srv (respond srv r (finished (setCookie srv tok))) u url p"
proof
  assume "answered srv (respond srv r (finished (setCookie srv tok))) u url p"
  then obtain h where "sent (run_stack (compressor (libs srv)) (r_head r ''Accept-Encoding'')
      (finished (setCookie srv tok))) = Some (201, h)"
    unfolding respond_def by (rule answered_201)
  with empty_reply_status [of "compressor (libs srv)" "r_head r ''Accept-Encoding''" srv tok] show False by auto
qed

lemma answered_route:
  assumes "chi_ok (libs srv)" and "answered srv (HttpDone r resp) u url p"
  obtains (plain) "r_path r = ''/''" "chiFind (libs srv) patterns (r_method r) (r_path r) = Route 4"
  | (json) "r_path r = ''/api/shorten''" "chiFind (libs srv) patterns (r_method r) (r_path r) = Route 2"
  | (batch) "r_path r = ''/api/shorten/batch''" "chiFind (libs srv) patterns (r_method r) (r_path r) = Route 3"
  using assms chi_fixed(3-5) [OF assms(1)] by auto

lemma route_not_answered:
  assumes "chi_ok (libs srv)" and "\<And>i. chiFind (libs srv) patterns (r_method r) (r_path r) \<noteq> Route i"
  shows "\<not> answered srv (respond srv r out) u url p"
  unfolding respond_def using answered_route [OF assms(1)] assms(2) by metis

lemma half_simps [simp]:
  "halves L ! 4 = \<lparr>h_access = Session, h_before = ShortenPlain_before L, h_after = ShortenPlain_after\<rparr>"
  "halves L ! 2 = \<lparr>h_access = Session, h_before = Shorten_before L, h_after = Shorten_after L\<rparr>"
  "halves L ! 3 = \<lparr>h_access = Session, h_before = ShortenBatch_before L, h_after = ShortenBatch_after L\<rparr>"
  by (simp_all add: halves_def)

lemma start_not_answered:
  assumes "chi_ok (libs srv)" and "chiFind (libs srv) patterns (r_method r) (r_path r) = Route i"
    and "h_before (halves (libs srv) ! i) r = Inl out"
  shows "\<not> answered srv (respond srv r (out\<lparr>acts := setCookie srv tok @ acts out\<rparr>)) u url p"
proof
  assume a: "answered srv (respond srv r (out\<lparr>acts := setCookie srv tok @ acts out\<rparr>)) u url p"
  have "out = finished [] \<or> out = finished [WriteHeader 400] \<or> out = finished [WriteHeader 500]"
    by (rule answered_route [OF assms(1) a [unfolded respond_def]])
      (use assms(2,3) in \<open>auto simp: ShortenPlain_before_def Shorten_before_def ShortenBatch_before_def split: sum.splits if_splits\<close>)
  with a error_not_answered [of 400 srv r tok u url p] error_not_answered [of 500 srv r tok u url p]
    empty_not_answered [of srv r tok u url p]
  show False by auto
qed

text \<open>After a call of \<open>Shorten\<close>, status 201 tells that there was no error, and the body its result.\<close>

lemma plain_received:
  assumes "comp_ok C"
  shows "received C (run_stack C accept (finished (plain_outcome srv tok (served, None)))) = Some served"
  using received_reply [OF assms bodied_simps(2), of "cookies srv tok @ [(''Content-Type'', ''text/plain'')]" accept "[served]"]
    cookies_encoding [of _ _ srv tok] by (fastforce simp: plain_outcome_def shorten_status_def)

lemma plain_after: "(ShortenPlain_after (AShorten res))\<lparr>acts := setCookie srv tok @ acts (ShortenPlain_after (AShorten res))\<rparr> =
    finished (plain_outcome srv tok res)"
  by (cases res) (auto simp: plain_outcome_def setCookie_def cookies_def reply_def Let_def split: prod.split bool.split)

lemma GetUserAndReqID_user: "GetUserAndReqID ctx = Inr (u, i) \<Longrightarrow> GetUserFromContext ctx = Some u"
  by (auto simp: GetUserAndReqID_def split: option.splits)

lemma plain_end_answered:
  assumes "comp_ok (compressor (libs srv))" and "r_path r = ''/''"
    and "ShortenPlain_before (libs srv) r = Inr q" and "kind_ok (shadow_req q) (Done a)"
    and "answered srv (respond srv r ((ShortenPlain_after a)\<lparr>acts := setCookie srv tok @ acts (ShortenPlain_after a)\<rparr>)) u url p"
  shows "told srv False q (Done a) u url p"
proof -
  let ?C = "compressor (libs srv)" and ?e = "r_head r ''Accept-Encoding''"
  from assms(3) obtain u' i bdy where b: "GetUserAndReqID (r_ctx r) = Inr (u', i)" "readBody (libs srv) r = Inr bdy"
      "q = ReqShorten u' bdy"
    by (auto simp: ShortenPlain_before_def split: sum.splits)
  from assms(4) b(3) obtain served oe where a: "a = AShorten (served, oe)" by auto
  let ?resp = "run_stack ?C ?e (finished (plain_outcome srv tok (served, oe)))"
  have an: "answered srv (HttpDone r ?resp) u url p" using assms(5) by (simp only: a plain_after respond_def)
  obtain c go where st: "shorten_status oe = (c, go)" by (cases "shorten_status oe")
  from answered_201 [OF an] obtain h where "sent ?resp = Some (201, h)" .
  with plain_outcome_status [of "(served, oe)" c go ?C ?e srv tok] st have "c = 201" by auto
  with st have oe: "oe = None" using shorten_status_201 by auto
  from plain_received [OF assms(1), of ?e srv tok served] an oe assms(2) have "served = getServedURL (shortenerSvc srv) p"
    by auto
  with a oe b an assms(2) GetUserAndReqID_user [OF b(1)] show ?thesis by (auto simp: told_def same_answer_def)
qed

lemma json_end_answered:
  assumes "comp_ok (compressor (libs srv))" and "r_path r = ''/api/shorten''"
    and "Shorten_before (libs srv) r = Inr q" and "kind_ok (shadow_req q) (Done a)"
    and "answered srv (respond srv r ((Shorten_after (libs srv) a)\<lparr>acts := setCookie srv tok @ acts (Shorten_after (libs srv) a)\<rparr>)) u url p"
  shows "told srv False q (Done a) u url p"
proof -
  let ?C = "compressor (libs srv)" and ?e = "r_head r ''Accept-Encoding''"
  from assms(3) obtain u' i bdy req where b: "GetUserAndReqID (r_ctx r) = Inr (u', i)" "readBody (libs srv) r = Inr bdy"
      "unmarshalShortenRequest (libs srv) bdy = Inr req" "q = ReqShorten u' (RequestURL req)"
    by (auto simp: Shorten_before_def split: sum.splits if_splits)
  from assms(4) b(4) obtain served oe where a: "a = AShorten (served, oe)" by auto
  obtain c go where st: "shorten_status oe = (c, go)" by (cases "shorten_status oe")
  have valid: "valid_code c" "sent_code c = c" "bodied c" using shorten_status_valid [OF st] by simp_all
  have err: "\<not> answered srv (respond srv r (finished (setCookie srv tok @ [WriteHeader d]))) u url p"
    if "valid_code d" "sent_code d \<noteq> 201" for d using error_not_answered [OF that] .
  have "c \<noteq> 201" if "\<not> go" using st that by (auto simp: shorten_status_def split: option.splits if_splits)
  with valid err [of c] assms(5) a st have go: "go" by (cases go) simp_all
  with err [of 500] assms(5) a st obtain bd where m: "marshalShortenResponse (libs srv) \<lparr>Result = served\<rparr> = Inr bd"
    by (cases "marshalShortenResponse (libs srv) \<lparr>Result = served\<rparr>") auto
  let ?resp = "run_stack ?C ?e ((json_reply c bd)\<lparr>acts := setCookie srv tok @ acts (json_reply c bd)\<rparr>)"
  have an: "answered srv (HttpDone r ?resp) u url p" using assms(5) go m st by (simp add: a respond_def)
  from answered_201 [OF an] obtain h where "sent ?resp = Some (201, h)" .
  with reply_status [OF valid(1), of ?C ?e "cookies srv tok @ [(''Content-Type'', ''application/json'')]" "[bd]"] valid(2)
  have "c = 201" by (auto simp: json_reply_def setCookie_reply(2))
  with st have oe: "oe = None" using shorten_status_201 by auto
  have "received ?C ?resp = Some bd" by (rule json_reply_received [OF assms(1) valid(3) HOL.refl])
  with an assms(2) b(2,3) have "url = RequestURL req"
      "marshalShortenResponse (libs srv) \<lparr>Result = getServedURL (shortenerSvc srv) p\<rparr> = Inr bd" by auto
  moreover have "is_link srv (getServedURL (shortenerSvc srv) p)" using an by (auto simp: is_link_def)
  ultimately show ?thesis using a oe b(4) m an GetUserAndReqID_user [OF b(1)]
    by (intro toldI [where t' = "Done (AShorten (getServedURL (shortenerSvc srv) p, None))"]) (auto simp: same_answer_def)
qed

lemma batch_end_answered:
  assumes "comp_ok (compressor (libs srv))" and "r_path r = ''/api/shorten/batch''"
    and "ShortenBatch_before (libs srv) r = Inr q" and "kind_ok (shadow_req q) (Done a)"
    and "answered srv (respond srv r ((ShortenBatch_after (libs srv) a)\<lparr>acts := setCookie srv tok @ acts (ShortenBatch_after (libs srv) a)\<rparr>)) u url p"
  shows "told srv True q (Done a) u url p"
proof -
  let ?C = "compressor (libs srv)" and ?e = "r_head r ''Accept-Encoding''"
  from assms(3) obtain u' i bdy batch where b: "GetUserAndReqID (r_ctx r) = Inr (u', i)" "readBody (libs srv) r = Inr bdy"
      "unmarshalBatchURLs (libs srv) bdy = Inr batch" "q = ReqBatch u' batch"
    by (auto simp: ShortenBatch_before_def split: sum.splits if_splits)
  from assms(4) b(4) obtain res oe where a: "a = ABatch (res, oe)" by auto
  have err: "\<not> answered srv (respond srv r (finished (setCookie srv tok @ [WriteHeader 500]))) u url p"
    by (rule error_not_answered) simp_all
  with assms(5) a have oe: "oe = None" by (cases oe) auto
  with err assms(5) a obtain bd where m: "marshalBatchShortened (libs srv) res = Inr bd"
    by (cases "marshalBatchShortened (libs srv) res") auto
  let ?resp = "run_stack ?C ?e ((json_reply 201 bd)\<lparr>acts := setCookie srv tok @ acts (json_reply 201 bd)\<rparr>)"
  have an: "answered srv (HttpDone r ?resp) u url p" using assms(5) oe m by (simp add: a respond_def)
  have "received ?C ?resp = Some bd" by (rule json_reply_received [OF assms(1) bodied_simps(2) HOL.refl])
  with an assms(2) b(2,3) obtain ys k where y: "k < length batch" "url = BURL (batch ! k)"
      "list_all (\<lambda>x. is_link srv (SShort x)) ys" "SShort (ys ! k) = getServedURL (shortenerSvc srv) p"
      "marshalBatchShortened (libs srv) ys = Inr bd"
    by auto
  show ?thesis using a oe b(4) m y an GetUserAndReqID_user [OF b(1)]
    by (intro toldI [where t' = "Done (ABatch (ys, None))"]) (auto simp: same_answer_def)
qed

lemma http_end_answered:
  assumes "chi_ok (libs srv)" and "comp_ok (compressor (libs srv))"
    and "chiFind (libs srv) patterns (r_method r) (r_path r) = Route i"
    and "h_before (halves (libs srv) ! i) r = Inr q" and "kind_ok (shadow_req q) (Done a)"
    and "answered srv (respond srv r ((h_after (halves (libs srv) ! i) a)\<lparr>acts := setCookie srv tok @
           acts (h_after (halves (libs srv) ! i) a)\<rparr>)) u url p"
  shows "told srv (r_path r = ''/api/shorten/batch'') q (Done a) u url p"
proof (rule answered_route [OF assms(1) assms(6) [unfolded respond_def]])
  assume "r_path r = ''/''" "chiFind (libs srv) patterns (r_method r) (r_path r) = Route 4"
  with plain_end_answered [OF assms(2), of r q a tok u url p] assms(3-6) show ?thesis by simp
next
  assume "r_path r = ''/api/shorten''" "chiFind (libs srv) patterns (r_method r) (r_path r) = Route 2"
  with json_end_answered [OF assms(2), of r q a tok u url p] assms(3-6) show ?thesis by simp
next
  assume "r_path r = ''/api/shorten/batch''" "chiFind (libs srv) patterns (r_method r) (r_path r) = Route 3"
  with batch_end_answered [OF assms(2), of r q a tok u url p] assms(3-6) show ?thesis by simp
qed

text \<open>The same for grpc.\<close>

lemma grpc_end_answered:
  assumes "grpc_before c = Inr q" and "answered srv (grpc_end c toks (grpc_after a)) u url p"
  shows "told srv (posted_batch (grpc_end c toks (grpc_after a))) q (Done a) u url p"
  unfolding told_def
  using assms by (cases a rule: grpc_after.cases) (fastforce simp: grpc_before_def for_user_def grpc_end_def client_sees_def
    same_answer_def case_prod_beta dest: GetUserAndReqID_user split: sum.splits if_splits)+

lemma stands_done:
  assumes "is_done g" and "kind_ok q t"
    and "\<And>u url p. answered srv g u url p \<Longrightarrow> told srv (posted_batch g) q t u url p"
  shows "stands srv g q t"
  using assms unfolding stands_def by (cases g) (simp_all del: answered.simps add: is_done_def)

lemma http_finish_stands:
  assumes "chi_ok (libs srv)" and "comp_ok (compressor (libs srv))" and "stands srv (HttpCalling i r ck (Done a)) q t"
  shows "stands srv (respond srv r ((h_after (halves (libs srv) ! i) a)\<lparr>acts := ck @ acts (h_after (halves (libs srv) ! i) a)\<rparr>)) q t"
proof -
  from assms(3) obtain tok q0 where s: "t = Done a" "chiFind (libs srv) patterns (r_method r) (r_path r) = Route i"
      "ck = setCookie srv tok" "h_before (halves (libs srv) ! i) r = Inr q0" "q = shadow_req q0" "kind_ok q t"
    by (auto simp: stands_def)
  show ?thesis
  proof (rule stands_done)
    fix u url p
    assume "answered srv (respond srv r ((h_after (halves (libs srv) ! i) a)\<lparr>acts := ck @ acts (h_after (halves (libs srv) ! i) a)\<rparr>)) u url p"
    with http_end_answered [OF assms(1,2) s(2,4), of a tok u url p] s
    show "told srv (posted_batch (respond srv r ((h_after (halves (libs srv) ! i) a)\<lparr>acts := ck @
        acts (h_after (halves (libs srv) ! i) a)\<rparr>))) q t u url p" by (simp add: respond_def)
  qed (simp_all add: s(6))
qed

lemma grpc_finish_stands:
  assumes "stands srv (GrpcCalling c toks (Done a)) q t"
  shows "stands srv (grpc_end c toks (grpc_after a)) q t"
proof -
  from assms obtain q0 where s: "t = Done a" "grpc_before c = Inr q0" "q = shadow_req q0" "kind_ok q t"
    by (auto simp: stands_def)
  show ?thesis
  proof (rule stands_done)
    fix u url p
    assume "answered srv (grpc_end c toks (grpc_after a)) u url p"
    with grpc_end_answered [OF s(2), of srv toks a u url p] s
    show "told srv (posted_batch (grpc_end c toks (grpc_after a))) q t u url p" by simp
  qed (simp_all add: s(4))
qed

text \<open>
  The step that brings a goroutine to its call: the request it makes is \<open>q\<close>, or it makes none, and
  it deletes for no user that the goroutine spares.
\<close>

definition opens :: "'s Server \<Rightarrow> (string \<Rightarrow> bool) \<Rightarrow> goroutine \<Rightarrow> bool" where
  "opens srv S g \<longleftrightarrow> (\<exists>q. stands srv g q (Ready q) \<and> (\<forall>uid k. S uid \<longrightarrow> \<not> deletes k uid q)) \<and> (\<forall>uid. S uid \<longrightarrow> gspares srv uid g)"

lemma opens_unanswered:
  assumes "\<And>u url p. \<not> answered srv g u url p" and "\<And>i r ck t. g \<noteq> HttpCalling i r ck t"
    and "\<And>c toks t. g \<noteq> GrpcCalling c toks t" and "\<And>uid. S uid \<Longrightarrow> gspares srv uid g"
  shows "opens srv S g"
  unfolding opens_def
  by (intro conjI exI [of _ ReqPing]) (use assms in \<open>auto simp: stands_def split: goroutine.split\<close>)

lemma chi_delete:
  assumes "chi_ok L" and "h_before (halves L ! i) r = Inr q" and "deletes k uid q"
    and "chiFind L patterns (r_method r) (r_path r) = Route i"
  shows "i = 1 \<and> r_method r = ''DELETE'' \<and> GetUserFromContext (r_ctx r) \<noteq> None \<and>
    (\<exists>u. GetUserFromContext (r_ctx r) = Some u \<and> ID u = uid \<and> (\<exists>now ss. q = ReqDelete now u ss))"
proof -
  from chi_found [OF assms(1,4)] have i: "i < 8" "fst (patterns ! i) = r_method r" by auto
  have "i = 1" using less_8_cases [OF i(1)] assms(2,3)
    by (auto simp: halves_def Ping_before_def Stats_before_def Resolve_before_def Shorten_before_def
        ShortenPlain_before_def GetAll_before_def ShortenBatch_before_def split: sum.splits option.splits if_splits)
  moreover from this have "DeleteBatch_before L r = Inr q" using assms(2) by (simp add: halves_def)
  then have "\<exists>u. GetUserFromContext (r_ctx r) = Some u \<and> ID u = uid \<and> (\<exists>now ss. q = ReqDelete now u ss)"
    using assms(3) GetUserAndReqID_user
    by (fastforce simp: DeleteBatch_before_def split: sum.splits if_splits)
  ultimately show ?thesis using i by (auto simp: patterns_def)
qed

lemma deleting_ctx [simp]: "deleting srv uid (r\<lparr>r_ctx := c\<rparr>) = deleting srv uid r"
  by (simp add: deleting_def)

lemma gdeleting_ctx [simp]: "gdeleting srv uid (c\<lparr>g_ctx := x\<rparr>) = gdeleting srv uid c"
  by (simp add: gdeleting_def)

text \<open>A handler from its start, for the user \<open>u\<close> whose session allows deletions unless it is new.\<close>

lemma http_start_opens:
  assumes "chi_ok (libs srv)" and "chiFind (libs srv) patterns (r_method r) (r_path r) = Route i"
    and "\<And>u. GetUserFromContext (r_ctx r) = Some u \<Longrightarrow> r_method r = ''DELETE'' \<Longrightarrow> \<not> IsNew u \<Longrightarrow> deleting srv (ID u) r"
    and "\<And>uid. S uid \<Longrightarrow> \<not> deleting srv uid r"
  shows "opens srv S (http_start srv i (setCookie srv tok) r)"
proof (cases "h_before (halves (libs srv) ! i) r")
  case (Inl out)
  with start_not_answered [OF assms(1,2) Inl] show ?thesis
    by (intro opens_unanswered) (simp_all add: http_start_def respond_def)
next
  case (Inr q0)
  have "\<not> deletes k uid (shadow_req q0)" if "S uid" for uid k
  proof
    assume d: "deletes k uid (shadow_req q0)"
    then have "deletes k uid q0" by (cases q0) (auto split: if_splits)
    from chi_delete [OF assms(1) Inr this assms(2)] obtain u now ss where
      u: "r_method r = ''DELETE''" "GetUserFromContext (r_ctx r) = Some u" "ID u = uid" "q0 = ReqDelete now u ss" by auto
    with d have "\<not> IsNew u" by (auto split: if_splits)
    with assms(3) [OF u(2,1)] assms(4) [OF that] u(3) show False by simp
  qed
  moreover have "stands srv (HttpCalling i r (setCookie srv tok) (Ready q0)) (shadow_req q0) (Ready (shadow_req q0))"
    using assms(2) Inr by (cases q0) (auto simp: stands_def)
  ultimately show ?thesis using Inr
    unfolding opens_def by (auto simp: http_start_def)
qed

lemma setCookie_none: "[] = setCookie srv []"
  by (simp add: setCookie_def)

lemma refused_opens:
  assumes "valid_code c" and "sent_code c \<noteq> 201"
  shows "opens srv S (respond srv r (finished [WriteHeader c]))"
  using error_not_answered [OF assms, of srv r "[]"]
  by (intro opens_unanswered) (simp_all add: respond_def setCookie_def)

text \<open>A route behind the authentication: without a session it is refused, else its handler starts.\<close>

lemma session_opens:
  assumes "chi_ok (libs srv)" and "chiFind (libs srv) patterns (r_method r) (r_path r) = Route i"
    and "with_session srv (http_start srv i) r w = (g, w')" and "\<And>uid. S uid \<Longrightarrow> \<not> deleting srv uid r"
  shows "sys.truncate w' = sys.truncate w \<and> opens srv S g"
proof -
  obtain x g1 where x: "createOrParseUserFromRequest srv r (uuids w) = (x, g1)"
    by (cases "createOrParseUserFromRequest srv r (uuids w)")
  show ?thesis
  proof (cases "GetRequestID (r_ctx r) = None \<or> isl x")
    case True
    with assms(3) x refused_opens [of 500] show ?thesis
      by (cases x) (auto simp: with_session_def split: option.splits)
  next
    case False
    then obtain u tok where u: "x = Inr (u, tok)" by (cases x) auto
    let ?r = "r\<lparr>r_ctx := SetUserContext (r_ctx r) u\<rparr>"
    have "opens srv S (http_start srv i (setCookie srv tok) ?r)"
    proof (rule http_start_opens [OF assms(1)])
      fix v assume "GetUserFromContext (r_ctx ?r) = Some v" "r_method ?r = ''DELETE''" "\<not> IsNew v"
      with auth_user_cookie [OF x [unfolded u]] show "deleting srv (ID v) ?r" by (auto simp: deleting_def)
    qed (use assms(2,4) in simp_all)
    with assms(3) x u False show ?thesis by (auto simp: with_session_def)
  qed
qed

lemma http_enter_opens:
  assumes "chi_ok (libs srv)" and "http_enter srv r w = (g, w')" and "\<And>uid. S uid \<Longrightarrow> \<not> deleting srv uid r"
  shows "sys.truncate w' = sys.truncate w \<and> opens srv S g"
proof (cases "chiFind (libs srv) patterns (r_method r) (r_path r)")
  case (Route i)
  from chi_found [OF assms(1) Route] have i: "i < 8" "fst (patterns ! i) = r_method r" by auto
  have plain: "opens srv S (http_start srv i [] r)" if "h_access (halves (libs srv) ! i) \<noteq> Session"
    unfolding setCookie_none [of srv]
  proof (rule http_start_opens [OF assms(1) Route])
    fix u assume "r_method r = ''DELETE''"
    then show "deleting srv (ID u) r" using i that less_8_cases [OF i(1)] by (auto simp: patterns_def halves_def)
  qed (use assms(3) in simp)
  show ?thesis
  proof (cases "h_access (halves (libs srv) ! i)")
    case Session
    then have "with_session srv (http_start srv i) r w = (g, w')"
      using assms(2) Route by (simp add: http_enter_def patterns_routes)
    from session_opens [OF assms(1) Route this assms(3)] show ?thesis .
  next
    case Trusted
    with assms(2) Route plain refused_opens [of 403] show ?thesis
      by (auto simp: http_enter_def patterns_routes split: if_splits)
  next
    case Open
    with assms(2) Route plain show ?thesis by (auto simp: http_enter_def patterns_routes)
  qed
next
  case (SubrouterDefault as)
  have o: "opens srv S (respond srv (r\<lparr>r_ctx := c\<rparr>) out)" for c out
    by (intro opens_unanswered route_not_answered [OF assms(1)]) (simp_all add: SubrouterDefault respond_def)
  from o [of "r_ctx r"] have "opens srv S (respond srv r out)" for out by simp
  with o SubrouterDefault assms(2) show ?thesis
    by (auto simp: http_enter_def patterns_routes with_session_def split: option.splits prod.splits sum.splits)
next
  case (RouterDefault as)
  then have "opens srv S (respond srv r out)" for out
    by (intro opens_unanswered route_not_answered [OF assms(1)]) (simp_all add: respond_def)
  with RouterDefault assms(2) show ?thesis by (auto simp: http_enter_def patterns_routes)
qed

lemma grpc_error_opens [simp]: "opens srv S (grpc_end c toks (gout.Done None (Some (e, m))))"
  by (intro opens_unanswered) (simp_all add: grpc_end_def client_sees_def)

lemma grpc_start_opens:
  assumes "\<And>u. GetUserFromContext (g_ctx c) = Some u \<Longrightarrow> \<exists>hs. g_req c = DeleteBatchRequest hs \<Longrightarrow> \<not> IsNew u \<Longrightarrow>
      gdeleting srv (ID u) c"
    and "\<And>uid. S uid \<Longrightarrow> \<not> gdeleting srv uid c"
  shows "opens srv S (grpc_start c toks)"
proof (cases "grpc_before c")
  case (Inl out)
  then have "out = gerror Internal ErrRequestCtx"
    by (auto simp: grpc_before_def for_user_def split: greq.splits sum.splits option.splits)
  with Inl show ?thesis by (simp add: grpc_start_def)
next
  case (Inr q0)
  have "\<not> deletes k uid (shadow_req q0)" if "S uid" for uid k
  proof
    assume d: "deletes k uid (shadow_req q0)"
    then obtain now u ss where q0: "q0 = ReqDelete now u ss" "ID u = uid" "\<not> IsNew u" by (cases q0) (auto split: if_splits)
    with Inr have "\<exists>hs. g_req c = DeleteBatchRequest hs" "GetUserFromContext (g_ctx c) = Some u"
      using GetUserAndReqID_user
      by (fastforce simp: grpc_before_def for_user_def split: greq.splits sum.splits option.splits)+
    with assms(1) [of u] assms(2) [OF that] q0 show False by simp
  qed
  moreover have "stands srv (GrpcCalling c toks (Ready q0)) (shadow_req q0) (Ready (shadow_req q0))"
    using Inr by (cases q0) (auto simp: stands_def)
  ultimately show ?thesis using Inr
    unfolding opens_def by (auto simp: grpc_start_def)
qed

lemma grpc_session_opens:
  assumes "grpc_session srv c w = (g, w')" and "\<And>uid. S uid \<Longrightarrow> \<not> gdeleting srv uid c"
  shows "sys.truncate w' = sys.truncate w \<and> opens srv S g"
proof (cases "g_md c")
  case None
  with assms(1) show ?thesis by (auto simp: grpc_session_def)
next
  case (Some md)
  obtain x g1 where x: "createOrParseUserFromMetadata srv (g_now c) md (uuids w) = (x, g1)"
    by (cases "createOrParseUserFromMetadata srv (g_now c) md (uuids w)")
  show ?thesis
  proof (cases x)
    case (Inl e)
    with assms(1) Some x show ?thesis by (auto simp: grpc_session_def)
  next
    case (Inr ut)
    obtain u tok where u: "ut = (u, tok)" by (cases ut)
    let ?c = "c\<lparr>g_ctx := SetUserContext (g_ctx c) u\<rparr>"
    have "opens srv S (grpc_start ?c toks)" for toks
    proof (rule grpc_start_opens)
      fix v assume "GetUserFromContext (g_ctx ?c) = Some v" "\<exists>hs. g_req ?c = DeleteBatchRequest hs" "\<not> IsNew v"
      with md_user_cookie [OF x [unfolded Inr u]] Some show "gdeleting srv (ID v) ?c" by (auto simp: gdeleting_def)
    qed (use assms(2) in simp)
    with assms(1) Some x Inr u show ?thesis by (auto simp: grpc_session_def split: if_splits)
  qed
qed

lemma grpc_enter_opens:
  assumes "grpc_enter srv c w = (g, w')" and "\<And>uid. S uid \<Longrightarrow> \<not> gdeleting srv uid c"
  shows "sys.truncate w' = sys.truncate w \<and> opens srv S g"
  using assms(1) grpc_session_opens [of srv c w g w' S, OF _ assms(2)]
  by (auto simp: grpc_enter_def Let_def split: if_splits)

text \<open>All steps outside the calls of the services.\<close>

lemma gstep_opens:
  assumes "chi_ok (libs srv)" and "gstep srv g w = Some (g', w')" and "\<And>uid. S uid \<Longrightarrow> gspares srv uid g"
    and "\<And>i r ck t. g \<noteq> HttpCalling i r ck t" and "\<And>c toks t. g \<noteq> GrpcCalling c toks t" and "g \<noteq> FlusherLoop"
  shows "sys.truncate w' = sys.truncate w \<and> opens srv S g'"
proof (cases g)
  case (HttpArrived r)
  obtain x w1 where x: "requestid_mw srv r w = (x, w1)" by (cases "requestid_mw srv r w")
  with requestid_mw_cases [OF x] have w1: "sys.truncate w1 = sys.truncate w" "\<forall>r1. x = Inr r1 \<longrightarrow>
      (\<exists>i. r1 = r\<lparr>r_ctx := SetRequestID (r_ctx r) i\<rparr>)" by auto
  have "\<not> answered srv (HttpDone r (resp_WriteHeader new_response 500)) u url p" for u url p
    by (simp add: resp_WriteHeader_def new_response_def)
  then have "opens srv S (HttpDone r (resp_WriteHeader new_response 500))" by (intro opens_unanswered) simp_all
  moreover have "opens srv S (HttpRouted r1)" if "x = Inr r1" for r1
    using w1(2) that assms(3) HttpArrived by (intro opens_unanswered) auto
  ultimately show ?thesis using HttpArrived assms(2) x w1(1) by (cases x) auto
next
  case (HttpRouted r)
  with assms(2,3) http_enter_opens [OF assms(1), of r w g' w' S] show ?thesis by simp
next
  case (GrpcArrived c)
  have e: "opens srv S (GrpcDone c (gout.Done None (Some (Internal, m))) toks)" for m toks
    by (intro opens_unanswered) (simp_all add: client_sees_def)
  have o: "opens srv S (GrpcChecked (c\<lparr>g_ctx := x\<rparr>))" for x
    using assms(3) GrpcArrived by (intro opens_unanswered) auto
  show ?thesis using GrpcArrived assms(2) e o
    by (auto simp: grpc_id_def split: option.splits prod.splits sum.splits)
next
  case (GrpcChecked c)
  with assms(2,3) grpc_enter_opens [of srv c w g' w' S] show ?thesis by simp
qed (use assms in simp_all)

section \<open>All interleavings\<close>

text \<open>
  The invariant of a run, for the requests \<open>rs\<close> and threads \<open>T\<close> of the services that its goroutines
  stand for, with \<open>m\<close> what the storage holds and the users in \<open>U\<close> spared. A goroutine that makes no
  call, or none yet, stands for any request.
\<close>

definition interleaved :: "(string \<rightharpoonup> entry) \<Rightarrow> 's Server \<Rightarrow> string set \<Rightarrow> goroutine list \<Rightarrow> 's world \<Rightarrow>
     req list \<Rightarrow> thread list \<Rightarrow> bool" where
  "interleaved m srv U G w rs T \<longleftrightarrow> length rs = length G \<and>
     links_hold (parseURL (libs srv)) (shortenerSvc srv) rs U T m \<and> (\<forall>uid \<in> U. spared (sys.truncate w) rs uid) \<and>
     (\<forall>i < length G. stands srv (G ! i) (rs ! i) (T ! i) \<and> (\<forall>uid \<in> U. gspares srv uid (G ! i)))"

lemma links_hold_length: "links_hold parse svc rs U T m \<Longrightarrow> length T = length rs"
  by (simp add: links_hold_def)

lemma links_hold_open:
  assumes "links_hold parse svc rs U T m"
  shows "links_hold parse svc (rs[i := q]) U (T[i := Ready q]) m"
proof -
  have len: "length T = length rs" using assms by (simp add: links_hold_def)
  have fo: "follows parse svc (rs[i := q] ! j) (T[i := Ready q] ! j)" if "j < length rs" for j
    using assms that len by (cases "j = i") (simp_all add: links_hold_def)
  have old: "rs[i := q] ! j = rs ! j \<and> gives (rs ! j) (T ! j) usr orig served"
    if "gives (rs[i := q] ! j) (T[i := Ready q] ! j) usr orig served" "j < length rs" for j usr orig served
    using that len by (cases "j = i") simp_all
  show ?thesis unfolding links_hold_def
  proof (intro conjI allI impI)
    fix j usr orig served
    assume j: "j < length (rs[i := q])" "gives (rs[i := q] ! j) (T[i := Ready q] ! j) usr orig served"
    then have j': "j < length rs" "rs[i := q] ! j = rs ! j" "gives (rs ! j) (T ! j) usr orig served"
      using old [OF j(2)] by auto
    with assms show "occupied svc m served" unfolding links_hold_def by blast
    show "linked parse svc m (rs[i := q] ! j) usr orig served" if "ID usr \<in> U"
      using assms j' that unfolding links_hold_def by metis
    fix k and usr' :: user and orig'
    assume k: "k < length (rs[i := q])" "k \<noteq> j"
    show "\<not> gives (rs[i := q] ! k) (T[i := Ready q] ! k) usr' orig' served"
    proof
      assume "gives (rs[i := q] ! k) (T[i := Ready q] ! k) usr' orig' served"
      from old [OF this] k assms j' show False unfolding links_hold_def by (metis length_list_update)
    qed
  qed (use len fo in simp_all)
qed

lemma spared_open:
  assumes "spared x rs uid" and "\<forall>k. \<not> deletes k uid q"
  shows "spared x (rs[i := q]) uid"
proof -
  have "\<not> deletes k uid (rs[i := q] ! j)" if "j < length rs" for k j
    using assms that by (cases "j = i") (simp_all add: spared_def list_all_length)
  with assms(1) show ?thesis by (simp add: spared_def list_all_length)
qed

lemma interleaved_open:
  assumes "interleaved m srv U G w rs T" and "i < length G" and "sys.truncate w' = sys.truncate w"
    and "opens srv (\<lambda>uid. uid \<in> U) g"
  shows "\<exists>rs T. interleaved m srv U (G[i := g]) w' rs T"
proof -
  from assms(4) obtain q where q: "stands srv g q (Ready q)" "\<forall>uid \<in> U. \<forall>k. \<not> deletes k uid q"
      "\<forall>uid \<in> U. gspares srv uid g" by (auto simp: opens_def)
  have len: "length T = length rs" using assms(1) by (simp add: interleaved_def links_hold_def)
  have "interleaved m srv U (G[i := g]) w' (rs[i := q]) (T[i := Ready q])"
    using assms(1-3) q len links_hold_open [of _ _ rs U T m i q] spared_open [of "sys.truncate w" rs _ q i]
    by (auto simp: interleaved_def nth_list_update)
  then show ?thesis by blast
qed

lemma interleaved_done:
  assumes "interleaved m srv U G w rs T" and "i < length G" and "stands srv (G ! i) (rs ! i) (T ! i) \<Longrightarrow> stands srv g (rs ! i) (T ! i)"
    and "is_done g"
  shows "interleaved m srv U (G[i := g]) w rs T"
proof -
  have "gspares srv uid g" for uid using assms(4) by (cases g) (simp_all add: is_done_def)
  with assms(1-3) show ?thesis by (auto simp: interleaved_def nth_list_update)
qed

lemma kind_ok_shadow [simp]: "kind_ok q (shadow t) = kind_ok q t"
  by (cases t; cases q) simp_all

lemma stands_step:
  "stands srv (HttpCalling i r ck t) q t0 \<Longrightarrow> kind_ok q t' \<Longrightarrow> stands srv (HttpCalling i r ck t') q (shadow t')"
  "stands srv (GrpcCalling c toks t) q t0 \<Longrightarrow> kind_ok q t' \<Longrightarrow> stands srv (GrpcCalling c toks t') q (shadow t')"
  by (simp_all add: stands_def)

context batch_storage
begin

text \<open>A step of a call.\<close>

lemma interleaved_call:
  assumes "interleaved (view (sto w)) srv U G w rs T" and "ok (sto w)" and "storage srv = st" and "i < length G"
    and "tstep (parseURL (libs srv)) st (shortenerSvc srv) (T ! i) (sys.truncate w) = Some (t, x)"
    and "stands srv g (rs ! i) t" and "\<forall>uid \<in> U. gspares srv uid g"
  shows "interleaved (view (sto x)) srv U (G[i := g]) (put_sys x w) rs (T[i := t]) \<and> ok (sto x)"
proof -
  have "length T = length rs" using assms(1) links_hold_length unfolding interleaved_def by blast
  with assms(1,4) have l: "links_hold (parseURL (libs srv)) (shortenerSvc srv) rs U T (view (sto (sys.truncate w)))" "i < length rs"
      "\<forall>uid \<in> U. spared (sys.truncate w) rs uid" "length T = length rs"
    by (simp_all add: interleaved_def)
  have "ok (sto (sys.truncate w))" using assms(2) by simp
  from links_hold_step [OF l(1) this l(3,2) assms(5)] assms(1,4,6,7) l(4) show ?thesis
    by (auto simp: interleaved_def nth_list_update)
qed

lemma interleaved_service:
  assumes "interleaved (view (sto w)) srv U G w rs T" and "ok (sto w)" and "storage srv = st" and "i < length G"
    and "service_step srv t w = Some (t', w')" and "T ! i = shadow t"
    and "kind_ok (rs ! i) t' \<Longrightarrow> stands srv g (rs ! i) (shadow t')" and "\<forall>uid \<in> U. gspares srv uid g"
  shows "\<exists>T. interleaved (view (sto w')) srv U (G[i := g]) w' rs T \<and> ok (sto w')"
proof -
  from assms(5) obtain x where x: "tstep (parseURL (libs srv)) (storage srv) (shortenerSvc srv) t (sys.truncate w) = Some (t', x)"
      "w' = put_sys x w" by (auto simp: service_step_def)
  have t: "tstep (parseURL (libs srv)) st (shortenerSvc srv) (T ! i) (sys.truncate w) = Some (t', x)"
    using x(1) assms(3,6) by (simp add: tstep_shadow)
  have "follows (parseURL (libs srv)) (shortenerSvc srv) (rs ! i) (T ! i)"
    using assms(1,4) by (auto simp: interleaved_def links_hold_def)
  from tstep_kind [OF t this] assms(7) tstep_started [OF t] have "stands srv g (rs ! i) t'" by simp
  from interleaved_call [OF assms(1-4) t this assms(8)] x(2) show ?thesis by auto
qed

text \<open>A request that has called a service takes the next step of the call, or answers.\<close>

lemma http_calling_interleaved:
  assumes "interleaved (view (sto w)) srv U G w rs T" and "ok (sto w)" and "storage srv = st" and "i < length G"
    and "chi_ok (libs srv)" and "comp_ok (compressor (libs srv))" and "gstep srv (G ! i) w = Some (g, w')"
    and HttpCalling: "G ! i = HttpCalling j r ck t"
  shows "(\<exists>rs T. interleaved (view (sto w')) srv U (G[i := g]) w' rs T) \<and> ok (sto w')"
proof -
  have st: "stands srv (G ! i) (rs ! i) (T ! i)" using assms(1,4) by (auto simp: interleaved_def)
  show ?thesis
  proof (cases "\<exists>a. t = Done a")
    case True
    then obtain a where a: "t = Done a" by blast
    with assms(7) HttpCalling have g: "g = respond srv r ((h_after (halves (libs srv) ! j) a)\<lparr>acts := ck @
        acts (h_after (halves (libs srv) ! j) a)\<rparr>)" "w' = w" by (simp_all add: Let_def)
    from http_finish_stands [OF assms(5,6)] st HttpCalling a g(1) have "stands srv g (rs ! i) (T ! i)" by simp
    then have "interleaved (view (sto w)) srv U (G[i := g]) w rs T"
      by (intro interleaved_done [OF assms(1,4)]) (simp_all add: g(1))
    with assms(2) g(2) show ?thesis by blast
  next
    case False
    with assms(7) HttpCalling obtain t' where t: "service_step srv t w = Some (t', w')" "g = HttpCalling j r ck t'"
      by (auto simp: gstep_calling)
    have k: "T ! i = shadow t" using st HttpCalling by (simp add: stands_def)
    have "stands srv g (rs ! i) (shadow t')" if "kind_ok (rs ! i) t'"
      using st that unfolding t(2) HttpCalling by (rule stands_step)
    from interleaved_service [OF assms(1-4) t(1) k this] t(2) show ?thesis by auto
  qed
qed

lemma grpc_calling_interleaved:
  assumes "interleaved (view (sto w)) srv U G w rs T" and "ok (sto w)" and "storage srv = st" and "i < length G"
    and "gstep srv (G ! i) w = Some (g, w')" and GrpcCalling: "G ! i = GrpcCalling c toks t"
  shows "(\<exists>rs T. interleaved (view (sto w')) srv U (G[i := g]) w' rs T) \<and> ok (sto w')"
proof -
  have st: "stands srv (G ! i) (rs ! i) (T ! i)" using assms(1,4) by (auto simp: interleaved_def)
  show ?thesis
  proof (cases "\<exists>a. t = Done a")
    case True
    then obtain a where a: "t = Done a" by blast
    with assms(5) GrpcCalling have g: "g = grpc_end c toks (grpc_after a)" "w' = w" by simp_all
    from grpc_finish_stands st GrpcCalling a g(1) have "stands srv g (rs ! i) (T ! i)" by simp
    then have "interleaved (view (sto w)) srv U (G[i := g]) w rs T"
      by (intro interleaved_done [OF assms(1,4)]) (simp_all add: g(1))
    with assms(2) g(2) show ?thesis by blast
  next
    case False
    with assms(5) GrpcCalling obtain t' where t: "service_step srv t w = Some (t', w')" "g = GrpcCalling c toks t'"
      by (auto simp: gstep_calling)
    have k: "T ! i = shadow t" using st GrpcCalling by (simp add: stands_def)
    have "stands srv g (rs ! i) (shadow t')" if "kind_ok (rs ! i) t'"
      using st that unfolding t(2) GrpcCalling by (rule stands_step)
    from interleaved_service [OF assms(1-4) t(1) k this] t(2) show ?thesis by auto
  qed
qed

lemma flusher_interleaved:
  assumes "interleaved (view (sto w)) srv U G w rs T" and "ok (sto w)" and "storage srv = st" and "i < length G"
    and "gstep srv (G ! i) w = Some (g, w')" and FlusherLoop: "G ! i = FlusherLoop"
  shows "(\<exists>rs T. interleaved (view (sto w')) srv U (G[i := g]) w' rs T) \<and> ok (sto w')"
proof -
  obtain f s' where f: "flush_deletes st (queue w) (sto w) = (f, s')" by (metis surj_pair)
  with assms(3,5) FlusherLoop have g: "g = FlusherLoop" "w' = w\<lparr>sto := s', queue := f\<rparr>" by auto
  let ?rs = "rs[i := FlushQueue]" and ?T = "T[i := Ready FlushQueue]"
  have len: "length T = length rs" "length rs = length G" using assms(1) by (auto simp: interleaved_def links_hold_def)
  have "stands srv (G ! j) (?rs ! j) (?T ! j)" if "j < length G" for j
    using assms(1) that len FlusherLoop by (cases "j = i") (simp_all add: interleaved_def stands_def)
  then have inv: "interleaved (view (sto w)) srv U G w ?rs ?T"
    using assms(1) links_hold_open [of _ _ rs U T _ i FlushQueue] spared_open [of "sys.truncate w" rs _ FlushQueue i]
    by (simp add: interleaved_def)
  let ?x = "(sys.truncate w)\<lparr>sto := s', queue := f\<rparr>"
  have step: "tstep (parseURL (libs srv)) st (shortenerSvc srv) (?T ! i) (sys.truncate w) = Some (Done AFlushed, ?x)"
    using f len assms(4) by simp
  have "stands srv g (?rs ! i) (Done AFlushed)" using len assms(4) by (simp add: stands_def g(1))
  from interleaved_call [OF inv assms(2-4) step this] have
    "interleaved (view (sto ?x)) srv U (G[i := g]) (put_sys ?x w) ?rs (?T[i := Done AFlushed]) \<and> ok (sto ?x)"
    by (simp add: g(1))
  moreover have "put_sys ?x w = w'" by (simp add: g(2) put_sys_def)
  ultimately show ?thesis using g(2) by auto
qed

lemma gstep_interleaved:
  assumes "interleaved (view (sto w)) srv U G w rs T" and "ok (sto w)" and "storage srv = st" and "i < length G"
    and "chi_ok (libs srv)" and "comp_ok (compressor (libs srv))" and "gstep srv (G ! i) w = Some (g, w')"
  shows "(\<exists>rs T. interleaved (view (sto w')) srv U (G[i := g]) w' rs T) \<and> ok (sto w')"
proof -
  have sp: "\<And>uid. uid \<in> U \<Longrightarrow> gspares srv uid (G ! i)"
    using assms(1,4) by (auto simp: interleaved_def)
  have other: ?thesis if "\<And>i' r ck t. G ! i \<noteq> HttpCalling i' r ck t" "\<And>c toks t. G ! i \<noteq> GrpcCalling c toks t"
    "G ! i \<noteq> FlusherLoop"
  proof -
    from gstep_opens [OF assms(5,7) _ that, of "\<lambda>uid. uid \<in> U"] sp
    have o: "sys.truncate w' = sys.truncate w" "opens srv (\<lambda>uid. uid \<in> U) g" by auto
    from arg_cong [OF o(1), of sto] have "sto w' = sto w" by simp
    with interleaved_open [OF assms(1,4) o] assms(2) show ?thesis by simp
  qed
  show ?thesis
  proof (cases "G ! i")
    case (HttpCalling j r ck t)
    from http_calling_interleaved [OF assms this] show ?thesis .
  next
    case (GrpcCalling c toks t)
    from grpc_calling_interleaved [OF assms(1-4,7) this] show ?thesis .
  next
    case FlusherLoop
    from flusher_interleaved [OF assms(1-4,7) this] show ?thesis .
  qed (use other in simp_all)
qed

lemma grun_interleaved:
  assumes "grun srv sched G w = Some (G', w')" and "interleaved (view (sto w)) srv U G w rs T" and "ok (sto w)"
    and "storage srv = st" and "chi_ok (libs srv)" and "comp_ok (compressor (libs srv))"
  shows "(\<exists>rs T. interleaved (view (sto w')) srv U G' w' rs T) \<and> ok (sto w') \<and> length G' = length G"
  using assms(1-3)
proof (induction sched arbitrary: G w rs T)
  case Nil
  then show ?case by auto
next
  case (Cons i sched)
  then obtain g w1 where g: "i < length G" "gstep srv (G ! i) w = Some (g, w1)" "grun srv sched (G[i := g]) w1 = Some (G', w')"
    by (auto split: if_splits option.splits)
  from gstep_interleaved [OF Cons.prems(2,3) assms(4) g(1) assms(5,6) g(2)] Cons.IH [OF g(3)] show ?case by auto
qed

text \<open>At the start the goroutines stand for nothing.\<close>

lemma interleaved_start:
  assumes "list_all at_start G" and "U = {uid. spared_user srv G w uid}"
  shows "interleaved m srv U G w (replicate (length G) ReqPing) (replicate (length G) (Ready ReqPing))"
proof -
  have "stands srv (G ! i) ReqPing (Ready ReqPing)" if "i < length G" for i
  proof -
    have "at_start (G ! i)" using assms(1) that by (simp add: list_all_length)
    then show ?thesis by (cases "G ! i") (simp_all add: stands_def at_start_def)
  qed
  then show ?thesis
    using assms(2) by (simp add: interleaved_def links_hold_def spared_def spared_user_def list_all_length)
qed

lemma links_hold_links:
  assumes "links_hold (parseURL (libs srv)) (shortenerSvc srv) rs U T m" and "i < length rs"
    and "gives (rs ! i) (T ! i) u url served"
  shows "ID u \<in> U \<Longrightarrow> linked (parseURL (libs srv)) (shortenerSvc srv) m (rs ! i) u url served" and "is_link srv served"
proof -
  show "linked (parseURL (libs srv)) (shortenerSvc srv) m (rs ! i) u url served" if "ID u \<in> U"
    using assms that unfolding links_hold_def by blast
  have "occupied (shortenerSvc srv) m served" using assms unfolding links_hold_def by blast
  then show "is_link srv served" by (auto simp: occupied_def is_link_def)
qed

lemma interleaved_answered:
  assumes "interleaved m srv U G w rs T" and "json_links srv" and "i < length G" and "answered srv (G ! i) u url p"
  shows "gives (rs ! i) (T ! i) u url (getServedURL (shortenerSvc srv) p)"
proof -
  let ?s = "getServedURL (shortenerSvc srv) p"
  have st: "stands srv (G ! i) (rs ! i) (T ! i)" and i: "i < length rs" using assms(1,3) by (simp_all add: interleaved_def)
  have "links_hold (parseURL (libs srv)) (shortenerSvc srv) rs U T m" using assms(1) by (simp add: interleaved_def)
  note link = links_hold_links(2) [OF this i]
  from st assms(4) obtain t' where t': "same_answer srv (T ! i) t'" "gives (rs ! i) t' u url ?s"
    unfolding stands_def told_def by blast
  from t'(2) show ?thesis
  proof (cases rule: gives_cases)
    case shorten
    with t'(1) consider "T ! i = t'"
      | x b where "T ! i = Done (AShorten (x, None))" "is_link srv ?s" "marshalShortenResponse (libs srv) \<lparr>Result = x\<rparr> = Inr b"
          "marshalShortenResponse (libs srv) \<lparr>Result = ?s\<rparr> = Inr b"
      by (auto simp: same_answer_def)
    then show ?thesis
    proof cases
      case 2
      with shorten link [of u url x] have "is_link srv x" by simp
      with 2 assms(2) have "x = ?s" unfolding json_links_def by blast
      with 2 shorten show ?thesis by simp
    qed (use t'(2) in simp)
  next
    case (batch b ys k)
    with t'(1) consider "T ! i = t'"
      | xs d where "T ! i = Done (ABatch (xs, None))" "list_all (\<lambda>x. is_link srv (SShort x)) ys"
          "marshalBatchShortened (libs srv) xs = Inr d" "marshalBatchShortened (libs srv) ys = Inr d"
      by (auto simp: same_answer_def)
    then show ?thesis
    proof cases
      case 2
      have len: "length xs = length b" using st 2(1) batch(1) by (simp add: stands_def)
      have "is_link srv (SShort (xs ! j))" if "j < length b" for j
        using link [of u "BURL (b ! j)" "SShort (xs ! j)"] 2(1) batch(1) that by auto
      with len have "list_all (\<lambda>x. is_link srv (SShort x)) xs" by (simp add: list_all_length)
      with 2 assms(2) have eq: "map SShort xs = map SShort ys" unfolding json_links_def by blast
      from arg_cong [OF this, of length] len have "length ys = length b" by simp
      with arg_cong [OF eq, of "\<lambda>l. l ! k"] len batch(3) have "SShort (xs ! k) = SShort (ys ! k)" by simp
      with 2 batch show ?thesis by auto
    qed (use t'(2) in simp)
  qed
qed

lemma requests_interleave:
  assumes "grun srv sched G w = Some (G', w')" and "ok (sto w)" and "storage srv = st"
    and "chi_ok (libs srv)" and "comp_ok (compressor (libs srv))" and "json_links srv"
    and "pathLength (shortenerSvc srv) \<noteq> 0" and "pathLength (shortenerSvc srv) \<noteq> 4"
    and "list_all at_start G" and "i < length G" and "answered srv (G' ! i) u url p" and "spared_user srv G w (ID u)"
  shows "(\<exists>o1. stored_for srv (G' ! i) url = Some o1 \<and> leads_to srv w' p o1) \<and>
    (\<forall>j < length G. \<forall>u' url'. j \<noteq> i \<longrightarrow> \<not> answered srv (G' ! j) u' url' p)"
proof -
  let ?U = "{uid. spared_user srv G w uid}"
  from grun_interleaved [OF assms(1) interleaved_start [OF assms(9) HOL.refl] assms(2-5)] obtain rs T where
    inv: "interleaved (view (sto w')) srv ?U G' w' rs T" "ok (sto w')" "length G' = length G" by blast
  have i: "i < length G'" "ID u \<in> ?U" using assms(10,12) inv(3) by auto
  note a = interleaved_answered [OF inv(1) assms(6) i(1) assms(11)]
  have h: "links_hold (parseURL (libs srv)) (shortenerSvc srv) rs ?U T (view (sto w'))" "length rs = length G'"
    using inv(1) by (simp_all add: interleaved_def)
  have "told srv (posted_batch (G' ! i)) (rs ! i) (T ! i) u url p"
    using inv(1) i(1) assms(11) unfolding interleaved_def stands_def by blast
  then have "stored_for srv (G' ! i) url = stored_url (parseURL (libs srv)) (rs ! i) url"
    using a by (cases "rs ! i") (auto simp: told_def stored_for_def split: sum.split)
  with links_hold_links(1) [OF h(1) _ a i(2)] i(1) h(2) obtain o1 where o1: "stored_for srv (G' ! i) url = Some o1"
      "random_path (pathLength (shortenerSvc srv)) p" "view (sto w') p = Some (new_entry u o1)"
    by (auto simp: linked_def)
  have "leads_to srv w' p o1" unfolding leads_to_def
    using http_link_followed [OF inv(2) assms(3,4) _ _ _ o1(2) assms(7,8) o1(3)]
      grpc_link_followed [OF inv(2) assms(3) _ _ _ _ _ o1(2,3)] by auto
  moreover have "\<not> answered srv (G' ! j) u' url' p" if "j < length G" "j \<noteq> i" for j u' url'
  proof
    assume "answered srv (G' ! j) u' url' p"
    from interleaved_answered [OF inv(1) assms(6) _ this] that inv(3)
    have "gives (rs ! j) (T ! j) u' url' (getServedURL (shortenerSvc srv) p)" by auto
    with a i that inv(3) h show False unfolding links_hold_def by metis
  qed
  ultimately show ?thesis using o1(1) by blast
qed

end

section \<open>Properties\<close>

text \<open>C5. Requests to both servers served at the same time on a database do not spoil each other's
  links: whatever the schedule of their goroutines and of the flusher, when an http client has been answered
  201 or a grpc client a response, for one url or for a batch, and nobody asks for deletions in the name of
  its user, then each path in the answer leads to its url on both servers (a url of a batch as it was posted,
  any other as it was parsed and printed), and no other client at all, whoever deletes, was answered with
  the same path.\<close>

theorem concurrent_requests:
  assumes "pgx_pool pool tbl up" and "up (pool_st (sto w))" and "storage srv = database_storage pool"
    and "chi_ok (libs srv)" and "comp_ok (compressor (libs srv))" and "json_links srv"
    and "pathLength (shortenerSvc srv) \<noteq> 0" and "pathLength (shortenerSvc srv) \<noteq> 4"
    and "list_all at_start G" and "grun srv sched G w = Some (G', w')"
    and "i < length G" and "answered srv (G' ! i) u url p" and "spared_user srv G w (ID u)"
  shows "(\<exists>o1. stored_for srv (G' ! i) url = Some o1 \<and> leads_to srv w' p o1) \<and>
    (\<forall>j < length G. \<forall>u' url'. j \<noteq> i \<longrightarrow> \<not> answered srv (G' ! j) u' url' p)"
proof -
  have "database_ok up (sto w)" using assms(2) by (simp add: database_ok_def)
  from batch_storage.requests_interleave [OF pgx_pool.is_batch_storage [OF assms(1)] assms(10) this assms(3-9,11-13)]
  show ?thesis .
qed

text \<open>
  A server whose json text of a batch spells the short urls one after the other. A batch over http and a
  single url over grpc are shortened at the same time while a third client asks for deletions; the single
  one draws a path of the batch and tries again.
\<close>

fun spelled :: "string list \<Rightarrow> string" where
  "spelled [] = []"
| "spelled ([] # ss) = CHR ''.'' # spelled ss"
| "spelled ((c # s) # ss) = CHR ''c'' # c # spelled (s # ss)"

lemma spelled_inj: "spelled xs = spelled ys \<Longrightarrow> xs = ys"
proof (induction xs arbitrary: ys rule: spelled.induct)
  case 1
  then show ?case by (cases ys rule: spelled.cases) auto
next
  case (2 ss)
  then show ?case by (cases ys rule: spelled.cases) auto
next
  case (3 c s ss)
  then show ?case by (cases ys rule: spelled.cases) auto
qed

definition race_server :: "sqlserver Database Server" where
  "race_server = batch_server\<lparr>libs := (libs batch_server)\<lparr>marshalBatchShortened := (\<lambda>xs. Inr (spelled (map SShort xs)))\<rparr>\<rparr>"

definition sample_goroutines :: "goroutine list" where
  "sample_goroutines = [HttpArrived (sample_hreq ''POST'' ''/api/shorten/batch'' ''two'' True),
     GrpcArrived (sample_call (ShortenRequest ''http://e.f'') True),
     HttpArrived (sample_hreq ''DELETE'' ''/api/user/urls'' ''01'' False), FlusherLoop]"

definition sample_interleaving :: "nat list" where
  "sample_interleaving = [0, 1, 2, 0, 1, 2, 0, 1, 2, 0, 1, 2, 3, 1, 1]"

definition race_world :: "sqlserver Database world" where
  "race_world = (sample_world (sample_db []))\<lparr>rnd := (\<lambda>i. if i < 6 then i mod 4 else i)\<rparr>"

lemma race_paths: "random_path 2 ''01''" "random_path 2 ''23''"
proof -
  have "fst (RandString 2 (\<lambda>i. i)) = ''01''" "fst (RandString 2 (\<lambda>i. i + 2)) = ''23''" by code_simp+
  then show "random_path 2 ''01''" "random_path 2 ''23''" unfolding random_path_def by metis+
qed

lemma race_json: "json_links race_server"
proof -
  have "map SShort xs = map SShort ys"
    if "marshalBatchShortened (libs race_server) xs = Inr b" "marshalBatchShortened (libs race_server) ys = Inr b" for xs ys b
    using that spelled_inj by (simp add: race_server_def)
  moreover have "x = y" if "marshalShortenResponse (libs race_server) \<lparr>Result = x\<rparr> = Inr b"
      "marshalShortenResponse (libs race_server) \<lparr>Result = y\<rparr> = Inr b" for x y b
    using that by (simp add: race_server_def batch_server_def sample_httplibs_def)
  ultimately show ?thesis unfolding json_links_def by blast
qed

theorem concurrent_requests_witness:
  "\<exists>G w. grun race_server sample_interleaving sample_goroutines race_world = Some (G, w) \<and>
    answered race_server (G ! 0) owner_user ''http://c.d'' ''23'' \<and> leads_to race_server w ''23'' ''http://c.d'' \<and>
    (\<exists>c out toks. G ! 1 = GrpcDone c out toks \<and> client_sees out = (OK, Some (ShortenResponse ''http://h/67'')))"
proof -
  let ?run = "grun race_server sample_interleaving sample_goroutines race_world"
  let ?urls = "[\<lparr>BID = ''1'', BURL = ''http://a.b''\<rparr>, \<lparr>BID = ''2'', BURL = ''http://c.d''\<rparr>]"
  let ?res = "[\<lparr>SID = ''1'', SShort = ''http://h/01''\<rparr>, \<lparr>SID = ''2'', SShort = ''http://h/23''\<rparr>]"
  have "map_option (\<lambda>(G, w). (case G ! 1 of GrpcDone c out toks \<Rightarrow> Some (client_sees out) | _ \<Rightarrow> None,
      case G ! 0 of HttpDone r resp \<Rightarrow> Some (r_method r, r_path r, readBody (libs race_server) r, map_option fst (sent resp),
        received (compressor (libs race_server)) resp = Some (spelled (map SShort ?res)), GetUserFromContext (r_ctx r)) | _ \<Rightarrow> None)) ?run =
    Some (Some (OK, Some (ShortenResponse ''http://h/67'')),
      Some (''POST'', ''/api/shorten/batch'', Inr ''two'', Some 201, True, Some owner_user))" by code_simp
  then obtain G w where run: "?run = Some (G, w)"
    and g1: "(case G ! 1 of GrpcDone c out toks \<Rightarrow> Some (client_sees out) | _ \<Rightarrow> None) = Some (OK, Some (ShortenResponse ''http://h/67''))"
    and g0: "(case G ! 0 of HttpDone r resp \<Rightarrow> Some (r_method r, r_path r, readBody (libs race_server) r, map_option fst (sent resp),
        received (compressor (libs race_server)) resp = Some (spelled (map SShort ?res)), GetUserFromContext (r_ctx r)) | _ \<Rightarrow> None) =
      Some (''POST'', ''/api/shorten/batch'', Inr ''two'', Some 201, True, Some owner_user)"
    by auto
  from g1 obtain c out toks where c: "G ! 1 = GrpcDone c out toks" "client_sees out = (OK, Some (ShortenResponse ''http://h/67''))"
    by (cases "G ! 1") simp_all
  from g0 obtain r resp where r: "G ! 0 = HttpDone r resp" "r_method r = ''POST''" "r_path r = ''/api/shorten/batch''"
      "readBody (libs race_server) r = Inr ''two''" "map_option fst (sent resp) = Some 201"
      "received (compressor (libs race_server)) resp = Some (spelled (map SShort ?res))" "GetUserFromContext (r_ctx r) = Some owner_user"
    by (cases "G ! 0") simp_all
  have svc: "shortenerSvc race_server = sample_service" by (simp add: race_server_def)
  have "list_all (\<lambda>x. is_link race_server (SShort x)) ?res"
    using race_paths unfolding is_link_def svc by (auto simp: sample_service_def getServedURL_def)
  moreover have "marshalBatchShortened (libs race_server) ?res = Inr (spelled (map SShort ?res))"
    "unmarshalBatchURLs (libs race_server) ''two'' = Inr ?urls" by (simp_all add: race_server_def)
  moreover have "SShort (?res ! 1) = getServedURL (shortenerSvc race_server) ''23''" "BURL (?urls ! 1) = ''http://c.d''"
    "random_path (pathLength (shortenerSvc race_server)) ''23''"
    using race_paths by (simp_all add: svc sample_service_def getServedURL_def)
  moreover have "1 < length ?urls" by simp
  ultimately have an: "answered race_server (G ! 0) owner_user ''http://c.d'' ''23''"
    unfolding r(1) answered.simps using r(2-7) by metis
  have sp: "spared_user race_server sample_goroutines race_world (ID owner_user)"
    by (simp add: spared_user_def requested_def race_world_def sample_queue_def sample_goroutines_def deleting_def gdeleting_def)
      (simp add: sample_hreq_def)
  have "\<exists>o1. stored_for race_server (G ! 0) ''http://c.d'' = Some o1 \<and> leads_to race_server w ''23'' o1"
    by (rule conjunct1 [OF concurrent_requests [OF pg.pgx_pool_axioms _ _ _ _ race_json _ _ _ run _ an sp]])
      (use sample_chi_ok sample_comp_ok in \<open>simp_all add: race_server_def race_world_def batch_server_def sample_server_def sample_service_def table_inv_def sample_goroutines_def at_start_def chi_ok_def\<close>)
  then have "leads_to race_server w ''23'' ''http://c.d''" using r(1,3) by (simp add: stored_for_def)
  with run an c show ?thesis by blast
qed

end
