(* ===== verification/RestartSafe.thy ===== *)
theory RestartSafe
  imports Restart GoroutineLinks
begin

text \<open>
  When the file storage can always be opened again. A record goes into the file of
  \<open>internal/storage/file/file.go\<close> as it is, and \<open>readURLsFromFile\<close> refuses the whole file for one record
  with a uuid, a url or a user id that does not parse. \<open>Shorten\<close> only stores urls that were parsed and
  printed, \<open>ShortenBatch\<close> stores them unseen; the ids come from the sessions. The invariant here says
  that every record passes those checks, and which requests keep it.
\<close>

section \<open>Readable records\<close>

definition id_ok :: "libs \<Rightarrow> string \<Rightarrow> bool" where
  "id_ok L uid \<longleftrightarrow> snd (NewFromUserID (uuidFromBytes L) uid) = None"

text \<open>A url that can be read back from the file, in whatever record.\<close>

definition good_url :: "libs \<Rightarrow> string \<Rightarrow> bool" where
  "good_url L url \<longleftrightarrow> \<not> isl (urlParse L url) \<and> (\<forall>i p uid d. uuidFromString L i = None \<longrightarrow> list_all pathChar p \<longrightarrow>
     id_ok L uid \<longrightarrow> json_ok L \<lparr>UUID = i, ShortURL = p, OriginalURL = url, RUserID = uid, Deleted = d\<rparr>)"

definition good_record :: "libs \<Rightarrow> Record \<Rightarrow> bool" where
  "good_record L r \<longleftrightarrow> uuidFromString L (UUID r) = None \<and> list_all pathChar (ShortURL r) \<and>
     good_url L (OriginalURL r) \<and> id_ok L (RUserID r)"

definition src_all :: "('a \<Rightarrow> bool) \<Rightarrow> (gerr + 'a) src \<Rightarrow> bool" where
  "src_all P g \<longleftrightarrow> (\<forall>n x. g n = Inr x \<longrightarrow> P x)"

definition uuids_ok :: "libs \<Rightarrow> (gerr + string) src \<Rightarrow> bool" where
  "uuids_ok L = src_all (\<lambda>i. uuidFromString L i = None)"

definition good_db :: "libs \<Rightarrow> DB \<Rightarrow> bool" where
  "good_db L db \<longleftrightarrow> (\<forall>(k, r) \<in> set db. good_record L r)"

definition readable_mem :: "libs \<Rightarrow> Memory \<Rightarrow> bool" where
  "readable_mem L m \<longleftrightarrow> good_db L (DB m) \<and> uuids_ok L (gen m)"

lemma src_all_next: "src_all P g \<Longrightarrow> next_src g = (x, g') \<Longrightarrow> src_all P g' \<and> (\<forall>v. x = Inr v \<longrightarrow> P v)"
  by (auto simp: src_all_def next_src_def)

lemma good_record_storable: "good_record L r \<Longrightarrow> json_ok L r \<and> record_check L r = None"
  by (cases r) (auto simp: good_record_def good_url_def record_check_def id_ok_def split: sum.splits option.splits)

lemma readable_storable: "readable_mem L m \<Longrightarrow> storable L (DB m)"
  using good_record_storable by (fastforce simp: readable_mem_def good_db_def storable_def)

section \<open>The storage keeps them\<close>

definition good_entry :: "libs \<Rightarrow> URL \<Rightarrow> bool" where
  "good_entry L u \<longleftrightarrow> list_all pathChar (Short u) \<and> good_url L (Orig u) \<and> id_ok L (UserID u)"

lemma good_record_mk: "good_entry L u \<Longrightarrow> uuidFromString L i = None \<Longrightarrow> good_record L (mk_record i u)"
  by (simp add: good_record_def good_entry_def mk_record_def)

lemma good_db_update: "good_db L db \<Longrightarrow> good_record L r \<Longrightarrow> good_db L (AList.update k r db)"
  by (induction db) (auto simp: good_db_def)

lemma good_db_map_of: "good_db L db \<Longrightarrow> map_of db k = Some r \<Longrightarrow> good_record L r"
  using map_of_SomeD by (fastforce simp: good_db_def)

lemma Memory_Store_readable:
  assumes "readable_mem L m" and "good_entry L u" and "Memory_Store m u ow = (r, m')"
  shows "readable_mem L m'"
proof -
  obtain x g where x: "next_src (gen m) = (x, g)" by (cases "next_src (gen m)")
  with src_all_next [of _ "gen m" x g] assms(1) have g: "uuids_ok L g" "\<forall>i. x = Inr i \<longrightarrow> uuidFromString L i = None"
    by (auto simp: readable_mem_def uuids_ok_def)
  show ?thesis
    using assms x g good_record_mk good_db_update
    by (auto simp: Memory_Store_def readable_mem_def split: if_splits sum.splits)
qed

lemma batch_uuids_ok:
  "batch_ids db us g = (x, g') \<Longrightarrow> uuids_ok L g \<Longrightarrow>
     uuids_ok L g' \<and> (\<forall>is. x = Inr is \<longrightarrow> list_all (\<lambda>i. uuidFromString L i = None) is)"
proof (induction us arbitrary: g x g')
  case (Cons u us)
  obtain y h where y: "next_src g = (y, h)" by (cases "next_src g")
  with src_all_next [of _ g y h] Cons.prems(2) have h: "uuids_ok L h" "\<forall>i. y = Inr i \<longrightarrow> uuidFromString L i = None"
    by (auto simp: uuids_ok_def)
  obtain z k where z: "batch_ids db us h = (z, k)" by (cases "batch_ids db us h")
  from Cons.IH [OF z h(1)] Cons.prems y h z show ?case
    by (auto split: if_splits sum.splits)
qed simp

lemma batch_write_good:
  "good_db L db \<Longrightarrow> list_all (good_entry L) us \<Longrightarrow> list_all (\<lambda>i. uuidFromString L i = None) is \<Longrightarrow>
     good_db L (batch_write db us is)"
  by (induction db us "is" rule: batch_write.induct) (simp_all add: good_db_update good_record_mk)

lemma Memory_StoreBatch_readable:
  assumes "readable_mem L m" and "list_all (good_entry L) us" and "Memory_StoreBatch m us = (e, m')"
  shows "readable_mem L m'"
proof -
  obtain x g where x: "batch_ids (DB m) us (gen m) = (x, g)" by (cases "batch_ids (DB m) us (gen m)")
  from batch_uuids_ok [OF x] batch_write_good [of L "DB m" us] assms x show ?thesis
    by (auto simp: Memory_StoreBatch_def readable_mem_def split: sum.splits)
qed

lemma delete_loop_good: "good_db L db \<Longrightarrow> good_db L (snd (delete_loop us db n))"
proof (induction us db n rule: delete_loop.induct)
  case (2 u us db n)
  show ?case
  proof (cases "map_of db (Short u)")
    case (Some r)
    from good_db_map_of [OF "2.prems" Some] have "good_record L (r\<lparr>Deleted := True\<rparr>)" by (simp add: good_record_def)
    with Some 2 good_db_update show ?thesis by simp
  qed (use 2 in simp)
qed simp

lemma Memory_Delete_readable: "readable_mem L m \<Longrightarrow> readable_mem L (snd (Memory_DeleteUserURLs m us))"
  using delete_loop_good [of L "DB m" us 0]
  by (auto simp: Memory_DeleteUserURLs_def readable_mem_def split: prod.split)

definition readable :: "libs \<Rightarrow> File \<Rightarrow> bool" where
  "readable L s \<longleftrightarrow> readable_mem L (mem s)"

lemma file_methods_readable:
  assumes "readable L s"
  shows "good_entry L u \<Longrightarrow> readable L (snd (st_Store file_storage s u ow))"
    and "list_all (good_entry L) us \<Longrightarrow> readable L (snd (st_StoreBatch file_storage s us))"
    and "readable L (snd (st_DeleteUserURLs file_storage s vs))"
    and "readable L (snd (st_Get file_storage s k))" and "readable L (snd (st_ListUserURLs file_storage s i))"
    and "readable L (snd (st_Ping file_storage s))" and "readable L (snd (st_Stats file_storage s))"
proof -
  note r = assms [unfolded readable_def]
  show "readable L (snd (st_Store file_storage s u ow))" if "good_entry L u"
    using Memory_Store_readable [OF r that, of ow] assms
    by (auto simp: readable_def file_storage_def File_Store_def split: prod.split option.split)
  show "readable L (snd (st_StoreBatch file_storage s us))" if "list_all (good_entry L) us"
    using Memory_StoreBatch_readable [OF r that] assms
    by (auto simp: readable_def file_storage_def File_StoreBatch_def split: prod.split option.split)
  show "readable L (snd (st_DeleteUserURLs file_storage s vs))"
    using Memory_Delete_readable [OF r, of vs] assms
    by (auto simp: readable_def file_storage_def File_DeleteUserURLs_def split: prod.split option.split)
qed (use assms in \<open>simp_all add: file_storage_def\<close>)

section \<open>The services keep them\<close>

text \<open>What a request asks to be stored can be read back; and its user id can.\<close>

fun urls_fit :: "libs \<Rightarrow> (string \<Rightarrow> gerr + purl) \<Rightarrow> req \<Rightarrow> bool" where
  "urls_fit L parse (ReqShorten usr url) \<longleftrightarrow> (\<forall>pu. parse url = Inr pu \<longrightarrow> good_url L (url_String pu))"
| "urls_fit L parse (ReqBatch usr b) \<longleftrightarrow> list_all (\<lambda>x. good_url L (BURL x)) b"
| "urls_fit L parse _ \<longleftrightarrow> True"

fun user_fits :: "libs \<Rightarrow> req \<Rightarrow> bool" where
  "user_fits L (ReqShorten usr url) \<longleftrightarrow> id_ok L (ID usr)"
| "user_fits L (ReqBatch usr b) \<longleftrightarrow> id_ok L (ID usr)"
| "user_fits L _ \<longleftrightarrow> True"

lemma storeURL_readable:
  assumes "readable L s" and "good_url L u" and "id_ok L (ID usr)"
    and "storeURL_loop file_storage n usr u i path err s r = (a, s', r')"
  shows "readable L s'"
  using assms(1,4)
proof (induction i arbitrary: path err s r)
  case (Suc i)
  obtain p r1 where p: "RandString n r = (p, r1)" by (cases "RandString n r")
  let ?e = "\<lparr>Short = p, Orig = u, UserID = ID usr, TS = 0\<rparr>"
  obtain sp er s1 where s1: "st_Store file_storage s ?e False = ((sp, er), s1)" by (metis surj_pair)
  have "good_entry L ?e" using random_path_valid [OF random_pathI [OF p]] assms(2,3) by (simp add: good_entry_def)
  from file_methods_readable(1) [OF Suc.prems(1) this, of False] s1 have "readable L s1" by simp
  with Suc p s1 show ?case by (auto split: option.splits if_splits)
qed simp

lemma serve_readable:
  assumes "serve parse file_storage svc q x = Some y" and "readable L (sto x)"
    and "urls_fit L parse q" and "user_fits L q"
  shows "readable L (sto y)"
proof (cases q)
  case (ReqShorten usr url)
  obtain a s' r' where s: "Shorten parse file_storage svc usr url (sto x) (rnd x) = (a, s', r')" by (metis surj_pair)
  have "readable L s'"
  proof (cases "parse url")
    case (Inl e)
    with s assms(2) show ?thesis by (auto simp: Shorten_def)
  next
    case (Inr pu)
    with assms(3) ReqShorten have "good_url L (url_String pu)" by simp
    with Inr s assms(2,4) ReqShorten storeURL_readable [of L "sto x" "url_String pu" usr] show ?thesis
      by (auto simp: Shorten_def storeURL_def split: if_splits prod.splits option.splits)
  qed
  with ReqShorten s assms(1) show ?thesis by auto
next
  case (ReqBatch usr b)
  obtain us r1 where us: "batch_urls (pathLength svc) usr b (rnd x) = (us, r1)" by (metis surj_pair)
  have "good_entry L (us ! i)" if "i < length us" for i
  proof -
    have "length us = length b" using batch_urls_props [OF us] by simp
    moreover have "Orig (us ! i) = BURL (b ! i)" "random_path (pathLength svc) (Short (us ! i))" "UserID (us ! i) = ID usr"
      using batch_urls_props [OF us] that by (auto simp: list_all_length list_eq_iff_nth_eq)
    ultimately show ?thesis using assms(3,4) ReqBatch that random_path_valid
      by (auto simp: good_entry_def list_all_length)
  qed
  then have "list_all (good_entry L) us" by (simp add: list_all_length)
  from file_methods_readable(2) [OF assms(2) this] us ReqBatch assms(1) show ?thesis
    by (auto simp: ShortenBatch_def split: prod.splits option.splits)
next
  case (ReqResolve p)
  with assms(1,2) file_methods_readable(4) [OF assms(2)] show ?thesis
    by (auto simp: Resolve_def split: outcome.splits option.splits prod.splits) (metis snd_conv)+
next
  case (ReqGetAll usr)
  with assms(1,2) file_methods_readable(5) [OF assms(2), of "ID usr"] show ?thesis
    by (auto simp: GetAll_def split: if_splits prod.splits option.splits)
next
  case (ReqDelete now usr ss)
  with assms(1,2) show ?thesis by (auto split: option.splits)
next
  case ReqPing
  with assms(1) file_methods_readable(6) [OF assms(2)] show ?thesis
    by (auto simp: status_Ping_def split: prod.splits option.splits)
next
  case ReqStats
  with assms(1) file_methods_readable(7) [OF assms(2)] show ?thesis
    by (auto simp: status_Stats_def split: prod.splits option.splits)
next
  case FlushQueue
  with assms(1,2) file_methods_readable(3) [OF assms(2)] show ?thesis
    by (auto simp: flush_deletes_def deleteURLs_def split: prod.splits option.splits)
qed

section \<open>The servers keep them\<close>

text \<open>Whatever the event asks of a service, its urls can be read back.\<close>

fun event_fits :: "libs \<Rightarrow> 's Server \<Rightarrow> event \<Rightarrow> bool" where
  "event_fits L srv (Request r) \<longleftrightarrow> (\<forall>i c q. chiFind (libs srv) patterns (r_method r) (r_path r) = Route i \<longrightarrow>
     h_before (halves (libs srv) ! i) (r\<lparr>r_ctx := c\<rparr>) = Inr q \<longrightarrow> urls_fit L (parseURL (libs srv)) q)"
| "event_fits L srv (Call c) \<longleftrightarrow> (\<forall>x q. grpc_before (c\<lparr>g_ctx := x\<rparr>) = Inr q \<longrightarrow> urls_fit L (parseURL (libs srv)) q)"
| "event_fits L srv Flush_queue \<longleftrightarrow> True"

text \<open>The sessions and the new users have ids that can be read back.\<close>

definition users_fit :: "libs \<Rightarrow> 's Server \<Rightarrow> (gerr + nat list) src \<Rightarrow> bool" where
  "users_fit L srv g \<longleftrightarrow> src_all (\<lambda>bs. id_ok L (b64_encode bs)) g \<and>
     (\<forall>now v u. getUserFromJWT (jwt (libs srv)) (authorizer srv) now v = Inr u \<longrightarrow> id_ok L (ID u))"

text \<open>What an event did, as at most one request to the services; the uuids may have moved on.\<close>

definition steps_as :: "libs \<Rightarrow> File Server \<Rightarrow> File world \<Rightarrow> File world \<Rightarrow> bool" where
  "steps_as L srv w w' \<longleftrightarrow> users_fit L srv (uuids w') \<and> (sys.truncate w' = sys.truncate w \<or>
     (\<exists>q. urls_fit L (parseURL (libs srv)) q \<and> user_fits L q \<and>
        serve (parseURL (libs srv)) (storage srv) (shortenerSvc srv) q (sys.truncate w) = Some (sys.truncate w')))"

lemma user_New_next: "user_New g = (x, g') \<Longrightarrow> g' = snd (next_src g)"
  by (auto simp: user_New_def next_src_def split: sum.splits)

lemma CreateUserAndToken_next: "CreateUserAndToken J a now g = (x, g') \<Longrightarrow> g' = snd (next_src g)"
  using user_New_next by (fastforce simp: CreateUserAndToken_def split: prod.splits option.splits sum.splits)

lemma CreateUserAndToken_fits:
  assumes "users_fit L srv g" and "CreateUserAndToken J a now g = (x, g')"
  shows "users_fit L srv g' \<and> (\<forall>u tok. x = Inr (u, tok) \<longrightarrow> id_ok L (ID u))"
proof -
  have "src_all (\<lambda>bs. id_ok L (b64_encode bs)) (snd (next_src g))"
    using assms(1) by (auto simp: users_fit_def src_all_def next_src_def)
  with assms(1) CreateUserAndToken_next [OF assms(2)] have "users_fit L srv g'" by (simp add: users_fit_def)
  moreover have "id_ok L (ID u)" if "x = Inr (u, tok)" for u tok
    using CreateUserAndToken_ok [of J a now g u tok g'] assms that by (auto simp: users_fit_def src_all_def)
  ultimately show ?thesis by blast
qed

lemma CreateOrParse_fits:
  assumes "users_fit L srv g" and "CreateOrParseUserFromJWTString (jwt (libs srv)) (authorizer srv) now v g = (x, g')"
  shows "users_fit L srv g' \<and> (\<forall>u tok. x = Inr (u, tok) \<longrightarrow> id_ok L (ID u))"
proof (cases "getUserFromJWT (jwt (libs srv)) (authorizer srv) now v")
  case (Inl e)
  with assms(2) CreateUserAndToken_fits [OF assms(1)] show ?thesis
    by (auto simp: CreateOrParseUserFromJWTString_def)
next
  case (Inr u)
  with assms show ?thesis by (auto simp: CreateOrParseUserFromJWTString_def users_fit_def)
qed

lemma http_user_fits:
  assumes "users_fit L srv g" and "createOrParseUserFromRequest srv r g = (x, g')"
  shows "users_fit L srv g' \<and> (\<forall>u tok. x = Inr (u, tok) \<longrightarrow> id_ok L (ID u))"
proof (cases "r_cookie r sessionCookieName")
  case None
  with assms(2) CreateUserAndToken_fits [OF assms(1)] show ?thesis by (simp add: createOrParseUserFromRequest_def)
next
  case (Some v)
  with assms(2) CreateOrParse_fits [OF assms(1)] show ?thesis by (simp add: createOrParseUserFromRequest_def)
qed

lemma grpc_user_fits:
  assumes "users_fit L srv g" and "createOrParseUserFromMetadata srv now md g = (x, g')"
  shows "users_fit L srv g' \<and> (\<forall>u tok. x = Inr (u, tok) \<longrightarrow> id_ok L (ID u))"
proof (cases "md sessionKey")
  case Nil
  with assms(2) CreateUserAndToken_fits [OF assms(1)] show ?thesis by (simp add: createOrParseUserFromMetadata_def)
next
  case (Cons v vs)
  with assms(2) CreateOrParse_fits [OF assms(1)] show ?thesis by (simp add: createOrParseUserFromMetadata_def)
qed

lemma serve_answer_serve:
  "serve_answer parse st svc q x = Some (a, y) \<Longrightarrow> y = x \<or> serve parse st svc q x = Some y"
  by (cases q) (auto split: prod.splits outcome.splits option.splits)

text \<open>The user of the request a handler makes is the one of its context.\<close>

lemma h_before_user:
  assumes "i < 8" and "h_before (halves L' ! i) r = Inr q" and "\<And>u. GetUserFromContext (r_ctx r) = Some u \<Longrightarrow>
    h_access (halves L' ! i) = Session \<Longrightarrow> id_ok L (ID u)"
  shows "user_fits L q"
  using less_8_cases [OF assms(1)] assms(2,3) GetUserAndReqID_user
  by (elim disjE) (fastforce simp: halves_def Ping_before_def Stats_before_def Resolve_before_def Shorten_before_def
        ShortenPlain_before_def GetAll_before_def ShortenBatch_before_def DeleteBatch_before_def
        split: sum.splits option.splits if_splits)+

lemma steps_as_same: "users_fit L srv (uuids w') \<Longrightarrow> sys.truncate w' = sys.truncate w \<Longrightarrow> steps_as L srv w w'"
  by (simp add: steps_as_def)

lemma steps_as_frame: "sys.truncate v = sys.truncate w \<Longrightarrow> steps_as L srv v w' \<Longrightarrow> steps_as L srv w w'"
  by (simp add: steps_as_def)

lemma answer_steps:
  assumes "serve_answer (parseURL (libs srv)) (storage srv) (shortenerSvc srv) q (sys.truncate w) = Some (a, x)"
    and "users_fit L srv (uuids w)" and "urls_fit L (parseURL (libs srv)) q" and "user_fits L q"
  shows "steps_as L srv w (put_sys x w)"
  using serve_answer_serve [OF assms(1)] assms(2-4) by (auto simp: steps_as_def)

lemma joined_steps:
  assumes "http_joined srv hf r w = Some (out, w')" and "users_fit L srv (uuids w)"
    and "\<And>q. h_before hf r = Inr q \<Longrightarrow> urls_fit L (parseURL (libs srv)) q \<and> user_fits L q"
  shows "steps_as L srv w w'"
  using assms answer_steps [OF _ assms(2)]
  by (auto simp: http_joined_def steps_as_same split: sum.splits)

lemma auth_steps:
  assumes "auth_mw srv h r w = Some (out, w')" and "users_fit L srv (uuids w)"
    and "\<And>u out v. h (r\<lparr>r_ctx := SetUserContext (r_ctx r) u\<rparr>) v = Some (out, w') \<Longrightarrow> users_fit L srv (uuids v) \<Longrightarrow>
      id_ok L (ID u) \<Longrightarrow> steps_as L srv v w'"
  shows "steps_as L srv w w'"
proof (cases "GetRequestID (r_ctx r)")
  case None
  with assms(1,2) show ?thesis by (auto simp: auth_mw_def steps_as_same)
next
  case (Some i)
  obtain x g where x: "createOrParseUserFromRequest srv r (uuids w) = (x, g)"
    by (cases "createOrParseUserFromRequest srv r (uuids w)")
  note fits = http_user_fits [OF assms(2) x]
  show ?thesis
  proof (cases x)
    case (Inl e)
    with Some x fits assms(1) show ?thesis by (auto simp: auth_mw_def intro!: steps_as_same)
  next
    case (Inr ut)
    obtain u tok where ut: "ut = (u, tok)" by (cases ut)
    with Some x Inr assms(1) obtain out' where "h (r\<lparr>r_ctx := SetUserContext (r_ctx r) u\<rparr>) (w\<lparr>uuids := g\<rparr>) = Some (out', w')"
      by (auto simp: auth_mw_def split: option.splits)
    from assms(3) [OF this] fits Inr ut have "steps_as L srv (w\<lparr>uuids := g\<rparr>) w'" by simp
    then show ?thesis by (rule steps_as_frame [rotated]) simp
  qed
qed

lemma route_steps:
  assumes "chi_ok (libs srv)" and "event_fits L srv (Request r)" and "users_fit L srv (uuids w)"
    and "route srv (r\<lparr>r_ctx := c\<rparr>) w = Some (out, w')"
  shows "steps_as L srv w w'"
proof (cases "chiFind (libs srv) patterns (r_method r) (r_path r)")
  case (Route i)
  let ?r = "r\<lparr>r_ctx := c\<rparr>" and ?hf = "halves (libs srv) ! i"
  from chi_found [OF assms(1) Route] have i: "i < 8" ..
  have rt: "behind srv (h_access ?hf) (http_joined srv ?hf) ?r w = Some (out, w')"
    using assms(4) Route halves_routes [OF i, of srv] by (simp add: route_def patterns_routes)
  have urls: "urls_fit L (parseURL (libs srv)) q" if "h_before ?hf (r\<lparr>r_ctx := x\<rparr>) = Inr q" for x q
    using assms(2) Route that by simp
  show ?thesis
  proof (cases "h_access ?hf = Session")
    case True
    with rt have "auth_mw srv (http_joined srv ?hf) ?r w = Some (out, w')" by (simp add: behind_def)
    then show ?thesis
    proof (rule auth_steps [OF _ assms(3)])
      fix u out v
      assume h: "http_joined srv ?hf (?r\<lparr>r_ctx := SetUserContext (r_ctx ?r) u\<rparr>) v = Some (out, w')"
        "users_fit L srv (uuids v)" "id_ok L (ID u)"
      have "user_fits L q" if "h_before ?hf (?r\<lparr>r_ctx := SetUserContext (r_ctx ?r) u\<rparr>) = Inr q" for q
        by (rule h_before_user [OF i that]) (use h(3) in simp)
      with urls show "steps_as L srv v w'" by (intro joined_steps [OF h(1,2)]) simp
    qed
  next
    case False
    then have "http_joined srv ?hf ?r w = Some (out, w') \<or> w' = w"
      using rt by (cases "h_access ?hf") (auto simp: behind_def filter_mw_def split: if_splits)
    then show ?thesis
      using joined_steps [OF _ assms(3)] urls h_before_user [OF i] False steps_as_same [OF assms(3)] by blast
  qed
next
  case (SubrouterDefault as)
  with assms(4) have "auth_mw srv (\<lambda>r w. Some (finished as, w)) (r\<lparr>r_ctx := c\<rparr>) w = Some (out, w')"
    by (simp add: route_def patterns_routes)
  then show ?thesis by (rule auth_steps [OF _ assms(3)]) (auto intro: steps_as_same)
next
  case (RouterDefault as)
  with assms(3,4) show ?thesis by (auto simp: route_def patterns_routes steps_as_same)
qed

lemma http_steps:
  assumes "chi_ok (libs srv)" and "event_fits L srv (Request r)" and "users_fit L srv (uuids w)"
    and "http_serve srv r w = Some (resp, w')"
  shows "steps_as L srv w w'"
proof -
  obtain x w1 where x: "requestid_mw srv r w = (x, w1)" by (cases "requestid_mw srv r w")
  from requestid_mw_cases [OF x] obtain g where g: "w1 = w\<lparr>reqids := g\<rparr>"
    "\<forall>r1. x = Inr r1 \<longrightarrow> (\<exists>i. r1 = r\<lparr>r_ctx := SetRequestID (r_ctx r) i\<rparr>)" by blast
  show ?thesis
  proof (cases x)
    case (Inl e)
    with x g(1) assms(3,4) show ?thesis by (auto simp: http_serve_def intro!: steps_as_same)
  next
    case (Inr r1)
    with g(2) obtain i where r1: "r1 = r\<lparr>r_ctx := SetRequestID (r_ctx r) i\<rparr>" by blast
    from x Inr assms(4) obtain out where "route srv r1 w1 = Some (out, w')" by (auto simp: http_serve_def split: option.splits)
    from route_steps [OF assms(1,2) _ this [unfolded r1]] assms(3) g(1) have "steps_as L srv w1 w'" by simp
    then show ?thesis by (rule steps_as_frame [rotated]) (simp add: g(1))
  qed
qed

lemma grpc_before_user:
  assumes "grpc_before c = Inr q" and "\<And>u. GetUserFromContext (g_ctx c) = Some u \<Longrightarrow> id_ok L (ID u)"
  shows "user_fits L q"
  using assms GetUserAndReqID_user
  by (fastforce simp: grpc_before_def for_user_def split: greq.splits sum.splits option.splits)

lemma grpc_handler_steps:
  assumes "event_fits L srv (Call c)" and "grpc_handler srv (c\<lparr>g_ctx := SetUserContext x u\<rparr>) v = Some (o1, t1, w')"
    and "users_fit L srv (uuids v)" and "id_ok L (ID u)"
  shows "steps_as L srv v w'"
proof -
  let ?c = "c\<lparr>g_ctx := SetUserContext x u\<rparr>"
  have "urls_fit L (parseURL (libs srv)) q \<and> user_fits L q" if "grpc_before ?c = Inr q" for q
    using assms(1) that grpc_before_user [OF that] assms(4) by auto
  with assms(2,3) answer_steps [OF _ assms(3)] show ?thesis
    by (auto simp: grpc_handler_joined [symmetric] grpc_joined_def steps_as_same split: sum.splits)
qed

lemma auth_int_steps:
  assumes "event_fits L srv (Call c)" and "auth_int srv (grpc_handler srv) (c\<lparr>g_ctx := x\<rparr>) v = Some (o1, t1, w')"
    and "users_fit L srv (uuids v)"
  shows "steps_as L srv v w'"
proof (cases "g_md c")
  case None
  with assms show ?thesis by (auto simp: auth_int_def steps_as_same)
next
  case (Some md)
  obtain y g where y: "createOrParseUserFromMetadata srv (g_now c) md (uuids v) = (y, g)"
    by (cases "createOrParseUserFromMetadata srv (g_now c) md (uuids v)")
  note fits = grpc_user_fits [OF assms(3) y]
  show ?thesis
  proof (cases y)
    case (Inl e)
    with Some y fits assms(2) show ?thesis by (auto simp: auth_int_def intro!: steps_as_same)
  next
    case (Inr ut)
    obtain u tok where ut: "ut = (u, tok)" by (cases ut)
    from Some y Inr ut assms(2) consider "w' = v\<lparr>uuids := g\<rparr>"
      | o2 t2 where "grpc_handler srv (c\<lparr>g_ctx := SetUserContext x u\<rparr>) (v\<lparr>uuids := g\<rparr>) = Some (o2, t2, w')"
      by (auto simp: auth_int_def split: if_splits option.splits)
    then show ?thesis
    proof cases
      case 1
      with fits show ?thesis by (auto intro!: steps_as_same)
    next
      case 2
      from grpc_handler_steps [OF assms(1) 2] fits Inr ut have "steps_as L srv (v\<lparr>uuids := g\<rparr>) w'" by simp
      then show ?thesis by (rule steps_as_frame [rotated]) simp
    qed
  qed
qed

lemma grpc_chain_steps:
  assumes "event_fits L srv (Call c)" and "users_fit L srv (uuids v)"
    and "logging_int (filter_int srv (auth_int srv (grpc_handler srv))) (c\<lparr>g_ctx := x\<rparr>) v = Some (o1, t1, w')"
  shows "steps_as L srv v w'"
proof -
  from logging_int_cases [OF assms(3)] obtain o2 where
    "filter_int srv (auth_int srv (grpc_handler srv)) (c\<lparr>g_ctx := x\<rparr>) v = Some (o2, t1, w')" ..
  from filter_int_cases [OF this] auth_int_steps [OF assms(1) _ assms(2)] steps_as_same [of L srv w' v] assms(2)
  show ?thesis by blast
qed

lemma grpc_steps:
  assumes "event_fits L srv (Call c)" and "users_fit L srv (uuids w)" and "grpc_serve srv c w = Some (out, toks, w')"
  shows "steps_as L srv w w'"
proof -
  have s: "requestid_int srv (logging_int (filter_int srv (auth_int srv (grpc_handler srv)))) c w = Some (out, toks, w')"
    using assms(3) by (simp add: grpc_serve_def)
  show ?thesis
  proof (cases "if trustRequestID srv then getRequestIDFromContext c else None")
    case None
    obtain y g where y: "next_src (reqids w) = (y, g)" by (cases "next_src (reqids w)")
    show ?thesis
    proof (cases y)
      case (Inl e)
      with None y assms(2) s show ?thesis by (auto simp: requestid_int_def intro!: steps_as_same)
    next
      case (Inr i)
      with None y s have "logging_int (filter_int srv (auth_int srv (grpc_handler srv)))
          (c\<lparr>g_ctx := SetRequestID (g_ctx c) i\<rparr>) (w\<lparr>reqids := g\<rparr>) = Some (out, toks, w')"
        by (simp add: requestid_int_def)
      from grpc_chain_steps [OF assms(1) _ this] assms(2) have "steps_as L srv (w\<lparr>reqids := g\<rparr>) w'" by simp
      then show ?thesis by (rule steps_as_frame [rotated]) simp
    qed
  next
    case (Some i)
    with s grpc_chain_steps [OF assms(1,2)] show ?thesis by (simp add: requestid_int_def)
  qed
qed

lemma event_steps:
  assumes "chi_ok (libs srv)" and "event_fits L srv e" and "users_fit L srv (uuids w)" and "app_event srv e w = Some w'"
  shows "steps_as L srv w w'"
proof (cases e)
  case (Request r)
  with assms http_steps [OF assms(1) _ assms(3)] show ?thesis by auto
next
  case (Call c)
  with assms grpc_steps [OF _ assms(3)] show ?thesis by fastforce
next
  case Flush_queue
  with assms(3,4) show ?thesis unfolding steps_as_def
    by (intro conjI disjI2 exI [of _ FlushQueue]) (auto simp: sys.truncate_def split: prod.splits)
qed

section \<open>Runs\<close>

fun step_fits :: "libs \<Rightarrow> File Server \<Rightarrow> step \<Rightarrow> bool" where
  "step_fits L srv (Serve e) \<longleftrightarrow> event_fits L srv e"
| "step_fits L srv (Tick d) \<longleftrightarrow> healthy d"

lemma file_run_readable:
  assumes "storage srv = file_storage" and "chi_ok (libs srv)"
    and "file_run L srv es w = Some w'" and "list_all (step_fits L srv) es"
    and "file_inv L (sto w)" and "readable L (sto w)" and "users_fit L srv (uuids w)"
  shows "file_inv L (sto w') \<and> readable L (sto w')"
  using assms(3-7)
proof (induction es arbitrary: w)
  case (Cons x es)
  show ?case
  proof (cases x)
    case (Serve e)
    with Cons.prems(1) obtain v where v: "app_event srv e w = Some v" "file_run L srv es v = Some w'"
      by (auto split: option.splits)
    from Cons.prems(2) Serve have "event_fits L srv e" by simp
    from event_steps [OF assms(2) this Cons.prems(5) v(1)] have s: "steps_as L srv w v" .
    from s have "file_inv L (sto v) \<and> readable L (sto v)"
      unfolding steps_as_def
    proof (elim conjE disjE exE)
      assume "sys.truncate v = sys.truncate w"
      from arg_cong [of _ _ sto, OF this] Cons.prems(3,4) show ?thesis by simp
    next
      fix q
      assume q: "urls_fit L (parseURL (libs srv)) q" "user_fits L q"
        "serve (parseURL (libs srv)) (storage srv) (shortenerSvc srv) q (sys.truncate w) = Some (sys.truncate v)"
      have "file_inv L (sto (sys.truncate v))"
        by (rule conjunct1 [OF saved.serve_sto_ok [OF q(3) [unfolded assms(1)]]]) (use Cons.prems(3) in simp)
      moreover have "readable L (sto (sys.truncate v))"
        by (rule serve_readable [OF q(3) [unfolded assms(1)] _ q(1,2)]) (use Cons.prems(4) in simp)
      ultimately show ?thesis by simp
    qed
    moreover have "users_fit L srv (uuids v)" using s by (simp add: steps_as_def)
    ultimately show ?thesis using Cons.IH [OF v(2)] Cons.prems(2) Serve by simp
  next
    case (Tick d)
    let ?s = "persist_tick L d (sto w)"
    have st: "storable L (DB (mem (sto w)))" using Cons.prems(4) readable_storable by (simp add: readable_def)
    from Tick Cons.prems(2) have "synced L ?s" "mem ?s = mem (sto w)"
      using persist_healthy [OF Cons.prems(3) _ st, of d] by (simp_all add: persist_tick_def)
    then have "file_inv L ?s" "readable L ?s"
      using Cons.prems(3,4) by (simp_all add: file_inv_def readable_def)
    with Tick Cons.IH [of "w\<lparr>sto := ?s\<rparr>"] Cons.prems show ?thesis by simp
  qed
qed simp

lemma restart_readable:
  assumes "file_inv L s" and "readable L s" and "healthy d" and "src_ok ids" and "uuids_ok L ids"
  shows "\<exists>s'. File_New L ids (Inr \<lparr>r_data = fcontent (persist_stop L d s), r_err = Sentinel IoEOF\<rparr>) = Ret (Inr s') \<and>
    file_view s' = file_view s \<and> file_inv L s' \<and> readable L s'"
proof -
  have "storable L (DB (mem s))" using assms(2) readable_storable by (simp add: readable_def)
  from restart_mem [OF assms(1,3) this assms(4)] obtain s' where s':
    "File_New L ids (Inr \<lparr>r_data = fcontent (persist_stop L d s), r_err = Sentinel IoEOF\<rparr>) = Ret (Inr s')"
    "file_view s' = file_view s" "file_inv L s'" "map_of (DB (mem s')) = map_of (DB (mem s))" "gen (mem s') = ids" by blast
  have "good_record L r" if "(k, r) \<in> set (DB (mem s'))" for k r
  proof -
    have "keys_distinct (DB (mem s'))" using s'(3) by (simp add: file_inv_def mem_inv_def db_inv_def)
    with that s'(4) have "map_of (DB (mem s)) k = Some r" by (metis map_of_in_set)
    with assms(2) good_db_map_of show ?thesis by (auto simp: readable_def readable_mem_def)
  qed
  then have "readable L s'" using s'(5) assms(5) by (auto simp: readable_def readable_mem_def good_db_def)
  with s' show ?thesis by blast
qed

section \<open>Sample parameters\<close>

text \<open>
  Libraries whose json keeps every record: a letter for the deletion mark and the four strings, each
  closed by a quote, with quotes, backslashes and line ends escaped; every url but the empty one parses.
\<close>

definition quote :: char where "quote = CHR 0x22"
definition backslash :: char where "backslash = CHR 0x5C"

fun quoted :: "string \<Rightarrow> string" where
  "quoted [] = [quote]"
| "quoted (c # s) = (if c = nl then [backslash, CHR ''n''] else if c \<in> {quote, backslash} then [backslash, c] else [c])
     @ quoted s"

fun unquoted :: "string \<Rightarrow> string \<times> string" where
  "unquoted [] = ([], [])"
| "unquoted (c # s) = (if c = quote then ([], s)
     else if c \<noteq> backslash then map_prod ((#) c) id (unquoted s)
     else (case s of [] \<Rightarrow> ([], []) | x # t \<Rightarrow> map_prod ((#) (if x = CHR ''n'' then nl else x)) id (unquoted t)))"

lemma quote_chars [simp]: "quote \<noteq> nl" "backslash \<noteq> nl" "nl \<noteq> quote" "nl \<noteq> backslash" "quote \<noteq> backslash" "backslash \<noteq> quote"
    "quote \<noteq> CHR ''n''" "backslash \<noteq> CHR ''n''" "nl \<noteq> CHR ''n''"
  by (simp_all add: quote_def backslash_def)

lemma unquoted_quoted [simp]: "unquoted (quoted s @ t) = (s, t)"
  by (induction s) auto

lemma quoted_line: "nl \<notin> set (quoted s)"
  by (induction s) auto

definition quoted_libs :: libs where
  "quoted_libs = sample_libs\<lparr>
     marshal := (\<lambda>r. Inr ((if Deleted r then CHR ''D'' else CHR ''L'') # quoted (UUID r) @ quoted (ShortURL r) @
       quoted (OriginalURL r) @ quoted (RUserID r))),
     unmarshal := (\<lambda>d. case d of [] \<Rightarrow> Inl (Errmsg ''unexpected end'')
       | c # s \<Rightarrow> let (i, s1) = unquoted s; (p, s2) = unquoted s1; (o1, s3) = unquoted s2; (uid, s4) = unquoted s3 in
           Inr (Some \<lparr>UUID = i, ShortURL = p, OriginalURL = o1, RUserID = uid, Deleted = (c = CHR ''D'')\<rparr>))\<rparr>"

lemma quoted_json: "json_ok quoted_libs r"
proof -
  have "nl \<notin> set (quoted (UUID r) @ quoted (ShortURL r) @ quoted (OriginalURL r) @ quoted (RUserID r))"
    by (simp add: quoted_line)
  then show ?thesis
    using unquoted_quoted [of "RUserID r" "[]"]
    by (simp add: json_ok_def quoted_libs_def)
qed

lemma quoted_url: "good_url quoted_libs url \<longleftrightarrow> url \<noteq> []"
  by (simp add: good_url_def quoted_json) (simp add: quoted_libs_def sample_libs_def)

lemma sample_user_id: "id_ok quoted_libs (b64_encode sample_uuid)"
proof -
  have "b64_decode (b64_encode sample_uuid) = Some sample_uuid" by (rule b64_decode_encode) (simp add: sample_uuid_def)
  then show ?thesis by (simp add: id_ok_def NewFromUserID_def quoted_libs_def sample_libs_def) (simp add: sample_uuid_def)
qed

text \<open>The sample server, with a jwt library that only knows tokens of the sample user.\<close>

definition sample_user_jwt :: jwtlib where
  "sample_user_jwt = sample_jwt\<lparr>jwtParse := (\<lambda>now tok kf. if tok = CHR ''T'' # sample_user then jwtParse sample_jwt now tok kf
     else Inl (Errmsg ''invalid''))\<rparr>"

definition sample_user_server :: "File Server" where
  "sample_user_server = (sample_server file_storage)\<lparr>libs := sample_httplibs\<lparr>jwt := sample_user_jwt\<rparr>\<rparr>"

definition sample_user_steps :: "step list" where
  "sample_user_steps = [Serve (Request (sample_hreq ''POST'' ''/'' ''http://a.b'' False)),
     Serve (Request (sample_hreq ''DELETE'' ''/api/user/urls'' ''01'' False)), Serve Flush_queue, Tick sample_disk]"

definition sample_user_events :: "event list" where
  "sample_user_events = [Request (sample_hreq ''POST'' ''/'' ''http://a.b'' False),
     Request (sample_hreq ''DELETE'' ''/api/user/urls'' ''01'' False), Flush_queue]"

lemma sample_users_fit: "users_fit quoted_libs sample_user_server (\<lambda>_. Inr sample_uuid)"
  using sample_user_id
  by (auto simp: users_fit_def src_all_def getUserFromJWT_def sample_user_server_def sample_user_jwt_def sample_jwt_def
      sample_user_def NewWithID_def split: if_splits sum.splits option.splits)

lemma sample_chi_user: "chi_ok (libs sample_user_server)"
  using sample_chi_ok by (simp add: sample_user_server_def chi_ok_def)

lemma sample_request_fits: "event_fits quoted_libs sample_user_server (Request r)"
proof -
  let ?L = "libs sample_user_server"
  have u: "parseURL ?L u = Inr pu \<Longrightarrow> good_url quoted_libs (url_String pu)" for u pu
    by (auto simp: quoted_url sample_user_server_def sample_httplibs_def sample_parse_def sample_libs_def split: if_splits)
  have b: "unmarshalBatchURLs ?L = (\<lambda>_. Inr [])" by (simp add: sample_user_server_def sample_httplibs_def)
  have "urls_fit quoted_libs (parseURL ?L) q" if "i < 8" "h_before (halves ?L ! i) x = Inr q" for i x q
  proof -
    from less_8_cases [OF that(1)] that(2) u b show ?thesis
      by (elim disjE) (fastforce simp: halves_def Ping_before_def Stats_before_def Resolve_before_def Shorten_before_def
        ShortenPlain_before_def GetAll_before_def ShortenBatch_before_def DeleteBatch_before_def
        split: sum.splits option.splits if_splits)+
  qed
  with chi_found [OF sample_chi_user] show ?thesis unfolding event_fits.simps by blast
qed

section \<open>Properties\<close>

text \<open>C14. The file storage can always be opened again: from a storage whose records can be read back, after
  any requests and calls to both servers and any saves on a healthy disk, when the posted urls can be read
  back as they are stored and the users have ids that can, the storage stops on a healthy disk and a
  new process opens the file. Every path then has the entry it had, and the same holds for the next
  restart. (A single url in a batch that cannot be read back breaks this.)\<close>

theorem restart_always_possible:
  assumes "file_inv L (sto w)" and "readable L (sto w)" and "storage srv = file_storage" and "chi_ok (libs srv)"
    and "users_fit L srv (uuids w)" and "file_run L srv es w = Some w'" and "list_all (step_fits L srv) es"
    and "healthy d" and "src_ok ids" and "uuids_ok L ids"
  shows "\<exists>s'. File_New L ids (Inr \<lparr>r_data = fcontent (persist_stop L d (sto w')), r_err = Sentinel IoEOF\<rparr>) = Ret (Inr s') \<and>
    file_view s' = file_view (sto w') \<and> file_inv L s' \<and> readable L s'"
  using restart_readable [OF _ _ assms(8-10)] file_run_readable [OF assms(3,4,6,7,1,2,5)] by blast

theorem restart_always_possible_witness:
  "\<exists>w' s'. file_run quoted_libs sample_user_server sample_user_steps (sample_world (sample_file True)) = Some w' \<and>
    File_New quoted_libs (\<lambda>_. Inr ''0002'')
      (Inr \<lparr>r_data = fcontent (persist_stop quoted_libs sample_disk (sto w')), r_err = Sentinel IoEOF\<rparr>) = Ret (Inr s') \<and>
    file_view s' = file_view (sto w') \<and> readable quoted_libs s'"
proof -
  let ?w = "sample_world (sample_file True)"
  have "\<not> Option.is_none (app_run sample_user_server sample_user_events ?w)" by code_simp
  then obtain w' where run: "file_run quoted_libs sample_user_server sample_user_steps ?w = Some w'"
    by (auto simp: Option.is_none_def sample_user_events_def sample_user_steps_def simp del: app_event.simps split: option.splits)
  have inv: "file_inv quoted_libs (sto ?w)" by (simp add: sample_file_def sample_world_def file_inv_def)
      (use sample_file_ok(1) [of True] in \<open>simp add: sample_file_def\<close>)
  have r: "readable quoted_libs (sto ?w)"
  proof -
    have "uuidFromString quoted_libs = (\<lambda>_. None)" by (simp add: quoted_libs_def sample_libs_def)
    moreover have "list_all pathChar ''ab''" by code_simp
    ultimately show ?thesis
      using sample_user_id by (simp add: readable_def readable_mem_def sample_world_def sample_file_def good_db_def
        good_record_def quoted_url sample_record_def sample_user_def uuids_ok_def src_all_def)
  qed
  have fits: "list_all (step_fits quoted_libs sample_user_server) sample_user_steps"
    using sample_request_fits by (simp add: sample_user_steps_def sample_file_ok del: event_fits.simps(1))
  have ids: "src_ok (\<lambda>_. Inr ''0002'')" "uuids_ok quoted_libs (\<lambda>_. Inr ''0002'')"
    by (simp_all add: src_ok_def uuids_ok_def src_all_def quoted_libs_def sample_libs_def)
  have u: "users_fit quoted_libs sample_user_server (uuids ?w)" using sample_users_fit by (simp add: sample_world_def)
  have "storage sample_user_server = file_storage" by (simp add: sample_user_server_def)
  from restart_always_possible [OF inv r this sample_chi_user u run fits sample_file_ok(4) ids] run
  show ?thesis by blast
qed

end
