(* ===== verification/Shutdown.thy ===== *)
theory Shutdown
  imports Process Flusher
begin

text \<open>
  The goroutines of the process and of the delete queue together: the servers with the requests
  they are handling, the flusher and the main goroutine of \<open>internal/app/app.go\<close>, and the callers
  of \<open>Push\<close> of \<open>internal/buffer/buffer.go\<close>, which are the handlers of those requests.
\<close>

section \<open>The whole program\<close>

text \<open>
  \<open>active\<close> lists the requests being handled, each with the server it came to. The goroutine of the
  flusher is the same in both parts: its last step \<open>DoFinal\<close> is what the wait group counts as
  \<open>FlusherStop\<close>; and the context both parts see is cancelled by a signal or by a server error.
\<close>

record 'a whole =
  app :: proc
  dq :: "'a fsys"
  active :: "(nat \<times> nat) list"

datatype 'a wevent = Main aevent | Queue "'a fevent" | Arrive nat nat | Finish nat

fun cancels :: "aevent \<Rightarrow> bool" where
  "cancels Interrupt = True"
| "cancels (Server i ErrReceived) = True"
| "cancels _ = False"

text \<open>\<open>Shutdown\<close> and \<open>GracefulStop\<close> return when no request of the server is being handled.\<close>

fun main_ok :: "'a whole \<Rightarrow> aevent \<Rightarrow> bool" where
  "main_ok w (Server i ShutdownReturns) = list_all (\<lambda>(c, j). j \<noteq> i) (active w)"
| "main_ok w FlusherStop = False"
| "main_ok w _ = True"

fun queue_ok :: "'a whole \<Rightarrow> 'a fevent \<Rightarrow> bool" where
  "queue_ok w (Call c x) = (c \<in> set (map fst (active w)))"
| "queue_ok w Cancel = False"
| "queue_ok w _ = True"

fun wnext :: "'a whole \<Rightarrow> 'a wevent \<Rightarrow> 'a whole option" where
  "wnext w (Main e) = (if main_ok w e then
     (case anext (app w) e of
        None \<Rightarrow> None
      | Some p \<Rightarrow> Some (w\<lparr>app := p, dq := if cancels e then (dq w)\<lparr>cancelled := True\<rparr> else dq w\<rparr>)) else None)"
| "wnext w (Queue e) = (if queue_ok w e then
     (case fnext (dq w) e of
        None \<Rightarrow> None
      | Some q \<Rightarrow> Some (w\<lparr>dq := q, app := if rpc (dq w) = FinalFlush \<and> rpc q = Stopped
          then (app w)\<lparr>flusher_up := False\<rparr> else app w\<rparr>)) else None)"
| "wnext w (Arrive c i) =
     (if c \<notin> set (map fst (active w)) \<and> i < length (servers (app w)) \<and>
        fst (servers (app w) ! i) \<noteq> ProfKind \<and> snd (servers (app w) ! i) = Serving
      then Some (w\<lparr>active := (c, i) # active w\<rparr>) else None)"
| "wnext w (Finish c) =
     (case pcs (dq w) c of
        Idle \<Rightarrow> Some (w\<lparr>active := filter (\<lambda>(d, j). d \<noteq> c) (active w)\<rparr>)
      | _ \<Rightarrow> None)"

fun wrun :: "'a whole \<Rightarrow> 'a wevent list \<Rightarrow> 'a whole option" where
  "wrun w [] = Some w"
| "wrun w (e # es) = (case wnext w e of None \<Rightarrow> None | Some v \<Rightarrow> wrun v es)"

definition whole_start :: "skind list \<Rightarrow> 'a Flusher \<Rightarrow> 'a whole" where
  "whole_start ks f = \<lparr>app = app_start ks, dq = finit f, active = []\<rparr>"

lemma wrun_append: "wrun w (es @ fs) = (case wrun w es of None \<Rightarrow> None | Some v \<Rightarrow> wrun v fs)"
  by (induction es arbitrary: w) (auto split: option.splits)

section \<open>Each part of a run is a run of the part\<close>

definition agree :: "'a whole \<Rightarrow> bool" where
  "agree w \<longleftrightarrow> (proc.cancelled (app w) \<longleftrightarrow> fsys.cancelled (dq w)) \<and>
     (flusher_up (app w) \<longleftrightarrow> rpc (dq w) \<noteq> Stopped) \<and>
     (\<forall>c. pcs (dq w) c \<noteq> Idle \<longrightarrow> c \<in> set (map fst (active w)))"

fun app_events :: "'a wevent \<Rightarrow> aevent list" where
  "app_events (Main e) = [e]"
| "app_events (Queue DoFinal) = [FlusherStop]"
| "app_events _ = []"

fun queue_events :: "'a wevent \<Rightarrow> 'a fevent list" where
  "queue_events (Main e) = (if cancels e then [Cancel] else [])"
| "queue_events (Queue e) = [e]"
| "queue_events _ = []"

lemma astep_frame:
  "astep p e q \<Longrightarrow> e \<noteq> FlusherStop \<Longrightarrow> flusher_up q = flusher_up p \<and>
     proc.cancelled q = (proc.cancelled p \<or> cancels e)"
  by (erule astep.cases) (auto elim: cancels.elims)

lemma fstep_stop:
  "fstep s e t \<Longrightarrow> (rpc s = FinalFlush \<and> rpc t = Stopped \<longleftrightarrow> e = DoFinal) \<and>
     (e \<noteq> DoFinal \<longrightarrow> (rpc t = Stopped \<longleftrightarrow> rpc s = Stopped)) \<and>
     fsys.cancelled t = (fsys.cancelled s \<or> e = Cancel)"
  by (erule fstep.cases) (auto simp: run_flush_eq)

lemma fstep_busy: "fstep s e t \<Longrightarrow> pcs t c \<noteq> Idle \<Longrightarrow> pcs s c \<noteq> Idle \<or> (\<exists>x. e = Call c x)"
  by (erule fstep.cases) (auto simp: run_flush_eq split: if_splits)

lemma wnext_parts:
  assumes "wnext w e = Some v" and "agree w" and "fl_inv (dq w)"
  shows "arun (app w) (app_events e) = Some (app v) \<and> frun (dq w) (queue_events e) = Some (dq v) \<and> agree v"
proof (cases e)
  case (Main a)
  then obtain p where p: "main_ok w a" "anext (app w) a = Some p"
      "v = w\<lparr>app := p, dq := if cancels a then (dq w)\<lparr>cancelled := True\<rparr> else dq w\<rparr>"
    using assms(1) by (auto split: if_splits option.splits)
  then have "a \<noteq> FlusherStop" by auto
  with astep_frame [OF p(2) [unfolded anext_iff]]
  have "flusher_up p = flusher_up (app w)" "proc.cancelled p = (proc.cancelled (app w) \<or> cancels a)" by auto
  with p assms(2) Main show ?thesis by (auto simp: agree_def)
next
  case (Queue f)
  then obtain q where q: "queue_ok w f" "fstep (dq w) f q"
      "v = w\<lparr>dq := q, app := if f = DoFinal then (app w)\<lparr>flusher_up := False\<rparr> else app w\<rparr>"
    using assms(1) fstep_stop [of "dq w" f] by (auto simp: fnext_iff split: if_splits option.splits)
  have f: "f \<noteq> Cancel" using q(1) by auto
  have fr: "frun (dq w) (queue_events e) = Some (dq v)"
    using q(2) Queue unfolding fnext_iff [symmetric] by (simp add: q(3))
  have busy: "\<forall>c. pcs q c \<noteq> Idle \<longrightarrow> c \<in> set (map fst (active w))"
    using fstep_busy [OF q(2)] q(1) assms(2) by (fastforce simp: agree_def)
  show ?thesis
  proof (cases "f = DoFinal")
    case True
    with q(2) have "rpc (dq w) = FinalFlush" "rpc q = Stopped" using fstep_stop by blast+
    then have "anext (app w) FlusherStop = Some (app v)"
      using assms(2,3) q(3) True by (auto simp: agree_def fl_inv_def inv_shut_def)
    then show ?thesis using fr Queue True q f busy assms(2) fstep_stop [OF q(2)]
      by (simp add: agree_def)
  next
    case False
    then have "app_events e = []" using Queue by (cases f) auto
    then show ?thesis using fr False q f busy assms(2) fstep_stop [OF q(2)]
      by (simp add: agree_def)
  qed
next
  case (Arrive c i)
  with assms show ?thesis by (auto simp: agree_def split: if_splits)
next
  case (Finish c)
  with assms(1) have c: "pcs (dq w) c = Idle" "v = w\<lparr>active := filter (\<lambda>(d, j). d \<noteq> c) (active w)\<rparr>"
    by (auto split: pushpc.splits)
  with Finish assms(2) show ?thesis by (force simp: agree_def)
qed

lemma frun_inv: "fl_inv s \<Longrightarrow> frun s es = Some t \<Longrightarrow> fl_inv t"
  by (induction es arbitrary: s) (auto simp: fnext_iff dest: fl_inv_step split: option.splits)

lemma arun_inv: "proc_inv s \<Longrightarrow> arun s es = Some t \<Longrightarrow> proc_inv t"
  by (induction es arbitrary: s) (auto simp: anext_iff dest: proc_inv_step split: option.splits)

definition whole_inv :: "'a whole \<Rightarrow> bool" where
  "whole_inv w \<longleftrightarrow> agree w \<and> fl_inv (dq w) \<and> proc_inv (app w)"

lemma wnext_inv: "wnext w e = Some v \<Longrightarrow> whole_inv w \<Longrightarrow> whole_inv v"
  unfolding whole_inv_def using wnext_parts frun_inv arun_inv by blast

lemma wrun_parts:
  "wrun w es = Some v \<Longrightarrow> whole_inv w \<Longrightarrow>
     arun (app w) (concat (map app_events es)) = Some (app v) \<and>
     frun (dq w) (concat (map queue_events es)) = Some (dq v) \<and> whole_inv v"
proof (induction es arbitrary: w)
  case Nil
  then show ?case by simp
next
  case (Cons e es)
  then obtain u where u: "wnext w e = Some u" "wrun u es = Some v" by (auto split: option.splits)
  from wnext_parts [OF u(1)] Cons.IH [OF u(2)] wnext_inv [OF u(1)] Cons.prems(2)
  show ?case by (simp add: arun_append frun_append whole_inv_def)
qed

lemma whole_start_inv: "NewFlusher cfg = Some f \<Longrightarrow> whole_inv (whole_start ks f)"
  using proc_inv_reach [OF areach.start] fl_inv_init
  by (auto simp: whole_inv_def whole_start_def agree_def app_start_def finit_def)

section \<open>Shutdowns that hang\<close>

lemma wrun_deadlocked:
  assumes "wrun w es = Some v" and "whole_inv w" and "deadlocked (dq w)"
  shows "main_pc (app v) \<noteq> Returned"
proof -
  from wrun_parts [OF assms(1,2)] have v: "frun (dq w) (concat (map queue_events es)) = Some (dq v)" "whole_inv v"
    by auto
  have "deadlocked (dq v)" using deadlocked_run [OF v(1)] assms(2,3) by (simp add: whole_inv_def)
  then have "flusher_up (app v)" using v(2) by (auto simp: whole_inv_def agree_def deadlocked_def)
  then show ?thesis using v(2) by (auto simp: whole_inv_def proc_inv_def)
qed

text \<open>
  The deadlock with its parties: caller \<open>c\<close> holds the mutex and sends on the full channel, while the
  flusher waits for the mutex to make its final flush.
\<close>

definition held :: "'a fsys \<Rightarrow> nat \<Rightarrow> 'a \<Rightarrow> bool" where
  "held s c x \<longleftrightarrow> owner s = Some c \<and> pcs s c = Sending x \<and> fillChan (fl s) = fillCap \<and> rpc s = FinalFlush"

lemma held_deadlocked: "held s c x \<Longrightarrow> deadlocked s"
  by (auto simp: held_def deadlocked_def)

lemma frun_held: "frun s es = Some t \<Longrightarrow> fl_inv s \<Longrightarrow> held s c x \<Longrightarrow> held t c x"
proof (induction es arbitrary: s)
  case Nil
  then show ?case by simp
next
  case (Cons e es)
  then obtain u where u: "fstep s e u" "frun u es = Some t" by (auto simp: fnext_iff split: option.splits)
  have "\<forall>j y. pcs s j = Sending y \<longrightarrow> j = c"
    using Cons.prems(2,3) unfolding fl_inv_def inv_lock_def held_def by (metis option.inject)
  with deadlocked_frame [OF u(1)] Cons.prems(3) have "held u c x" unfolding held_def by metis
  then show ?case using Cons.IH [OF u(2)] fl_inv_step [OF u(1)] Cons.prems(2) by blast
qed

lemma wrun_held:
  assumes "wrun w es = Some v" and "whole_inv w" and "held (dq w) c x"
  shows "held (dq v) c x \<and> main_pc (app v) \<noteq> Returned"
proof -
  have "fl_inv (dq w)" using assms(2) by (simp add: whole_inv_def)
  with frun_held [OF _ this assms(3)] wrun_parts [OF assms(1,2)] have "held (dq v) c x" by blast
  then show ?thesis using wrun_deadlocked [OF assms(1,2) held_deadlocked [OF assms(3)]] by blast
qed

text \<open>
  A handler \<open>c\<close> of server \<open>i\<close> that sends after the flusher has stopped, on a full channel, while
  the server waits for its handlers.
\<close>

definition late_blocked :: "'a whole \<Rightarrow> nat \<Rightarrow> 'a \<Rightarrow> nat \<Rightarrow> bool" where
  "late_blocked w c x i \<longleftrightarrow> rpc (dq w) = Stopped \<and> fillChan (fl (dq w)) = fillCap \<and>
     pcs (dq w) c = Sending x \<and> (c, i) \<in> set (active w) \<and>
     i < length (servers (app w)) \<and> servers (app w) ! i = (HttpKind, Stopping)"

lemma fstep_stopped_blocked:
  "fstep s e t \<Longrightarrow> rpc s = Stopped \<Longrightarrow> fillChan (fl s) = fillCap \<Longrightarrow> pcs s c = Sending x \<Longrightarrow>
     inv_lock s \<Longrightarrow> rpc t = Stopped \<and> fillChan (fl t) = fillCap \<and> pcs t c = Sending x"
  by (erule fstep.cases) (auto simp: flusher_eqs inv_lock_def)

lemma server_Run_stopping: "server_Run k e Stopping = Some q \<Longrightarrow> e = ShutdownReturns"
  by (cases k; cases e) auto

lemma astep_stopping:
  assumes "astep p e q" and "i < length (servers p)" and "servers p ! i = (kd, Stopping)"
    and "e \<noteq> Server i ShutdownReturns"
  shows "i < length (servers q) \<and> servers q ! i = (kd, Stopping)"
  using assms
proof (cases rule: astep.cases)
  case (receive j k x y)
  then show ?thesis using assms(2,3) server_Run_stopping by (cases "j = i") fastforce+
next
  case (server j k x a y)
  then show ?thesis using assms(2-4) server_Run_stopping by (cases "j = i") fastforce+
qed (use assms in auto)

lemma late_blocked_step:
  assumes "wnext w e = Some v" and "late_blocked w c x i" and "whole_inv w"
  shows "late_blocked v c x i"
proof (cases e)
  case (Main a)
  then obtain p where p: "main_ok w a" "astep (app w) a p"
      "v = w\<lparr>app := p, dq := if cancels a then (dq w)\<lparr>cancelled := True\<rparr> else dq w\<rparr>"
    using assms(1) by (auto simp: anext_iff split: if_splits option.splits)
  have "a \<noteq> Server i ShutdownReturns"
    using p(1) assms(2) by (auto simp: late_blocked_def list_all_iff)
  from astep_stopping [OF p(2) _ _ this] assms(2) p(3) show ?thesis
    by (simp add: late_blocked_def)
next
  case (Queue f)
  then obtain q where q: "fstep (dq w) f q" "dq v = q" "active v = active w" "servers (app v) = servers (app w)"
    using assms(1) by (auto simp: fnext_iff split: if_splits option.splits)
  from assms(2) have x: "pcs (dq w) c = Sending x" by (simp add: late_blocked_def)
  have "inv_lock (dq w)" using assms(3) by (simp add: whole_inv_def fl_inv_def)
  with fstep_stopped_blocked [OF q(1) _ _ x] assms(2) q show ?thesis by (auto simp: late_blocked_def)
next
  case (Arrive d j)
  with assms show ?thesis by (auto simp: late_blocked_def split: if_splits)
next
  case (Finish d)
  with assms show ?thesis by (auto simp: late_blocked_def split: pushpc.splits)
qed

lemma wrun_late_blocked:
  "wrun w es = Some v \<Longrightarrow> whole_inv w \<Longrightarrow> late_blocked w c x i \<Longrightarrow> late_blocked v c x i \<and> main_pc (app v) \<noteq> Returned"
proof (induction es arbitrary: w)
  case Nil
  then have "\<not> list_all (\<lambda>(k, p). p = Down) (servers (app v))"
    by (force simp: late_blocked_def list_all_length split_beta)
  then show ?case using Nil by (auto simp: whole_inv_def proc_inv_def)
next
  case (Cons e es)
  then obtain u where u: "wnext w e = Some u" "wrun u es = Some v" by (auto split: option.splits)
  from Cons.IH [OF u(2) wnext_inv [OF u(1) Cons.prems(2)] late_blocked_step [OF u(1) Cons.prems(3,2)]]
  show ?case .
qed

section \<open>Shutdowns that complete\<close>

fun settles :: "'a fevent \<Rightarrow> bool" where
  "settles (Enter i) = True" | "settles (Send i) = True" | "settles Token = True"
| "settles DoFlush = True" | "settles CtxDone = True" | "settles _ = False"

lemma wrun_queue:
  "list_all (\<lambda>e. settles e \<or> e = Timer \<or> (\<exists>c x. e = Call c x \<and> c \<in> set (map fst (active w)))) es \<Longrightarrow>
     frun (dq w) es = Some q \<Longrightarrow> wrun w (map Queue es) = Some (w\<lparr>dq := q\<rparr>)"
proof (induction es arbitrary: w)
  case Nil
  then show ?case by simp
next
  case (Cons e es)
  then obtain r where r: "fnext (dq w) e = Some r" "frun r es = Some q" by (auto split: option.splits)
  have e: "queue_ok w e" "e \<noteq> DoFinal" using Cons.prems(1) by (cases e; force)+
  with fstep_stop [OF r(1) [unfolded fnext_iff]] have "\<not> (rpc (dq w) = FinalFlush \<and> rpc r = Stopped)" by simp
  with r(1) e(1) have "wnext w (Queue e) = Some (w\<lparr>dq := r\<rparr>)" by auto
  with Cons.IH [of "w\<lparr>dq := r\<rparr>"] r(2) Cons.prems(1) show ?case by simp
qed

text \<open>A caller that waits to send gets rid of its token while the flusher is in its select.\<close>

lemma send_settles:
  assumes "fl_inv s" and "rpc s = InSelect" and "pcs s c = Sending x"
  shows "\<exists>es t. frun s es = Some t \<and> list_all settles es \<and> rpc t = InSelect \<and> pcs t = (pcs s)(c := Idle)"
proof -
  have own: "owner s = Some c" and cap: "fillChan (fl s) \<le> 1"
    using assms(1,3) by (auto simp: fl_inv_def inv_lock_def inv_need_def fillCap_def)
  show ?thesis
  proof (cases "fillChan (fl s) = 0")
    case True
    then show ?thesis using own assms(2,3)
      by (intro exI [of _ "[Send c]"]) (simp add: fillCap_def)
  next
    case False
    then have "fillChan (fl s) = 1" using cap by simp
    then show ?thesis using own assms(2,3)
      by (intro exI [of _ "[Token, Send c, DoFlush]"]) (simp add: flusher_eqs)
  qed
qed

lemma one_settles:
  assumes "fl_inv s" and "rpc s = InSelect" and "pcs s c \<noteq> Idle"
  shows "\<exists>es t d. frun s es = Some t \<and> list_all settles es \<and> rpc t = InSelect \<and> pcs s d \<noteq> Idle \<and>
    pcs t = (pcs s)(d := Idle)"
proof (cases "owner s")
  case (Some d)
  then obtain x where x: "pcs s d = Sending x" using assms(1) by (auto simp: fl_inv_def inv_lock_def)
  from send_settles [OF assms(1,2) x] x show ?thesis by (metis pushpc.distinct(3))
next
  case None
  then have "pcs s c \<noteq> Sending x" for x using assms(1) by (fastforce simp: fl_inv_def inv_lock_def)
  with assms(3) obtain x where x: "pcs s c = Loaded x" by (cases "pcs s c") auto
  obtain f b where b: "push_body (fl s) x = (f, b)" by (cases "push_body (fl s) x")
  show ?thesis
  proof (cases b)
    case False
    then show ?thesis using None x b assms(2)
      by (intro exI [of _ "[Enter c]"] exI) (auto intro: exI [of _ c])
  next
    case True
    let ?t = "s\<lparr>fl := f, owner := Some c, pcs := (pcs s)(c := Sending x), accepted := accepted s @ [x]\<rparr>"
    have t: "fnext s (Enter c) = Some ?t" using None x b True by simp
    have "fl_inv ?t" using fl_inv_step [OF t [unfolded fnext_iff] assms(1)] .
    from send_settles [OF this, of c x] assms(2) obtain es u where
      "frun ?t es = Some u" "list_all settles es" "rpc u = InSelect" "pcs u = (pcs s)(c := Idle)" by auto
    with t x show ?thesis
      by (intro exI [of _ "Enter c # es"] exI [of _ u] exI [of _ c]) simp
  qed
qed

lemma all_settle:
  assumes "fl_inv s" and "rpc s = InSelect" and "finite {c. pcs s c \<noteq> Idle}"
  shows "\<exists>es t. frun s es = Some t \<and> list_all settles es \<and> rpc t = InSelect \<and> pcs t = (\<lambda>_. Idle)"
  using assms
proof (induction "card {c. pcs s c \<noteq> Idle}" arbitrary: s rule: less_induct)
  case less
  show ?case
  proof (cases "\<exists>c. pcs s c \<noteq> Idle")
    case False
    then show ?thesis using less.prems(2) by (intro exI [of _ "[]"]) auto
  next
    case True
    then obtain c where "pcs s c \<noteq> Idle" by blast
    from one_settles [OF less.prems(1,2) this] obtain es t d where t: "frun s es = Some t" "list_all settles es"
      "rpc t = InSelect" "pcs s d \<noteq> Idle" "pcs t = (pcs s)(d := Idle)" by blast
    have sub: "{c. pcs t c \<noteq> Idle} \<subset> {c. pcs s c \<noteq> Idle}" using t(4,5) by auto
    from less.hyps [OF psubset_card_mono [OF less.prems(3) sub] frun_inv [OF less.prems(1) t(1)] t(3)]
      finite_subset [OF _ less.prems(3)] sub
    obtain fs u where "frun t fs = Some u" "list_all settles fs" "rpc u = InSelect" "pcs u = (\<lambda>_. Idle)" by blast
    then show ?thesis using t(1,2) by (intro exI [of _ "es @ fs"] exI [of _ u]) (simp add: frun_append)
  qed
qed

lemma flusher_settles:
  assumes "fl_inv s" and "rpc s = InSelect \<or> rpc s = Flush" and "\<not> deadlocked s"
    and "finite {c. pcs s c \<noteq> Idle}"
  shows "\<exists>es t. frun s es = Some t \<and> list_all settles es \<and> rpc t = InSelect \<and> pcs t = (\<lambda>_. Idle)"
proof (cases "rpc s = InSelect")
  case True
  from all_settle [OF assms(1) this assms(4)] show ?thesis .
next
  case False
  with assms(2) have fl: "rpc s = Flush" by simp
  have "\<exists>es t. frun s es = Some t \<and> list_all settles es \<and> rpc t = InSelect \<and> {c. pcs t c \<noteq> Idle} \<subseteq> {c. pcs s c \<noteq> Idle}"
  proof (cases "owner s")
    case None
    then show ?thesis using fl by (intro exI [of _ "[DoFlush]"]) (simp add: run_flush_eq)
  next
    case (Some c)
    then obtain x where x: "pcs s c = Sending x" using assms(1) by (auto simp: fl_inv_def inv_lock_def)
    then have "fillChan (fl s) \<noteq> fillCap" using assms(3) fl Some by (auto simp: deadlocked_def)
    moreover have "fillChan (fl s) \<le> fillCap" using assms(1) by (simp add: fl_inv_def inv_need_def)
    ultimately show ?thesis using fl Some x
      by (intro exI [of _ "[Send c, DoFlush]"]) (auto simp: flusher_eqs)
  qed
  then obtain es t where t: "frun s es = Some t" "list_all settles es" "rpc t = InSelect"
    "{c. pcs t c \<noteq> Idle} \<subseteq> {c. pcs s c \<noteq> Idle}" by blast
  from all_settle [OF frun_inv [OF assms(1) t(1)] t(3) finite_subset [OF t(4) assms(4)]]
  obtain fs u where "frun t fs = Some u" "list_all settles fs" "rpc u = InSelect" "pcs u = (\<lambda>_. Idle)" by blast
  then show ?thesis using t(1,2) by (intro exI [of _ "es @ fs"] exI [of _ u]) (simp add: frun_append)
qed

lemma wrun_finish:
  "pcs (dq w) = (\<lambda>_. Idle) \<Longrightarrow>
     wrun w (map Finish cs) = Some (w\<lparr>active := filter (\<lambda>(d, j). d \<notin> set cs) (active w)\<rparr>)"
proof (induction cs arbitrary: w)
  case Nil
  then show ?case by (simp add: split_beta)
next
  case (Cons c cs)
  let ?v = "w\<lparr>active := filter (\<lambda>(d, j). d \<noteq> c) (active w)\<rparr>"
  have "wnext w (Finish c) = Some ?v" using Cons.prems by simp
  with Cons.IH [of ?v] Cons.prems show ?case
    by (simp add: split_beta)
qed

text \<open>With no request left and the flusher stopped, the process runs as on its own.\<close>

lemma wrun_main:
  "arun (app w) es = Some p \<Longrightarrow> active w = [] \<Longrightarrow> \<not> flusher_up (app w) \<Longrightarrow>
     \<exists>v. wrun w (map Main es) = Some v \<and> app v = p \<and> fl (dq v) = fl (dq w) \<and>
       flushed (dq v) = flushed (dq w) \<and> accepted (dq v) = accepted (dq w)"
proof (induction es arbitrary: w)
  case Nil
  then show ?case by simp
next
  case (Cons e es)
  then obtain q where q: "anext (app w) e = Some q" "arun q es = Some p" by (auto split: option.splits)
  have e: "e \<noteq> FlusherStop" using q(1) Cons.prems(3) by auto
  then have "main_ok w e" using Cons.prems(2) by (cases "(w, e)" rule: main_ok.cases) auto
  let ?v = "w\<lparr>app := q, dq := if cancels e then (dq w)\<lparr>cancelled := True\<rparr> else dq w\<rparr>"
  have "wnext w (Main e) = Some ?v" using q(1) \<open>main_ok w e\<close> by simp
  moreover have "\<not> flusher_up (app ?v)" using astep_frame [OF q(1) [unfolded anext_iff] e] Cons.prems(3) by simp
  ultimately show ?case using Cons.IH [of ?v] q(2) Cons.prems(2) by auto
qed

section \<open>Runs\<close>

lemma wrun_arrive:
  assumes "i < length (servers (app w))" and "fst (servers (app w) ! i) \<noteq> ProfKind"
    and "snd (servers (app w) ! i) = Serving" and "active w = []"
  shows "wrun w (map (\<lambda>c. Arrive c i) [0..<n]) = Some (w\<lparr>active := rev (map (\<lambda>c. (c, i)) [0..<n])\<rparr>)"
proof (induction n)
  case 0
  then show ?case using assms(4) by simp
next
  case (Suc n)
  then show ?case using assms(1-3) by (simp add: wrun_append image_image)
qed

lemma start_server:
  assumes "i < length ks" and "ks ! i = HttpKind"
  shows "i < length (servers (app (whole_start ks f)))" "fst (servers (app (whole_start ks f)) ! i) \<noteq> ProfKind"
    "snd (servers (app (whole_start ks f)) ! i) = Serving" "active (whole_start ks f) = []"
    "dq (whole_start ks f) = finit f"
  using assms by (simp_all add: whole_start_def app_start_def)

text \<open>The runs of the queue used below are made of calls of the requests \<open>0 ..< n\<close>.\<close>

definition calls_of :: "nat \<Rightarrow> 'a fevent \<Rightarrow> bool" where
  "calls_of n e \<longleftrightarrow> settles e \<or> e = Timer \<or> (\<exists>c x. e = Call c x \<and> c < n)"

lemma calls_of_simps [simp]:
  "calls_of n (Call c x) \<longleftrightarrow> c < n" "calls_of n (Enter c)" "calls_of n (Send c)" "calls_of n Timer"
  "calls_of n Token" "calls_of n DoFlush" "calls_of n CtxDone"
  by (auto simp: calls_of_def)

lemma calls_of_fill: "0 < n \<Longrightarrow> list_all (calls_of n) (fill k x)"
  by (induction k) simp_all

lemma calls_of_stale: "0 < n \<Longrightarrow> list_all (calls_of n) (stale_run k x)"
  by (simp add: stale_run_def calls_of_fill)

lemma calls_of_blocked: "0 < n \<Longrightarrow> list_all (calls_of n) (blocked_run k x)"
  by (simp add: blocked_run_def calls_of_stale calls_of_fill)

lemma wrun_calls:
  assumes "i < length ks" and "ks ! i = HttpKind" and "list_all (calls_of n) es" and "frun (finit f) es = Some q"
  shows "wrun (whole_start ks f) (map (\<lambda>c. Arrive c i) [0..<n] @ map Queue es) =
    Some ((whole_start ks f)\<lparr>active := rev (map (\<lambda>c. (c, i)) [0..<n]), dq := q\<rparr>)"
proof -
  let ?w = "(whole_start ks f)\<lparr>active := rev (map (\<lambda>c. (c, i)) [0..<n])\<rparr>"
  have "list_all (\<lambda>e. settles e \<or> e = Timer \<or> (\<exists>c x. e = Call c x \<and> c \<in> set (map fst (active ?w)))) es"
    using assms(3) by (auto simp: calls_of_def list_all_iff image_image)
  from wrun_queue [OF this, of q] assms(4) start_server(5) [OF assms(1,2), of f]
  have "wrun ?w (map Queue es) = Some (?w\<lparr>dq := q\<rparr>)" by simp
  then show ?thesis using wrun_arrive [OF start_server(1-4) [OF assms(1,2)], of f n] by (simp add: wrun_append)
qed

fun arrival :: "'a wevent \<Rightarrow> bool" where
  "arrival (Arrive c i) = True"
| "arrival _ = False"

lemma arrival_maps [simp]:
  "filter arrival (map Queue es) = []" "filter arrival (map (\<lambda>c. Arrive c i) cs) = map (\<lambda>c. Arrive c i) cs"
  by (induction es; induction cs) simp_all

lemma app_events_Queue [simp]: "e \<noteq> DoFinal \<Longrightarrow> app_events (Queue e) = []"
  by (cases e) simp_all

lemma app_events_map [simp]: "DoFinal \<notin> set es \<Longrightarrow> concat (map app_events (map Queue es)) = []"
  by (induction es) auto

lemma count_Queue [simp]: "count_list (map Queue es) (Queue e) = count_list es e"
  by (induction es) simp_all

lemma count_fill [simp]: "count_list (fill k x) Timer = 0" "DoFinal \<notin> set (fill k x)"
  by (induction k) simp_all

lemma blocked_run_counts:
  "count_list (blocked_run k x) Timer = 1" "DoFinal \<notin> set (blocked_run k x)"
  by (simp_all add: blocked_run_def stale_run_def)

lemma no_start_error: "(k, SendingErr b) \<notin> set (servers (app_start ks))"
proof -
  have "server_start k \<noteq> SendingErr b" for k by (cases k) simp_all
  then show ?thesis by (auto simp: app_start_def dest: sym)
qed

text \<open>The way out of a shutdown: the handlers settle, their requests finish, the flusher makes its final flush,
  and the servers and the main goroutine return.\<close>

lemma requests_finish:
  assumes "pcs (dq w) = (\<lambda>_. Idle)"
  shows "wrun w (map Finish (map fst (active w))) = Some (w\<lparr>active := []\<rparr>)"
proof -
  have "filter (\<lambda>(d, j). d \<notin> set (map fst (active w))) (active w) = []"
    by (force simp: filter_empty_conv)
  then show ?thesis using wrun_finish [of w "map fst (active w)"] assms by simp
qed

lemma servers_finish:
  assumes "whole_inv w" and "main_pc (app w) = Waiting" and "\<not> sending (app w)" and "\<not> flusher_up (app w)" and "active w = []"
  shows "\<exists>es v. wrun w (map Main es) = Some v \<and> main_pc (app v) = Returned \<and> flushed (dq v) = flushed (dq w) \<and>
    accepted (dq v) = accepted (dq w)"
proof -
  have "proc_inv (app w)" using assms(1) by (simp add: whole_inv_def)
  from shutdown_completes [OF this assms(2,3)] obtain es p where p: "arun (app w) es = Some p" "main_pc p = Returned" by blast
  from wrun_main [OF p(1) assms(5,4)] p(2) show ?thesis by metis
qed

lemma final_flush:
  assumes "whole_inv w" and "main_pc (app w) = Waiting" and "rpc (dq w) = InSelect" and "pcs (dq w) = (\<lambda>_. Idle)"
    and "active w = []"
  obtains v where "wrun w [Queue CtxDone, Queue DoFinal] = Some v" and "app v = (app w)\<lparr>flusher_up := False\<rparr>"
    and "active v = []" and "buf (fl (dq v)) = []" and "whole_inv v"
proof -
  have c: "fsys.cancelled (dq w)" using assms(1,2) by (auto simp: whole_inv_def agree_def proc_inv_def)
  have o: "owner (dq w) = None" using assms(1,4) by (auto simp: whole_inv_def fl_inv_def inv_lock_def)
  obtain v where v: "wrun w [Queue CtxDone, Queue DoFinal] = Some v" "app v = (app w)\<lparr>flusher_up := False\<rparr>"
      "active v = []" "buf (fl (dq v)) = []"
    using assms(3,5) c o by (simp add: run_flush_eq)
  with wrun_parts [OF v(1) assms(1)] show thesis by (blast intro: that)
qed

lemma shutdown_can_complete:
  assumes "whole_inv w" and "main_pc (app w) = Waiting" and "rpc (dq w) = InSelect \<or> rpc (dq w) = Flush"
    and "\<not> sending (app w)" and "\<not> deadlocked (dq w)"
  shows "\<exists>fs v. wrun w fs = Some v \<and> main_pc (app v) = Returned \<and> concat (map fst (flushed (dq v))) = accepted (dq v) \<and>
    (\<forall>e \<in> set fs. (\<forall>c i. e \<noteq> Arrive c i) \<and> (\<forall>c x. e \<noteq> Queue (Call c x)))"
proof -
  have parts: "agree w" "fl_inv (dq w)" using assms(1) by (simp_all add: whole_inv_def)
  have "finite {c. pcs (dq w) c \<noteq> Idle}"
    by (rule finite_subset [of _ "set (map fst (active w))"]) (use parts(1) in \<open>auto simp: agree_def\<close>)
  from flusher_settles [OF parts(2) _ assms(5) this] assms(3) obtain es1 q where
    q: "frun (dq w) es1 = Some q" "list_all settles es1" "rpc q = InSelect" "pcs q = (\<lambda>_. Idle)" by blast
  let ?w1 = "w\<lparr>dq := q\<rparr>" and ?w2 = "w\<lparr>dq := q, active := []\<rparr>"
  have r1: "wrun w (map Queue es1) = Some ?w1"
    by (rule wrun_queue [OF _ q(1)]) (use q(2) in \<open>auto simp: list_all_iff\<close>)
  have r2: "wrun ?w1 (map Finish (map fst (active w))) = Some ?w2"
    using requests_finish [of ?w1] q(4) by simp
  have inv2: "whole_inv ?w2" using wrun_parts [OF r2] wrun_parts [OF r1 assms(1)] by blast
  obtain w3 where r3: "wrun ?w2 [Queue CtxDone, Queue DoFinal] = Some w3" "app w3 = (app ?w2)\<lparr>flusher_up := False\<rparr>"
      "active w3 = []" "buf (fl (dq w3)) = []" "whole_inv w3"
    by (rule final_flush [OF inv2]) (use assms(2) q(3,4) in simp_all)
  have "main_pc (app w3) = Waiting" "\<not> sending (app w3)" "\<not> flusher_up (app w3)"
    using r3(2) assms(2,4) by (simp_all add: sending_def)
  from servers_finish [OF r3(5) this r3(3)] obtain es4 v where v: "wrun w3 (map Main es4) = Some v"
      "main_pc (app v) = Returned" "flushed (dq v) = flushed (dq w3)" "accepted (dq v) = accepted (dq w3)" by blast
  let ?fs = "map Queue es1 @ map Finish (map fst (active w)) @ [Queue CtxDone, Queue DoFinal] @ map Main es4"
  have "wrun w ?fs = Some v" using r1 r2 r3(1) v(1) by (simp only: wrun_append option.case)
  moreover have "concat (map fst (flushed (dq v))) = accepted (dq v)"
    using r3(4,5) v(3,4) by (auto simp: whole_inv_def fl_inv_def inv_elems_def)
  moreover have "\<forall>e \<in> set ?fs. (\<forall>c i. e \<noteq> Arrive c i) \<and> (\<forall>c x. e \<noteq> Queue (Call c x))"
    using q(2) by (auto simp: list_all_iff)
  ultimately show ?thesis using v(2) by blast
qed

lemma shutdown_stuck:
  assumes "whole_inv w" and "main_pc (app w) = Waiting" and "wrun w fs = Some v" and "main_pc (app v) = Returned"
  shows "\<not> sending (app w) \<and> \<not> deadlocked (dq w)"
proof
  have "arun (app w) (concat (map app_events fs)) = Some (app v)" using wrun_parts [OF assms(3,1)] by blast
  then show "\<not> sending (app w)" using hung_run [OF _ assms(2)] assms(4) by force
  show "\<not> deadlocked (dq w)" using wrun_deadlocked [OF assms(3,1)] assms(4) by blast
qed

text \<open>\<open>n\<close> handlers that read the shutdown flag in time come back to a flusher that has stopped: the last of them
  finds the old token in the channel.\<close>

lemma late_handlers:
  assumes "0 < n" and "pcs s = (\<lambda>c. if c < n then Loaded 7 else Idle)" and "owner s = None" and "buf (fl s) = []"
    and "flushSize (fl s) = int n" and "fillChan (fl s) = 1" and "rpc s = Stopped" and "\<not> flushNeed (fl s)"
  obtains q where "frun s (map Enter [0..<n - 1] @ [Enter (n - 1)]) = Some q" and "pcs q (n - 1) = Sending (7 :: nat)"
    and "fillChan (fl q) = fillCap" and "rpc q = Stopped" and "length (buf (fl q)) = n"
proof -
  let ?q3 = "(filled (n - 1) 7 s)\<lparr>pcs := (\<lambda>c. if n - 1 \<le> c \<and> c < n then Loaded 7 else Idle)\<rparr>"
  have f3: "frun s (map Enter [0..<n - 1]) = Some ?q3"
    by (rule frun_enters [OF assms(2,3)]) (use assms(1,4,5) in simp_all)
  have "\<exists>q4. frun ?q3 [Enter (n - 1)] = Some q4 \<and> pcs q4 (n - 1) = Sending 7 \<and> fillChan (fl q4) = fillCap \<and> rpc q4 = Stopped \<and>
      length (buf (fl q4)) = n"
    using assms by (simp add: filled_def push_body_def Let_def fillCap_def)
  with f3 show thesis by (auto simp: frun_append simp del: frun.simps intro: that)
qed

section \<open>Properties\<close>

text \<open>C9. When the shutdown completes: while the main goroutine waits and the flusher has not started its
  final flush, the process can still return if and only if no server is sending an error and the
  flusher is not deadlocked; and then it can without a new request or call, with everything
  accepted flushed.\<close>

theorem shutdown_completes_iff:
  assumes "NewFlusher cfg = Some f" and "wrun (whole_start ks f) es = Some w" and "main_pc (app w) = Waiting"
    and "rpc (dq w) = InSelect \<or> rpc (dq w) = Flush"
  shows "((\<exists>fs v. wrun w fs = Some v \<and> main_pc (app v) = Returned) \<longleftrightarrow>
      (\<nexists>k b. (k, SendingErr b) \<in> set (servers (app w))) \<and> \<not> deadlocked (dq w)) \<and>
    ((\<exists>fs v. wrun w fs = Some v \<and> main_pc (app v) = Returned) \<longrightarrow>
      (\<exists>fs v. wrun w fs = Some v \<and> main_pc (app v) = Returned \<and>
        concat (map fst (flushed (dq v))) = accepted (dq v) \<and>
        (\<forall>e \<in> set fs. (\<forall>c i. e \<noteq> Arrive c i) \<and> (\<forall>c x. e \<noteq> Queue (Call c x)))))"
proof -
  have inv: "whole_inv w" using wrun_parts [OF assms(2) whole_start_inv [OF assms(1)]] by blast
  show ?thesis
    using shutdown_stuck [OF inv assms(3)] shutdown_can_complete [OF inv assms(3,4)] unfolding sending_def by blast
qed

text \<open>C10. The process can hang in a shutdown with nothing wrong but timing: for every positive flush size
  (100 in the service) and every set of servers with an http server, there is a run with one
  request, one flush timer and one signal in which the handler of that request ends up holding
  the mutex of the queue while it sends on the full fill channel, and the flusher waits for that
  mutex to make its final flush of a full batch. No server is sending an error, the main goroutine
  waits, and this stays so in every continuation: it never returns.\<close>

theorem shutdown_deadlocks:
  assumes "NewFlusher cfg = Some (f :: nat Flusher)" and "0 < FlushSize cfg" and "HttpKind \<in> set ks"
  shows "\<exists>es w i x. wrun (whole_start ks f) es = Some w \<and> ks ! i = HttpKind \<and>
    filter arrival es = [Arrive 0 i] \<and> count_list es (Queue Timer) = 1 \<and>
    concat (map app_events es) = [Interrupt, SelectDone] \<and> active w = [(0, i)] \<and>
    length (buf (fl (dq w))) = nat (FlushSize cfg) \<and> main_pc (app w) = Waiting \<and>
    (\<nexists>k b. (k, SendingErr b) \<in> set (servers (app w))) \<and>
    (\<forall>fs v. wrun w fs = Some v \<longrightarrow> owner (dq v) = Some 0 \<and> pcs (dq v) 0 = Sending x \<and>
      fillChan (fl (dq v)) = fillCap \<and> rpc (dq v) = FinalFlush \<and> main_pc (app v) \<noteq> Returned)"
proof -
  obtain i where i: "i < length ks" "ks ! i = HttpKind" using assms(3) by (auto simp: in_set_conv_nth)
  let ?run = "blocked_run (nat (FlushSize cfg)) (7 :: nat)"
  from blocked_run_result [OF assms(1,2), of 7] obtain q where
    q: "frun (finit f) ?run = Some q" "owner q = Some 0" "pcs q 0 = Sending 7"
      "fillChan (fl q) = fillCap" "rpc q = InSelect" "length (buf (fl q)) = nat (FlushSize cfg)" by blast
  let ?es = "map (\<lambda>c. Arrive c i) [0..<1] @ map Queue ?run"
  let ?stop = "[Main Interrupt, Queue CtxDone, Main SelectDone]"
  let ?w = "(whole_start ks f)\<lparr>active := rev (map (\<lambda>c. (c, i)) [0..<1]), dq := q\<rparr>"
  have r: "wrun (whole_start ks f) ?es = Some ?w" by (rule wrun_calls [OF i calls_of_blocked q(1)]) simp
  obtain w where w: "wrun ?w ?stop = Some w" "main_pc (app w) = Waiting" "held (dq w) 0 7"
      "servers (app w) = servers (app_start ks)" "active w = [(0, i)]"
      "length (buf (fl (dq w))) = nat (FlushSize cfg)"
    using q(2-6) by (simp add: whole_start_def app_start_def held_def)
  have run: "wrun (whole_start ks f) (?es @ ?stop) = Some w" using r w(1) by (simp only: wrun_append option.case)
  then have inv: "whole_inv w" using wrun_parts whole_start_inv [OF assms(1)] by blast
  have quiet: "concat (map app_events (map Queue ?run)) = []" by (rule app_events_map [OF blocked_run_counts(2)])
  have "filter arrival (?es @ ?stop) = [Arrive 0 i]" "count_list (?es @ ?stop) (Queue Timer) = 1"
    using blocked_run_counts(1) [of "nat (FlushSize cfg)" "7 :: nat"] by simp_all
  moreover have "concat (map app_events (?es @ ?stop)) = [Interrupt, SelectDone]"
    by (simp only: map_append concat_append quiet) simp
  ultimately show ?thesis using run i(2) w(2,4-6) no_start_error wrun_held [OF _ inv w(3)] unfolding held_def by metis
qed

text \<open>C11. It can hang even after the flusher has stopped in good order: requests that all called \<open>Push\<close>
  before the signal fill the buffer again after the final flush, and the last of them, a handler
  of the http server, waits for ever to send on the channel that still holds an old token, so the
  http server stays in its shutdown and the process never returns, with no server sending an error.\<close>

theorem late_pushes_hang:
  assumes "NewFlusher cfg = Some (f :: nat Flusher)" and "0 < FlushSize cfg" and "HttpKind \<in> set ks"
  shows "\<exists>es1 es2 w c x i. wrun (whole_start ks f) (es1 @ Main Interrupt # es2) = Some w \<and>
    (\<nexists>d y. Queue (Call d y) \<in> set es2) \<and> Queue DoFinal \<in> set es2 \<and> main_pc (app w) = Waiting \<and>
    rpc (dq w) = Stopped \<and> \<not> flusher_up (app w) \<and> length (buf (fl (dq w))) = nat (FlushSize cfg) \<and>
    (\<nexists>k b. (k, SendingErr b) \<in> set (servers (app w))) \<and>
    (\<forall>fs v. wrun w fs = Some v \<longrightarrow> pcs (dq v) c = Sending x \<and> fillChan (fl (dq v)) = fillCap \<and>
      (c, i) \<in> set (active v) \<and> servers (app v) ! i = (HttpKind, Stopping) \<and> main_pc (app v) \<noteq> Returned)"
proof -
  obtain i where i: "i < length ks" "ks ! i = HttpKind" using assms(3) by (auto simp: in_set_conv_nth)
  define n where "n = nat (FlushSize cfg)"
  have n: "0 < n" "int n = FlushSize cfg" "int (n - 1) < FlushSize cfg" using assms(2) by (auto simp: n_def)
  from stale_run_result [OF assms(1,2), of 7] obtain s where
    s: "frun (finit f) (stale_run n 7) = Some s" "quiet s" "buf (fl s) = []" "flushSize (fl s) = FlushSize cfg"
      "fillChan (fl s) = 1" "rpc s = InSelect" unfolding n_def by blast
  let ?calls = "stale_run n (7 :: nat) @ map (\<lambda>c. Call c 7) [0..<n]"
  let ?q = "s\<lparr>pcs := (\<lambda>c. if c < n then Loaded 7 else Idle)\<rparr>"
  have q: "frun (finit f) ?calls = Some ?q"
    using s(1) frun_calls [of s 7 n] s(2) by (simp add: frun_append quiet_def)
  let ?es = "map (\<lambda>c. Arrive c i) [0..<n] @ map Queue ?calls"
  let ?w = "(whole_start ks f)\<lparr>active := rev (map (\<lambda>c. (c, i)) [0..<n]), dq := ?q\<rparr>"
  have "list_all (calls_of n) ?calls" using calls_of_stale [OF n(1), of n "7 :: nat"] by (auto simp: list_all_iff)
  from wrun_calls [OF i this q] have r1: "wrun (whole_start ks f) ?es = Some ?w" .
  let ?stop = "[Queue CtxDone, Queue DoFinal, Main SelectDone, Main (Server i sevent.CtxDone)]"
  obtain w2 where w2: "wrun ?w (Main Interrupt # ?stop) = Some w2"
      "pcs (dq w2) = (\<lambda>c. if c < n then Loaded 7 else Idle)"
      "owner (dq w2) = None" "buf (fl (dq w2)) = []" "flushSize (fl (dq w2)) = FlushSize cfg"
      "fillChan (fl (dq w2)) = 1" "rpc (dq w2) = Stopped" "\<not> flushNeed (fl (dq w2))"
      "active w2 = rev (map (\<lambda>c. (c, i)) [0..<n])" "main_pc (app w2) = Waiting"
      "servers (app w2) = (servers (app_start ks))[i := (HttpKind, Stopping)]" "\<not> flusher_up (app w2)"
    using s(2-6) i by (simp add: whole_start_def app_start_def run_flush_eq server_step_def quiet_def)
  let ?late = "map Enter [0..<n - 1] @ [Enter (n - 1)]"
  obtain q4 where q4: "frun (dq w2) ?late = Some q4"
      "pcs q4 (n - 1) = Sending 7" "fillChan (fl q4) = fillCap" "rpc q4 = Stopped" "length (buf (fl q4)) = n"
    by (rule late_handlers [OF n(1) w2(2-4) _ w2(6-8)]) (simp add: w2(5) n(2))
  let ?v = "w2\<lparr>dq := q4\<rparr>"
  have r3: "wrun w2 (map Queue ?late) = Some ?v" by (rule wrun_queue [OF _ q4(1)]) (simp add: list_all_iff)
  have run: "wrun (whole_start ks f) (?es @ Main Interrupt # ?stop @ map Queue ?late) = Some ?v"
    using r1 w2(1) r3 by (simp only: wrun_append option.case append_Cons [symmetric])
  then have inv: "whole_inv ?v" using wrun_parts whole_start_inv [OF assms(1)] by blast
  have "late_blocked ?v (n - 1) 7 i"
    using q4(2-4) w2(9,11) i n(1) by (auto simp: late_blocked_def app_start_def)
  note late = wrun_late_blocked [OF _ inv this, unfolded late_blocked_def]
  have err: "(k, SendingErr b) \<notin> set (servers (app ?v))" for k b
    using no_start_error [of k b ks] w2(11) by (auto dest!: set_update_subset_insert [THEN subsetD])
  have "\<nexists>d y. Queue (Call d y) \<in> set (?stop @ map Queue ?late)" "Queue DoFinal \<in> set (?stop @ map Queue ?late)"
    by auto
  moreover have "main_pc (app ?v) = Waiting" "rpc (dq ?v) = Stopped" "\<not> flusher_up (app ?v)"
      "length (buf (fl (dq ?v))) = nat (FlushSize cfg)"
    using w2(10,12) q4(4,5) by (simp_all add: n_def)
  ultimately show ?thesis using run late err by blast
qed

text \<open>The program with both servers and the configuration of the service.\<close>

definition shorty_start :: "nat whole" where
  "shorty_start = whole_start [HttpKind, GrpcKind] \<lparr>shutdown = False, flushNeed = False, fillChan = 0, buf = [],
     size = 0, flushSize = 100, allocSize = 200, flushInterval = 3000000000\<rparr>"

lemma shorty_NewFlusher:
  "NewFlusher shortener_flusher_config = Some \<lparr>shutdown = False, flushNeed = False, fillChan = 0, buf = [],
     size = 0, flushSize = 100, allocSize = 200, flushInterval = 3000000000\<rparr>"
  by (simp add: NewFlusher_def shortener_flusher_config_def)

lemmas shorty_defs = shorty_start_def whole_start_def app_start_def server_step_def finit_def push_body_def
  Let_def run_flush_eq deadlocked_def

theorem shutdown_completes_iff_witness:
  "\<exists>w fs v. wrun shorty_start [Arrive 0 0, Queue (Call 0 7), Main Interrupt, Main SelectDone] = Some w \<and>
    wrun w fs = Some v \<and> main_pc (app v) = Returned \<and> concat (map fst (flushed (dq v))) = accepted (dq v)"
proof -
  let ?es = "[Arrive 0 0, Queue (Call 0 7), Main Interrupt, Main SelectDone]"
  obtain w where w: "wrun shorty_start ?es = Some w" "main_pc (app w) = Waiting" "rpc (dq w) = InSelect"
      "servers (app w) = [(HttpKind, Serving), (GrpcKind, Listening)]" "owner (dq w) = None"
    by (simp add: shorty_defs)
  have "\<not> deadlocked (dq w)" using w(3) by (simp add: deadlocked_def)
  with shutdown_completes_iff [OF shorty_NewFlusher w(1) [unfolded shorty_start_def] w(2) disjI1 [OF w(3)]] w(1,4)
  show ?thesis by auto
qed

theorem shutdown_deadlocks_witness:
  "\<exists>es w. wrun shorty_start es = Some w \<and> main_pc (app w) = Waiting \<and> count_list es (Queue Timer) = 1 \<and>
    (\<forall>fs v. wrun w fs = Some v \<longrightarrow> owner (dq v) = Some 0 \<and> main_pc (app v) \<noteq> Returned)"
  using shutdown_deadlocks [OF shorty_NewFlusher, of "[HttpKind, GrpcKind]"]
  by (simp add: shorty_start_def shortener_flusher_config_def) blast

theorem late_pushes_hang_witness:
  "\<exists>es w c x. wrun shorty_start es = Some w \<and> rpc (dq w) = Stopped \<and>
    (\<forall>fs v. wrun w fs = Some v \<longrightarrow> pcs (dq v) c = Sending x \<and> main_pc (app v) \<noteq> Returned)"
  using late_pushes_hang [OF shorty_NewFlusher, of "[HttpKind, GrpcKind]"]
  by (simp add: shorty_start_def shortener_flusher_config_def) blast

end
