(* ===== verification/Wiring.thy ===== *)
theory Wiring
  imports App
begin

text \<open>
  How \<open>NewServer\<close> of \<open>internal/http/server/server.go\<close> and \<open>internal/grpc/server/server.go\<close>, and
  \<open>New\<close> of \<open>internal/profiler/profiler.go\<close>, put their parts together: the middleware objects with
  their mutable \<open>handler\<close> fields (\<open>internal/http/middleware\<close>), the list of server options with the
  interceptors (\<open>internal/grpc/interceptors\<close>), addresses, timeouts and TLS. The servers that
  result are those of the theories \<open>HttpServer\<close> and \<open>Grpc\<close>.
\<close>

section \<open>The middleware objects\<close>

text \<open>
  A handler value is a middleware object on the heap, or one of the ends of a chain: the routes
  of the router, those of the subrouter for authenticated requests, and the statistics handler.
\<close>

datatype endpoint = RouterRoutes | SubrouterRoutes | StatsHandler

datatype handler_ref = Obj nat | End endpoint

text \<open>The fields of each kind of object that matter; a nil handler is \<^const>\<open>None\<close>.\<close>

datatype mobj =
    RequestIDMW bool "handler_ref option"
  | LoggingMW "handler_ref option"
  | CompressMW "handler_ref option"
  | AuthMW Auth "handler_ref option"
  | FilterMW Filter bool "handler_ref option"

definition requestid_New :: "bool \<Rightarrow> mobj" where
  "requestid_New trust = RequestIDMW trust None"

definition logging_New :: mobj where
  "logging_New = LoggingMW None"

definition compress_New :: mobj where
  "compress_New = CompressMW None"

definition auth_NewFromAuthorizer :: "Auth \<Rightarrow> mobj" where
  "auth_NewFromAuthorizer a = AuthMW a None"

definition auth_middleware_New :: "string \<Rightarrow> mobj" where
  "auth_middleware_New key = auth_NewFromAuthorizer (auth_New key)"

definition filter_NewFromFilter :: "Filter \<Rightarrow> mobj" where
  "filter_NewFromFilter f = FilterMW f (length (Subnets f) = 0) None"

definition filter_middleware_New :: "FilterConfig \<Rightarrow> gerr + mobj" where
  "filter_middleware_New cfg = (case filter_New cfg of
     Inl e \<Rightarrow> Inl (Wrap ''cannot configure filter'' e)
   | Inr f \<Rightarrow> Inr (filter_NewFromFilter f))"

text \<open>
  \<open>HandlerFunc\<close> of each of them: it stores the handler in the object and returns the object itself,
  so a middleware can stand in one place of a chain only.
\<close>

type_synonym heap = "mobj list"

fun requestid_HandlerFunc :: "mobj \<Rightarrow> handler_ref \<Rightarrow> mobj" where
  "requestid_HandlerFunc (RequestIDMW t _) h = RequestIDMW t (Some h)"
| "requestid_HandlerFunc m h = m"

fun logging_HandlerFunc :: "mobj \<Rightarrow> handler_ref \<Rightarrow> mobj" where
  "logging_HandlerFunc (LoggingMW _) h = LoggingMW (Some h)"
| "logging_HandlerFunc m h = m"

fun compress_HandlerFunc :: "mobj \<Rightarrow> handler_ref \<Rightarrow> mobj" where
  "compress_HandlerFunc (CompressMW _) h = CompressMW (Some h)"
| "compress_HandlerFunc m h = m"

fun auth_HandlerFunc :: "mobj \<Rightarrow> handler_ref \<Rightarrow> mobj" where
  "auth_HandlerFunc (AuthMW a _) h = AuthMW a (Some h)"
| "auth_HandlerFunc m h = m"

fun filter_HandlerFunc :: "mobj \<Rightarrow> handler_ref \<Rightarrow> mobj" where
  "filter_HandlerFunc (FilterMW f b _) h = FilterMW f b (Some h)"
| "filter_HandlerFunc m h = m"

text \<open>The method value \<open>mw.HandlerFunc\<close> of the object at \<open>i\<close>.\<close>

definition method_value :: "(mobj \<Rightarrow> handler_ref \<Rightarrow> mobj) \<Rightarrow> nat \<Rightarrow> handler_ref \<Rightarrow> heap \<Rightarrow> handler_ref \<times> heap" where
  "method_value m i h s = (Obj i, s[i := m (s ! i) h])"

section \<open>The router\<close>

text \<open>
  The chaining of middlewares is the router's: \<open>chain ms h\<close> calls every function of \<open>ms\<close> once, from
  the last to the first, each on the handler the one before returned, and \<open>h\<close> to begin with.
\<close>

type_synonym chaining =
  "(handler_ref \<Rightarrow> heap \<Rightarrow> handler_ref \<times> heap) list \<Rightarrow> handler_ref \<Rightarrow> heap \<Rightarrow> handler_ref \<times> heap"

definition chain_ok :: "chaining \<Rightarrow> bool" where
  "chain_ok chain \<longleftrightarrow> (\<forall>h s. chain [] h s = (h, s)) \<and>
     (\<forall>m ms h s. chain (m # ms) h s = (case chain ms h s of (h', s') \<Rightarrow> m h' s'))"

text \<open>The router: the heads of its own chain, of the one before the subrouter and of the one before the statistics.\<close>

record router =
  r_heap :: heap
  r_root :: handler_ref
  r_sub :: handler_ref
  r_stats :: handler_ref

text \<open>The middlewares \<open>getRouterWithMiddleware\<close> registers with \<open>Use\<close>: objects 0, 1 and 2.\<close>

definition getRouterWithMiddleware ::
  "bool \<Rightarrow> heap \<times> (handler_ref \<Rightarrow> heap \<Rightarrow> handler_ref \<times> heap) list" where
  "getRouterWithMiddleware trust =
     ([requestid_New trust, logging_New, compress_New],
      [method_value requestid_HandlerFunc 0, method_value logging_HandlerFunc 1,
       method_value compress_HandlerFunc 2])"

text \<open>\<open>registerHandlers\<close> with the authentication object \<open>a\<close> and the filter object \<open>f\<close>.\<close>

definition registerHandlers ::
  "chaining \<Rightarrow> (handler_ref \<Rightarrow> heap \<Rightarrow> handler_ref \<times> heap) list \<Rightarrow> nat \<Rightarrow> nat \<Rightarrow> heap \<Rightarrow> router" where
  "registerHandlers chain mws a f s =
     (let (root, s1) = chain mws (End RouterRoutes) s;
          (sub, s2) = chain [method_value auth_HandlerFunc a] (End SubrouterRoutes) s1;
          (stats, s3) = chain [method_value filter_HandlerFunc f] (End StatsHandler) s2
      in \<lparr>r_heap = s3, r_root = root, r_sub = sub, r_stats = stats\<rparr>)"

section \<open>The http server\<close>

text \<open>Durations are in nanoseconds.\<close>

definition defaultReadHeaderTimeout :: int where "defaultReadHeaderTimeout = 1000000000"
definition defaultReadTimeout :: int where "defaultReadTimeout = 5 * 1000000000"
definition defaultWriteTimeout :: int where "defaultWriteTimeout = 5 * 1000000000"
definition defaultIdleTimeout :: int where "defaultIdleTimeout = 10 * 1000000000"

record hsrv =
  TLSConfig :: "tls_config option"
  Addr :: string
  ReadTimeout :: int
  ReadHeaderTimeout :: int
  WriteTimeout :: int
  IdleTimeout :: int
  Handler :: router

definition GetTLSConfig :: "AppConfig \<Rightarrow> tls_config option" where
  "GetTLSConfig cfg = c_tls cfg"

definition GetAuthorizer :: "AppConfig \<Rightarrow> Auth option" where
  "GetAuthorizer cfg = c_auth cfg"

definition GetFilter :: "AppConfig \<Rightarrow> Filter option" where
  "GetFilter cfg = c_filter cfg"

text \<open>\<^const>\<open>None\<close>: a nil filter or authorizer, as in \<^const>\<open>NewServer\<close>.\<close>

definition http_NewServer :: "chaining \<Rightarrow> AppConfig \<Rightarrow> hsrv option" where
  "http_NewServer chain cfg = (case (GetAuthorizer cfg, GetFilter cfg) of
     (Some a, Some f) \<Rightarrow>
       (let (s, mws) = getRouterWithMiddleware (c_TrustRequestID cfg);
            s' = s @ [auth_NewFromAuthorizer a, filter_NewFromFilter f]
        in Some \<lparr>TLSConfig = GetTLSConfig cfg, Addr = c_ListenAddr cfg, ReadTimeout = defaultReadTimeout,
             ReadHeaderTimeout = defaultReadHeaderTimeout, WriteTimeout = defaultWriteTimeout,
             IdleTimeout = defaultIdleTimeout, Handler = registerHandlers chain mws 3 4 s'\<rparr>)
   | _ \<Rightarrow> None)"

text \<open>Which of its methods \<open>Run\<close> starts: \<open>ListenAndServeTLS\<close> or \<open>ListenAndServe\<close>.\<close>

datatype listening = ListenAndServeTLS tls_config | ListenAndServe

definition http_listen :: "hsrv \<Rightarrow> listening" where
  "http_listen h = (case TLSConfig h of Some t \<Rightarrow> ListenAndServeTLS t | None \<Rightarrow> ListenAndServe)"

text \<open>\<open>srvLogger.Write\<close>: one log message for what the http server reports.\<close>

definition srvLogger_Write :: "string list \<Rightarrow> string \<Rightarrow> (int \<times> gerr option) \<times> string list" where
  "srvLogger_Write msgs b = ((int (length b), None), msgs @ [b])"

section \<open>Serving through the objects\<close>

text \<open>
  The writers a handler can be given, and what the middlewares write to the access log: the
  request with its id, method and path, then the response with its id, status, size and write
  error, or the panic.
\<close>

datatype writer = Raw response | Log logw | Comp compw

fun write_act :: "complib \<Rightarrow> wact \<Rightarrow> writer \<Rightarrow> writer" where
  "write_act C a (Comp c) = Comp (compw_act C a c)"
| "write_act C (SetHeader k v) (Log l) = Log (logw_Set l k v)"
| "write_act C (WriteHeader code) (Log l) = Log (logw_WriteHeader l code)"
| "write_act C (WriteBody b) (Log l) = Log (logw_Write l b)"
| "write_act C (SetHeader k v) (Raw p) = Raw (p\<lparr>hdrs := (hdrs p)(k \<mapsto> v)\<rparr>)"
| "write_act C (WriteHeader code) (Raw p) = Raw (resp_WriteHeader p code)"
| "write_act C (WriteBody b) (Raw p) = Raw (snd (resp_Write p b))"

datatype logmsg =
    RequestLog string string string
  | ResponseLog string int nat "gerr option"
  | PanicLog string

type_synonym 's served = "(writer \<times> bool \<times> logmsg list \<times> 's world) option"

text \<open>The end of the request in \<open>net/http\<close>.\<close>

definition request_end :: "'s served \<Rightarrow> 's served" where
  "request_end s = (case s of
     Some (Raw p, False, lg, w) \<Rightarrow> Some (Raw (resp_finish p), False, lg, w)
   | _ \<Rightarrow> s)"

definition run_handler :: "'s Server \<Rightarrow> 's handler \<Rightarrow> hreq \<Rightarrow> writer \<Rightarrow> logmsg list \<Rightarrow> 's world \<Rightarrow> 's served" where
  "run_handler srv h r wr lg w = (case h r w of
     None \<Rightarrow> None
   | Some (out, w') \<Rightarrow> Some (fold (write_act (compressor (libs srv))) (acts out) wr, panicked out, lg, w'))"

text \<open>
  \<open>ServeHTTP\<close> of a handler value, following the pointers; \<open>srv\<close> supplies the services and libraries
  only. A nil handler panics. The first argument bounds the pointers followed; \<^const>\<open>None\<close> is
  also the result when it is used up, or when a middleware is given a writer of another layer.
\<close>

fun ServeHTTP :: "nat \<Rightarrow> 's Server \<Rightarrow> router \<Rightarrow> handler_ref \<Rightarrow> hreq \<Rightarrow> writer \<Rightarrow> logmsg list \<Rightarrow> 's world \<Rightarrow> 's served" where
  "ServeHTTP 0 srv R h r wr lg w = None"
| "ServeHTTP (Suc n) srv R (End e) r wr lg w =
     (case (e, chiFind (libs srv) patterns (r_method r) (r_path r)) of
        (RouterRoutes, Route i) \<Rightarrow>
          (if i < 5 then ServeHTTP n srv R (r_sub R) r wr lg w
           else if i = 5 then run_handler srv (http_Resolve srv) r wr lg w
           else if i = 6 then run_handler srv (http_Ping srv) r wr lg w
           else ServeHTTP n srv R (r_stats R) r wr lg w)
      | (RouterRoutes, SubrouterDefault as) \<Rightarrow> ServeHTTP n srv R (r_sub R) r wr lg w
      | (RouterRoutes, RouterDefault as) \<Rightarrow> run_handler srv (\<lambda>r w. Some (finished as, w)) r wr lg w
      | (SubrouterRoutes, Route i) \<Rightarrow>
          run_handler srv ([http_GetAll srv, http_DeleteBatch srv, http_Shorten srv, http_ShortenBatch srv,
            http_ShortenPlain srv] ! i) r wr lg w
      | (SubrouterRoutes, SubrouterDefault as) \<Rightarrow> run_handler srv (\<lambda>r w. Some (finished as, w)) r wr lg w
      | (SubrouterRoutes, RouterDefault as) \<Rightarrow> run_handler srv (\<lambda>r w. Some (finished as, w)) r wr lg w
      | (StatsHandler, _) \<Rightarrow> run_handler srv (http_Stats srv) r wr lg w)"
| "ServeHTTP (Suc n) srv R (Obj i) r wr lg w =
     (let C = compressor (libs srv) in
      case r_heap R ! i of
        RequestIDMW trust handler \<Rightarrow>
          (case requestid_mw (srv\<lparr>trustRequestID := trust\<rparr>) r w of
             (Inl e, w') \<Rightarrow> Some (write_act C (WriteHeader 500) wr, False, lg, w')
           | (Inr r', w') \<Rightarrow> (case handler of
               None \<Rightarrow> Some (wr, True, lg, w')
             | Some h \<Rightarrow> ServeHTTP n srv R h r' wr lg w'))
      | LoggingMW handler \<Rightarrow> (case wr of
          Raw p \<Rightarrow>
            (let reqID = (case GetRequestID (r_ctx r) of Some x \<Rightarrow> x | None \<Rightarrow> []);
                 lg' = lg @ [RequestLog reqID (r_method r) (r_path r)]
             in case (case handler of
                   None \<Rightarrow> Some (Log (new_logw p), True, lg', w)
                 | Some h \<Rightarrow> ServeHTTP n srv R h r (Log (new_logw p)) lg' w) of
                  Some (Log l, panic, lg2, w') \<Rightarrow>
                    (if panic then Some (Raw (logw_finish l True), False, lg2 @ [PanicLog reqID], w')
                     else (let l' = (if \<not> wroteHeader l then flushHeader l else l) in
                       Some (Raw (lw_resp l'), False,
                         lg2 @ [ResponseLog reqID (lw_status l') (lw_size l') (lw_writeErr l')], w')))
                | _ \<Rightarrow> None)
        | _ \<Rightarrow> None)
      | CompressMW handler \<Rightarrow> (case wr of
          Log l \<Rightarrow> (case (case handler of
               None \<Rightarrow> Some (Comp (new_compw l (r_head r ''Accept-Encoding'')), True, lg, w)
             | Some h \<Rightarrow> ServeHTTP n srv R h r (Comp (new_compw l (r_head r ''Accept-Encoding''))) lg w) of
              Some (Comp c, panic, lg', w') \<Rightarrow> Some (Log (compw_close C c), panic, lg', w')
            | _ \<Rightarrow> None)
        | _ \<Rightarrow> None)
      | AuthMW a handler \<Rightarrow> (case GetRequestID (r_ctx r) of
          None \<Rightarrow> Some (write_act C (WriteHeader 500) wr, False, lg, w)
        | Some requestID \<Rightarrow> (case createOrParseUserFromRequest (srv\<lparr>authorizer := a\<rparr>) r (uuids w) of
            (Inl e, g) \<Rightarrow> Some (write_act C (WriteHeader 500) wr, False, lg, w\<lparr>uuids := g\<rparr>)
          | (Inr (u, token), g) \<Rightarrow>
              (let wr' = fold (write_act C) (setCookie srv token) wr in
               case handler of
                 None \<Rightarrow> Some (wr', True, lg, w\<lparr>uuids := g\<rparr>)
               | Some h \<Rightarrow> ServeHTTP n srv R h (r\<lparr>r_ctx := SetUserContext (r_ctx r) u\<rparr>) wr' lg (w\<lparr>uuids := g\<rparr>))))
      | FilterMW f block handler \<Rightarrow>
          (if \<not> block \<and> CheckRequestParams f (r_remote r) (r_head r ''X-Real-IP'') (r_head r ''X-Forwarded-For'')
           then (case handler of
               None \<Rightarrow> Some (wr, True, lg, w)
             | Some h \<Rightarrow> ServeHTTP n srv R h r wr lg w)
           else Some (write_act C (WriteHeader 403) wr, False, lg, w)))"

section \<open>The wired chain\<close>

lemma chain_ok_simps:
  "chain_ok chain \<Longrightarrow> chain [] h s = (h, s)"
  "chain_ok chain \<Longrightarrow> chain (m # ms) h s = (case chain ms h s of (h', s') \<Rightarrow> m h' s')"
  by (simp_all add: chain_ok_def)

text \<open>What \<open>NewServer\<close> has built: no handler is nil, and every object points to the next of its chain.\<close>

definition wired :: "bool \<Rightarrow> Auth \<Rightarrow> Filter \<Rightarrow> router" where
  "wired trust a f = \<lparr>r_heap =
      [RequestIDMW trust (Some (Obj 1)), LoggingMW (Some (Obj 2)), CompressMW (Some (End RouterRoutes)),
       AuthMW a (Some (End SubrouterRoutes)), FilterMW f (Subnets f = []) (Some (End StatsHandler))],
     r_root = Obj 0, r_sub = Obj 3, r_stats = Obj 4\<rparr>"

lemma http_NewServer_wired:
  assumes "chain_ok chain" and "c_auth cfg = Some a" and "c_filter cfg = Some f"
  shows "http_NewServer chain cfg = Some \<lparr>TLSConfig = c_tls cfg, Addr = c_ListenAddr cfg,
    ReadTimeout = defaultReadTimeout, ReadHeaderTimeout = defaultReadHeaderTimeout,
    WriteTimeout = defaultWriteTimeout, IdleTimeout = defaultIdleTimeout,
    Handler = wired (c_TrustRequestID cfg) a f\<rparr>"
  using assms
  by (simp add: http_NewServer_def GetTLSConfig_def GetAuthorizer_def GetFilter_def getRouterWithMiddleware_def
      registerHandlers_def chain_ok_simps [OF assms(1)] method_value_def wired_def requestid_New_def logging_New_def
      compress_New_def auth_NewFromAuthorizer_def filter_NewFromFilter_def)

text \<open>A handler chain run on a compressing writer.\<close>

definition on_writer :: "'s Server \<Rightarrow> compw \<Rightarrow> logmsg list \<Rightarrow> (hout \<times> 's world) option \<Rightarrow> 's served" where
  "on_writer srv c lg q = (case q of None \<Rightarrow> None
     | Some (out, w') \<Rightarrow> Some (Comp (fold (compw_act (compressor (libs srv))) (acts out) c), panicked out, lg, w'))"

lemma fold_write_Comp [simp]: "fold (write_act C) as (Comp c) = Comp (fold (compw_act C) as c)"
  by (induction as arbitrary: c) simp_all

lemma run_handler_Comp [simp]: "run_handler srv h r (Comp c) lg w = on_writer srv c lg (h r w)"
  by (simp add: run_handler_def on_writer_def split: option.splits)

lemma on_writer_finished: "on_writer srv c lg (Some (finished as, w)) =
    Some (Comp (fold (compw_act (compressor (libs srv))) as c), False, lg, w)"
  by (simp add: on_writer_def finished_def)

definition same_parts :: "'s Server \<Rightarrow> router \<Rightarrow> bool" where
  "same_parts srv R \<longleftrightarrow> R = wired (trustRequestID srv) (authorizer srv) (filterMW srv)"

lemma serve_sub:
  assumes "same_parts srv R"
    and "\<forall>ctx c' lg' w'. ServeHTTP n srv R (End SubrouterRoutes) (r\<lparr>r_ctx := ctx\<rparr>) (Comp c') lg' w' =
      on_writer srv c' lg' (h (r\<lparr>r_ctx := ctx\<rparr>) w')"
  shows "ServeHTTP (Suc n) srv R (Obj 3) r (Comp c) lg w = on_writer srv c lg (auth_mw srv h r w)"
  using assms
  by (simp add: same_parts_def wired_def auth_mw_def on_writer_def Let_def finished_def del: ServeHTTP.simps(2)
      split: option.split prod.split sum.split)

lemma serve_stats:
  assumes "same_parts srv R"
  shows "ServeHTTP (Suc (Suc n)) srv R (Obj 4) r (Comp c) lg w = on_writer srv c lg (filter_mw srv (http_Stats srv) r w)"
  using assms
  by (simp add: same_parts_def wired_def filter_mw_def on_writer_def Let_def finished_def split: option.split prod.split)

lemma serve_routes:
  assumes "same_parts srv R" and "chi_ok (libs srv)"
  shows "ServeHTTP (Suc (Suc (Suc n))) srv R (End RouterRoutes) r (Comp c) lg w = on_writer srv c lg (route srv r w)"
proof -
  have p: "r_sub R = Obj 3" "r_stats R = Obj 4" using assms(1) by (simp_all add: same_parts_def wired_def)
  have pr: "map fst (routes srv) = patterns" by (rule patterns_routes)
  show ?thesis
  proof (cases "chiFind (libs srv) patterns (r_method r) (r_path r)")
    case (Route i)
    with assms(2) have "i < length patterns" by (auto simp: chi_ok_def)
    then have i: "i < 8" by (simp add: patterns_def)
    show ?thesis
    proof (cases "i < 5")
      case True
      let ?h = "[http_GetAll srv, http_DeleteBatch srv, http_Shorten srv, http_ShortenBatch srv, http_ShortenPlain srv] ! i"
      have h: "snd (routes srv ! i) = auth_mw srv ?h" using True by (auto simp: routes_def less_Suc_eq numeral_eq_Suc)
      have "ServeHTTP (Suc (Suc n)) srv R (Obj 3) r (Comp c) lg w = on_writer srv c lg (auth_mw srv ?h r w)"
        by (rule serve_sub [OF assms(1)]) (simp add: Route)
      then show ?thesis using True Route p h by (simp add: route_def pr)
    next
      case False
      then consider "i = 5" | "i = 6" | "i = 7" using i by linarith
      then show ?thesis
        by cases (simp_all add: Route route_def pr p serve_stats [OF assms(1)] del: ServeHTTP.simps(3))
    qed
  next
    case (SubrouterDefault as)
    have "ServeHTTP (Suc (Suc n)) srv R (Obj 3) r (Comp c) lg w =
        on_writer srv c lg (auth_mw srv (\<lambda>r w. Some (finished as, w)) r w)"
      by (rule serve_sub [OF assms(1)]) (simp add: SubrouterDefault)
    then show ?thesis using SubrouterDefault p by (simp add: route_def pr)
  next
    case (RouterDefault as)
    then show ?thesis by (simp add: route_def pr)
  qed
qed

section \<open>The access log\<close>

text \<open>The size the logging writer counts is the length of the body that was written.\<close>

definition sized :: "logw \<Rightarrow> bool" where
  "sized l \<longleftrightarrow> length (body (lw_resp l)) = lw_size l"

lemma resp_body [simp]: "body (resp_WriteHeader p c) = body p"
  by (simp add: resp_WriteHeader_def)

lemma sized_simps [simp]:
  "body p = [] \<Longrightarrow> sized (new_logw p)"
  "sized (flushHeader l) = sized l" "sized (logw_WriteHeader l c) = sized l" "sized (logw_Set l k v) = sized l"
  by (simp_all add: sized_def new_logw_def flushHeader_def Let_def logw_WriteHeader_def logw_Set_def)

lemma resp_Write_size: "length (body (snd (resp_Write p b))) = length (body p) + fst (fst (resp_Write p b))"
  by (simp add: resp_Write_def Let_def split: option.split prod.split)

lemma sized_Write [simp]: "sized l \<Longrightarrow> sized (logw_Write l b)"
proof -
  assume "sized l"
  then have "sized (if \<not> wroteHeader l then flushHeader l else l)" by simp
  then show ?thesis
    using resp_Write_size [of "lw_resp (if \<not> wroteHeader l then flushHeader l else l)" b]
    by (simp add: logw_Write_def Let_def sized_def split_beta del: sized_simps)
qed

lemma sized_writes: "sized l \<Longrightarrow> sized (fold (\<lambda>x w. logw_Write w x) bs l)"
  by (induction bs arbitrary: l) simp_all

lemma sized_acts: "sized (inner c) \<Longrightarrow> sized (inner (fold (compw_act C) as c))"
proof (induction as arbitrary: c)
  case Nil
  then show ?case by simp
next
  case (Cons a as)
  then have "sized (inner (compw_act C a c))"
    by (cases a) (auto simp: compw_WriteHeader_def compw_Write_def Let_def sized_writes split: option.splits)
  with Cons.IH show ?case by simp
qed

lemma sized_close: "sized (inner c) \<Longrightarrow> sized (compw_close C c)"
  by (auto simp: compw_close_def sized_writes split: option.splits)

lemma failed_response: "resp_finish (resp_WriteHeader new_response 500) = resp_WriteHeader new_response 500"
  by (simp add: resp_finish_def resp_WriteHeader_def new_response_def)

text \<open>The two messages of a request.\<close>

definition logged :: "hreq \<Rightarrow> response \<Rightarrow> logmsg list \<Rightarrow> bool" where
  "logged r resp lg \<longleftrightarrow> (\<exists>rid m. lg = [RequestLog rid (r_method r) (r_path r), m] \<and>
     (m = PanicLog rid \<or> (\<exists>st e. m = ResponseLog rid st (length (body resp)) e)))"

lemma serve_compress_step:
  assumes "same_parts srv R"
  shows "ServeHTTP (Suc m) srv R (Obj 2) r (Log l) lg w =
    (case ServeHTTP m srv R (End RouterRoutes) r (Comp (new_compw l (r_head r ''Accept-Encoding''))) lg w of
       Some (Comp c, panic, lg', w') \<Rightarrow> Some (Log (compw_close (compressor (libs srv)) c), panic, lg', w')
     | _ \<Rightarrow> None)"
  using assms by (simp add: same_parts_def wired_def Let_def)

text \<open>The request id the logging middleware finds in the context.\<close>

definition logged_id :: "hreq \<Rightarrow> string" where
  "logged_id r = (case GetRequestID (r_ctx r) of Some x \<Rightarrow> x | None \<Rightarrow> [])"

definition log_end :: "string \<Rightarrow> logw \<Rightarrow> bool \<Rightarrow> logmsg" where
  "log_end rid l panic = (if panic then PanicLog rid
     else (let l' = (if \<not> wroteHeader l then flushHeader l else l)
       in ResponseLog rid (lw_status l') (lw_size l') (lw_writeErr l')))"

lemma serve_log_step:
  assumes "same_parts srv R"
  shows "ServeHTTP (Suc m) srv R (Obj (Suc 0)) r (Raw p) [] w =
    (case ServeHTTP m srv R (Obj 2) r (Log (new_logw p)) [RequestLog (logged_id r) (r_method r) (r_path r)] w of
       Some (Log l, panic, lg, w') \<Rightarrow>
         Some (Raw (logw_finish l panic), False, lg @ [log_end (logged_id r) l panic], w')
     | _ \<Rightarrow> None)"
  using assms
  by (simp add: same_parts_def wired_def Let_def logged_id_def [symmetric] log_end_def logw_finish_def
      split: option.split prod.split writer.split)

lemma serve_logging:
  assumes "same_parts srv R" and "chi_ok (libs srv)"
  shows "case route srv r w of
      None \<Rightarrow> request_end (ServeHTTP (Suc (Suc (Suc (Suc (Suc n))))) srv R (Obj (Suc 0)) r (Raw new_response) [] w) = None
    | Some (out, w') \<Rightarrow> \<exists>lg. request_end (ServeHTTP (Suc (Suc (Suc (Suc (Suc n))))) srv R (Obj (Suc 0)) r (Raw new_response) [] w) =
        Some (Raw (run_stack (compressor (libs srv)) (r_head r ''Accept-Encoding'') out), False, lg, w') \<and>
        logged r (run_stack (compressor (libs srv)) (r_head r ''Accept-Encoding'') out) lg"
proof (cases "route srv r w")
  case None
  then show ?thesis
    by (simp add: serve_log_step [OF assms(1)] serve_compress_step [OF assms(1)] serve_routes [OF assms] on_writer_def
        request_end_def del: ServeHTTP.simps)
next
  case (Some q)
  obtain out w' where q: "q = (out, w')" by (cases q)
  let ?C = "compressor (libs srv)"
  let ?l = "compw_close ?C (fold (compw_act ?C) (acts out) (new_compw (new_logw new_response) (r_head r ''Accept-Encoding'')))"
  have "sized ?l" by (rule sized_close [OF sized_acts]) (simp add: new_compw_def new_response_def)
  then have "lw_size (if \<not> wroteHeader ?l then flushHeader ?l else ?l) = length (body (logw_finish ?l False))"
    using sized_simps(2) [of ?l] by (auto simp: sized_def logw_finish_def)
  then have "logged r (resp_finish (logw_finish ?l (panicked out)))
      [RequestLog (logged_id r) (r_method r) (r_path r), log_end (logged_id r) ?l (panicked out)]"
    by (cases "panicked out") (auto simp: logged_def log_end_def Let_def resp_finish_def)
  with Some q show ?thesis
    by (simp add: serve_log_step [OF assms(1)] serve_compress_step [OF assms(1)] serve_routes [OF assms] on_writer_def
        run_stack_def request_end_def del: ServeHTTP.simps)
qed

lemma serve_root:
  assumes "same_parts srv R"
  shows "ServeHTTP (Suc m) srv R (Obj 0) r (Raw new_response) [] w = (case requestid_mw srv r w of
     (Inl e, w') \<Rightarrow> Some (Raw (resp_WriteHeader new_response 500), False, [], w')
   | (Inr r', w') \<Rightarrow> ServeHTTP m srv R (Obj (Suc 0)) r' (Raw new_response) [] w')"
  using assms by (simp add: same_parts_def wired_def Let_def split: prod.split sum.split)

section \<open>The grpc server\<close>

definition defaultServerConnectionTimeout :: int where "defaultServerConnectionTimeout = 3 * 1000000000"
definition defaultRPCTimeout :: int where "defaultRPCTimeout = 5 * 1000000000"

text \<open>The interceptor objects and what each keeps.\<close>

datatype interceptor =
    DeadlineInt int
  | RequestIDInt bool
  | LoggingInt
  | FilterInt Filter "string list" bool
  | AuthInt Auth

definition requestid_int_New :: "bool \<Rightarrow> interceptor" where
  "requestid_int_New trust = RequestIDInt trust"

definition logging_int_New :: interceptor where
  "logging_int_New = LoggingInt"

definition filter_int_NewFromFilter :: "Filter \<Rightarrow> string list \<Rightarrow> interceptor" where
  "filter_int_NewFromFilter f methods = FilterInt f methods (length (Subnets f) = 0)"

definition auth_int_NewFromAuthorizer :: "Auth \<Rightarrow> interceptor" where
  "auth_int_NewFromAuthorizer a = AuthInt a"

datatype ServerOption = ConnectionTimeout int | Creds tls_config | ChainUnaryInterceptor interceptor

record gsrv =
  opts :: "ServerOption list"
  addr :: string
  reflection :: bool

definition grpc_NewServer :: "AppConfig \<Rightarrow> gsrv option" where
  "grpc_NewServer cfg = (case (GetAuthorizer cfg, GetFilter cfg) of
     (Some a, Some f) \<Rightarrow>
       (let opts1 = [ConnectionTimeout defaultServerConnectionTimeout];
            opts2 = (case GetTLSConfig cfg of Some t \<Rightarrow> opts1 @ [Creds t] | None \<Rightarrow> opts1);
            opts3 = opts2 @
              [ChainUnaryInterceptor (DeadlineInt defaultRPCTimeout),
               ChainUnaryInterceptor (requestid_int_New (c_TrustRequestID cfg)),
               ChainUnaryInterceptor logging_int_New,
               ChainUnaryInterceptor (filter_int_NewFromFilter f filter_methods),
               ChainUnaryInterceptor (auth_int_NewFromAuthorizer a)]
        in Some \<lparr>opts = opts3, addr = c_GRPCListenAddr cfg, reflection = c_GRPCReflection cfg\<rparr>)
   | _ \<Rightarrow> None)"

text \<open>A call whose context may have a deadline, and a handler of such calls.\<close>

record dcall = gcall +
  g_deadline :: "int option"

type_synonym 's dhandler = "dcall \<Rightarrow> 's world \<Rightarrow> (gout \<times> string list \<times> 's world) option"

text \<open>\<open>context.WithTimeout\<close> keeps an earlier deadline.\<close>

definition rpcDeadline :: "int \<Rightarrow> 's dhandler \<Rightarrow> 's dhandler" where
  "rpcDeadline deadline handler c w =
     handler (c\<lparr>g_deadline := Some (case g_deadline c of
        None \<Rightarrow> g_now c + deadline | Some d \<Rightarrow> min d (g_now c + deadline))\<rparr>) w"

text \<open>An interceptor that leaves the deadline alone.\<close>

definition lift_int :: "('s ghandler \<Rightarrow> 's ghandler) \<Rightarrow> 's dhandler \<Rightarrow> 's dhandler" where
  "lift_int i h c w = i (\<lambda>c' w'. h (gcall.extend c' (gcall.more c)) w') (gcall.truncate c) w"

text \<open>What an interceptor object does: its \<open>Get\<close> method over its fields.\<close>

fun interceptor_Get :: "'s Server \<Rightarrow> interceptor \<Rightarrow> 's dhandler \<Rightarrow> 's dhandler" where
  "interceptor_Get srv (DeadlineInt d) = rpcDeadline d"
| "interceptor_Get srv (RequestIDInt trust) = lift_int (requestid_int (srv\<lparr>trustRequestID := trust\<rparr>))"
| "interceptor_Get srv LoggingInt = lift_int logging_int"
| "interceptor_Get srv (FilterInt f methods block) = lift_int (\<lambda>h c w.
     if \<not> methodMatch methods (FullMethod (g_req c)) then h c w
     else if block then Some (gerror PermissionDenied ''denied'', [], w)
     else
       (let remoteAddr = (case g_peer c of Some a \<Rightarrow> a | None \<Rightarrow> []);
            xff = (case md_Get (g_md c) ''x-forwarded-for'' of [] \<Rightarrow> [] | v # _ \<Rightarrow> v);
            xRealIP = (case md_Get (g_md c) ''x-real-ip'' of [] \<Rightarrow> [] | v # _ \<Rightarrow> v)
        in if CheckRequestParams f remoteAddr xRealIP xff then h c w
           else Some (gerror PermissionDenied ''denied'', [], w)))"
| "interceptor_Get srv (AuthInt a) = lift_int (auth_int (srv\<lparr>authorizer := a\<rparr>))"

text \<open>
  The library: it chains the unary interceptors of the options, the first one outermost, around the
  handler; the other options do not touch calls.
\<close>

type_synonym 's unary_chaining =
  "(interceptor \<Rightarrow> 's dhandler \<Rightarrow> 's dhandler) \<Rightarrow> ServerOption list \<Rightarrow> 's dhandler \<Rightarrow> 's dhandler"

definition unary_ok :: "'s unary_chaining \<Rightarrow> bool" where
  "unary_ok ch \<longleftrightarrow> (\<forall>G h. ch G [] h = h) \<and>
     (\<forall>G i os h. ch G (ChainUnaryInterceptor i # os) h = G i (ch G os h)) \<and>
     (\<forall>G t os h. ch G (ConnectionTimeout t # os) h = ch G os h) \<and>
     (\<forall>G t os h. ch G (Creds t # os) h = ch G os h)"

lemma truncate_extend [simp]: "gcall.truncate (gcall.extend c m) = gcall.truncate c"
  by (simp add: gcall.defs)

lemma truncate_id [simp]: "gcall.truncate (c :: gcall) = c"
  by (simp add: gcall.defs)

lemma now_truncate [simp]: "g_now (gcall.truncate c) = g_now c"
  by (simp add: gcall.defs)

lemma truncate_deadline [simp]: "gcall.truncate (c\<lparr>g_deadline := d\<rparr>) = gcall.truncate c"
  by (simp add: gcall.defs)

lemma more_extend [simp]: "gcall.more (gcall.extend c m) = m"
  by (simp add: gcall.defs)

definition with_deadline :: "dcall \<Rightarrow> int \<Rightarrow> gcall \<Rightarrow> dcall" where
  "with_deadline c d c' = gcall.extend c' (dcall.fields (Some (case g_deadline c of
     None \<Rightarrow> g_now c + d | Some x \<Rightarrow> min x (g_now c + d))))"

lemma more_deadline: "gcall.more (c\<lparr>g_deadline := d\<rparr>) = dcall.fields d"
  by (cases c) (simp add: dcall.defs)

section \<open>The profiler\<close>

record profiler =
  p_addr :: string
  p_routes :: "(string \<times> string) list"

definition profiler_New :: "string \<Rightarrow> profiler" where
  "profiler_New listenAddress = \<lparr>p_addr = listenAddress, p_routes = [
     (''/debug/pprof/'', ''Index''), (''/debug/pprof/cmdline'', ''Cmdline''), (''/debug/pprof/profile'', ''Profile''),
     (''/debug/pprof/symbol'', ''Symbol''), (''/debug/pprof/trace'', ''Trace'')]\<rparr>"

section \<open>Properties\<close>

text \<open>C7. The middleware objects that \<open>NewServer\<close> wires together are the chain that the rest of the model
  serves with: following the mutable handler pointers from the router reaches no nil handler, takes
  at most seven hops, answers every request as \<^const>\<open>http_serve\<close> does, and writes to the access log
  nothing or the request and its end under one id, with the size of the body that was sent. The response is the one after \<open>net/http\<close> has ended the
  request.\<close>

theorem http_wiring:
  assumes "chain_ok chain" and "chi_ok (libs srv)" and "http_NewServer chain cfg = Some h"
    and "c_auth cfg = Some (authorizer srv)" and "c_filter cfg = Some (filterMW srv)"
    and "c_TrustRequestID cfg = trustRequestID srv"
  shows "case http_serve srv r w of
      None \<Rightarrow> request_end (ServeHTTP 7 srv (Handler h) (r_root (Handler h)) r (Raw new_response) [] w) = None
    | Some (resp, w') \<Rightarrow> \<exists>lg. request_end (ServeHTTP 7 srv (Handler h) (r_root (Handler h)) r (Raw new_response) [] w) =
        Some (Raw resp, False, lg, w') \<and> (lg = [] \<or> logged r resp lg)"
proof -
  have R: "same_parts srv (Handler h)"
    using http_NewServer_wired [OF assms(1,4,5)] assms(3,6) by (simp add: same_parts_def)
  have root: "r_root (Handler h) = Obj 0" using R by (simp add: same_parts_def wired_def)
  have seven: "(7::nat) = Suc (Suc (Suc (Suc (Suc (Suc (Suc 0))))))" by simp
  show ?thesis
  proof (cases "requestid_mw srv r w")
    case (Pair x w1)
    show ?thesis
    proof (cases x)
      case (Inl e)
      with Pair show ?thesis unfolding seven root by (simp add: serve_root [OF R] http_serve_def request_end_def
        failed_response del: ServeHTTP.simps)
    next
      case (Inr r1)
      with requestid_mw_cases [OF Pair] have r1: "logged r1 = logged r" "r_head r1 = r_head r"
        by (auto simp: logged_def fun_eq_iff)
      from Inr Pair have s: "ServeHTTP 7 srv (Handler h) (r_root (Handler h)) r (Raw new_response) [] w =
          ServeHTTP (Suc (Suc (Suc (Suc (Suc (Suc 0)))))) srv (Handler h) (Obj (Suc 0)) r1 (Raw new_response) [] w1"
        unfolding seven root by (simp add: serve_root [OF R] del: ServeHTTP.simps)
      show ?thesis unfolding s using serve_logging [OF R assms(2), where r = r1 and w = w1 and n = "Suc 0"] Inr Pair r1
        by (auto simp: http_serve_def simp del: ServeHTTP.simps split: option.splits)
    qed
  qed
qed

text \<open>C8. The interceptors that the grpc \<open>NewServer\<close> puts into the options are the chain of \<^const>\<open>grpc_serve\<close>, and
  every handler they reach runs with a deadline at most five seconds after the call arrived: for
  every handler \<open>hdl\<close>, and in particular for the handlers of the service.\<close>

theorem grpc_wiring:
  assumes "unary_ok ch" and "grpc_NewServer cfg = Some g"
    and "c_auth cfg = Some (authorizer srv)" and "c_filter cfg = Some (filterMW srv)"
    and "c_TrustRequestID cfg = trustRequestID srv"
  shows "ch (interceptor_Get srv) (opts g) hdl c w =
      requestid_int srv (logging_int (filter_int srv (auth_int srv (\<lambda>c'. hdl (with_deadline c defaultRPCTimeout c')))))
        (gcall.truncate c) w \<and>
    ch (interceptor_Get srv) (opts g) (\<lambda>c'. grpc_handler srv (gcall.truncate c')) c w =
      grpc_serve srv (gcall.truncate c) w \<and>
    (\<forall>c'. \<exists>d. g_deadline (with_deadline c defaultRPCTimeout c') = Some d \<and> d \<le> g_now c + 5 * 1000000000)"
proof -
  have f: "interceptor_Get srv (filter_int_NewFromFilter (filterMW srv) filter_methods) = lift_int (filter_int srv)"
    by (rule ext)+ (simp add: filter_int_NewFromFilter_def lift_int_def filter_int_def)
  have t: "interceptor_Get srv (requestid_int_New (c_TrustRequestID cfg)) = lift_int (requestid_int srv)"
    using assms(5) by (simp add: requestid_int_New_def)
  have u: "ch G (ChainUnaryInterceptor i # os) h' = G i (ch G os h')" "ch G [] h' = h'"
    "ch G (ConnectionTimeout t # os) h' = ch G os h'" "ch G (Creds tl # os) h' = ch G os h'" for G i os h' t tl
    using assms(1) by (simp_all add: unary_ok_def)
  have one: "ch (interceptor_Get srv) (opts g) h' c = rpcDeadline defaultRPCTimeout
      (lift_int (requestid_int srv) (lift_int logging_int (lift_int (filter_int srv) (lift_int (auth_int srv) h')))) c" for h'
    using assms(2-4)
    by (auto simp: grpc_NewServer_def GetAuthorizer_def GetFilter_def u f t logging_int_New_def
        auth_int_NewFromAuthorizer_def Let_def split: option.splits)
  have all: "ch (interceptor_Get srv) (opts g) h' c w =
      requestid_int srv (logging_int (filter_int srv (auth_int srv (\<lambda>c'. h' (with_deadline c defaultRPCTimeout c')))))
        (gcall.truncate c) w" for h'
    by (simp add: one rpcDeadline_def lift_int_def with_deadline_def more_deadline)
  have "(\<lambda>c'. grpc_handler srv (gcall.truncate (with_deadline c defaultRPCTimeout c'))) = grpc_handler srv"
    by (simp add: with_deadline_def fun_eq_iff)
  with all [of hdl] all [of "\<lambda>c'. grpc_handler srv (gcall.truncate c')"] show ?thesis
    by (auto simp: grpc_serve_def with_deadline_def defaultRPCTimeout_def gcall.defs dcall.defs split: option.split)
qed

lemma createTLS_version: "getTLSConfig L t hname = Inr c \<Longrightarrow> minVersion c = ''1.3''"
  by (auto simp: getTLSConfig_def getSelfSignedTLSConfig_def minTLSVersion_def Let_def split: if_splits sum.splits)

lemma config_finish_tls:
  assumes "config_finish L c0 = Ret (Inr cfg)" and "c_tls c0 = None"
  shows "\<exists>t. c_TLS cfg = Some t \<and>
    (if Enable t then \<exists>c. c_tls cfg = Some c \<and> minVersion c = ''1.3'' else c_tls cfg = None)"
proof -
  have env: "c_tls c1 = c_tls c0" if "mergeEnvs L c0 = Ret (Inr c1)" for c1
    using that by (auto simp: mergeEnvs_def Let_def split: option.splits sum.splits)
  show ?thesis using assms
    by (auto simp: config_finish_def parseBaseURL_def createTLSConfig_def dest!: env createTLS_version
        split: outcome.splits sum.splits option.splits if_splits)
qed

text \<open>C28. TLS is on for all clients or for none: for every accepted configuration, when TLS is enabled the http
  server listens with TLS and the grpc server has credentials, both with the one certificate that
  was loaded or made and at least version 1.3; when it is not, neither has any. The flag parser and
  the json package leave the unexported TLS field alone.\<close>

theorem tls_for_both:
  assumes "config_New L = Ret (Inr cfg)" and "http_NewServer chain cfg = Some h" and "grpc_NewServer cfg = Some g"
    and "\<forall>c. parseFlags L flag_defaults = Inr c \<longrightarrow> c_tls c = None"
    and "\<forall>d c. unmarshalConfig L d = Inr c \<longrightarrow> c_tls c = None"
  shows "\<exists>t. c_TLS cfg = Some t \<and>
    (if Enable t
     then \<exists>c. minVersion c = ''1.3'' \<and> http_listen h = ListenAndServeTLS c \<and> (\<forall>c'. Creds c' \<in> set (opts g) \<longleftrightarrow> c' = c)
     else http_listen h = ListenAndServe \<and> (\<forall>c'. Creds c' \<notin> set (opts g)))"
proof -
  have ff: "c_tls c = None" if "newFromFile L p = Inr c" for p c
    using that assms(5) by (auto simp: newFromFile_def split: sum.splits)
  have merge: "c_tls (merge d s) = c_tls d" for d s by (auto simp: merge_defs split: option.splits)
  obtain c0 where c0: "config_finish L c0 = Ret (Inr cfg)" "c_tls c0 = None"
    using assms(1,4) by (auto simp: config_New_def newFromFlags_def Let_def merge dest!: ff split: sum.splits if_splits)
  from config_finish_tls [OF c0] obtain t where t: "c_TLS cfg = Some t"
    "if Enable t then \<exists>c. c_tls cfg = Some c \<and> minVersion c = ''1.3'' else c_tls cfg = None" by blast
  have h: "TLSConfig h = c_tls cfg"
    using assms(2) by (auto simp: http_NewServer_def GetTLSConfig_def split: option.splits prod.splits)
  have g: "Creds c' \<in> set (opts g) \<longleftrightarrow> c_tls cfg = Some c'" for c'
    using assms(3) by (auto simp: grpc_NewServer_def GetTLSConfig_def Let_def split: option.splits)
  show ?thesis using t by (auto simp: http_listen_def h g)
qed

section \<open>Samples\<close>

text \<open>The chaining of the two libraries as their documentation has it.\<close>

fun sample_chain :: chaining where
  "sample_chain [] h s = (h, s)"
| "sample_chain (m # ms) h s = (case sample_chain ms h s of (h', s') \<Rightarrow> m h' s')"

lemma sample_chain_ok: "chain_ok sample_chain"
  by (simp add: chain_ok_def)

fun sample_unary :: "'s unary_chaining" where
  "sample_unary G [] h = h"
| "sample_unary G (ChainUnaryInterceptor i # os) h = G i (sample_unary G os h)"
| "sample_unary G (_ # os) h = sample_unary G os h"

lemma sample_unary_ok: "unary_ok sample_unary"
  by (simp add: unary_ok_def)

definition sample_cfg :: AppConfig where
  "sample_cfg = flag_defaults\<lparr>c_auth := Some (authorizer (sample_server memory_storage)),
     c_filter := Some sample_filter, c_TrustRequestID := trustRequestID (sample_server memory_storage)\<rparr>"

lemma sample_cfg_simps [simp]:
  "c_auth sample_cfg = Some (authorizer (sample_server memory_storage))" "c_filter sample_cfg = Some sample_filter"
  "c_TrustRequestID sample_cfg = trustRequestID (sample_server memory_storage)"
  by (simp_all add: sample_cfg_def)

theorem http_wiring_witness:
  "\<exists>h resp w' lg hd. http_NewServer sample_chain sample_cfg = Some h \<and>
    request_end (ServeHTTP 7 (sample_server memory_storage) (Handler h) (r_root (Handler h))
      (sample_hreq ''GET'' ''/ping'' [] False) (Raw new_response) [] (sample_world sample_mem)) = Some (Raw resp, False, lg, w') \<and>
    sent resp = Some (200, hd) \<and> (lg = [] \<or> logged (sample_hreq ''GET'' ''/ping'' [] False) resp lg)"
proof -
  let ?srv = "sample_server memory_storage"
  let ?r = "sample_hreq ''GET'' ''/ping'' [] False"
  obtain h where h: "http_NewServer sample_chain sample_cfg = Some h"
    using http_NewServer_wired [OF sample_chain_ok] sample_cfg_simps by blast
  have "map_option (\<lambda>(resp, w'). map_option fst (sent resp)) (http_serve ?srv ?r (sample_world sample_mem)) = Some (Some 200)"
    by code_simp
  then obtain resp w' hd where s: "http_serve ?srv ?r (sample_world sample_mem) = Some (resp, w')" "sent resp = Some (200, hd)"
    by auto
  have "case http_serve ?srv ?r (sample_world sample_mem) of
      None \<Rightarrow> request_end (ServeHTTP 7 ?srv (Handler h) (r_root (Handler h)) ?r (Raw new_response) [] (sample_world sample_mem)) = None
    | Some (resp, w') \<Rightarrow> \<exists>lg. request_end (ServeHTTP 7 ?srv (Handler h) (r_root (Handler h)) ?r (Raw new_response) []
        (sample_world sample_mem)) =
        Some (Raw resp, False, lg, w') \<and> (lg = [] \<or> logged ?r resp lg)"
    by (rule http_wiring [OF sample_chain_ok _ h]) (simp_all add: sample_chi_ok)
  with s h show ?thesis by auto
qed

definition sample_dcall :: dcall where
  "sample_dcall = gcall.extend (sample_call (ShortenRequest ''http://a.b'') True) (dcall.fields None)"

theorem grpc_wiring_witness:
  "\<exists>g. grpc_NewServer sample_cfg = Some g \<and>
    sample_unary (interceptor_Get (sample_server memory_storage)) (opts g)
      (\<lambda>c'. grpc_handler (sample_server memory_storage) (gcall.truncate c')) sample_dcall (sample_world sample_mem) =
    grpc_serve (sample_server memory_storage) (sample_call (ShortenRequest ''http://a.b'') True) (sample_world sample_mem)"
proof -
  obtain g where g: "grpc_NewServer sample_cfg = Some g"
    by (simp add: grpc_NewServer_def GetAuthorizer_def GetFilter_def Let_def)
  have "gcall.truncate sample_dcall = sample_call (ShortenRequest ''http://a.b'') True" by (simp add: sample_dcall_def)
  with grpc_wiring [OF sample_unary_ok g, of "sample_server memory_storage"
      "\<lambda>c'. grpc_handler (sample_server memory_storage) (gcall.truncate c')" sample_dcall "sample_world sample_mem"] g
  show ?thesis by auto
qed

definition tls_cfglibs :: cfglibs where
  "tls_cfglibs = sample_cfglibs\<lparr>parseFlags := (\<lambda>d. Inr (d\<lparr>c_TLS :=
     Some \<lparr>CertPath = [], KeyPath = [], Enable = True, UseSelfSigned = True\<rparr>\<rparr>))\<rparr>"

theorem tls_for_both_witness:
  "\<exists>cfg h g c. config_New tls_cfglibs = Ret (Inr cfg) \<and> http_NewServer sample_chain cfg = Some h \<and>
    grpc_NewServer cfg = Some g \<and> http_listen h = ListenAndServeTLS c \<and> Creds c \<in> set (opts g)"
proof -
  have "case config_New tls_cfglibs of Ret (Inr c) \<Rightarrow> map_option Enable (c_TLS c) = Some True | _ \<Rightarrow> False" by code_simp
  then obtain cfg t where c: "config_New tls_cfglibs = Ret (Inr cfg)" "c_TLS cfg = Some t" "Enable t"
    by (auto split: outcome.splits sum.splits)
  from config_New_parts [OF c(1)] obtain a f where af: "c_auth cfg = Some a" "c_filter cfg = Some f" by blast
  from http_NewServer_wired [OF sample_chain_ok af] obtain h where h: "http_NewServer sample_chain cfg = Some h" by blast
  from af obtain g where g: "grpc_NewServer cfg = Some g"
    by (simp add: grpc_NewServer_def GetAuthorizer_def GetFilter_def Let_def)
  have "\<exists>t. c_TLS cfg = Some t \<and>
    (if Enable t
     then \<exists>c. minVersion c = ''1.3'' \<and> http_listen h = ListenAndServeTLS c \<and> (\<forall>c'. Creds c' \<in> set (opts g) \<longleftrightarrow> c' = c)
     else http_listen h = ListenAndServe \<and> (\<forall>c'. Creds c' \<notin> set (opts g)))"
    by (rule tls_for_both [OF c(1) h g]) (auto simp: tls_cfglibs_def sample_cfglibs_def flag_defaults_def)
  with c h g show ?thesis by auto
qed

end
