(* ===== verification/MockStorage.thy ===== *)
theory MockStorage
  imports MemStore
begin

text \<open>
  The generated mock of the storage (\<open>internal/app/mockapp/mock_storage.go\<close>) that the tests of the
  services use. The library behind it, which finds the expectation that a call matches, is a parameter;
  what is here is the generated code: how each method turns the return arguments of the expectation
  into its results, and the typed methods that set an expectation up.
\<close>

section \<open>Return arguments\<close>

text \<open>
  What can stand in the list of return arguments of a method with arguments \<open>'a\<close> and first result
  \<open>'r\<close>: nil, a value of the result's type, an error, a function that gives both results, one for
  either result, or something of another type. Functions may change the state \<open>'s\<close> of the test.
\<close>

datatype ('s, 'a, 'r) retval =
    RNil
  | RVal 'r
  | RErr gerr
  | RBoth "'a \<Rightarrow> 's \<Rightarrow> 'r gret \<times> 's"
  | RFun "'a \<Rightarrow> 's \<Rightarrow> 'r \<times> 's"
  | RErrFun "'a \<Rightarrow> 's \<Rightarrow> gerr option \<times> 's"
  | ROther

definition RError :: "gerr option \<Rightarrow> ('s, 'a, 'r) retval" where
  "RError e = (case e of None \<Rightarrow> RNil | Some x \<Rightarrow> RErr x)"

text \<open>
  The result at position 0; nil is the zero value of a pointer or slice, given as \<open>zero\<close>, and fails
  the type assertion of any other type. The error at position \<open>k\<close>.
\<close>

fun mock_value :: "'r option \<Rightarrow> ('s, 'a, 'r) retval \<Rightarrow> 'a \<Rightarrow> 's \<Rightarrow> ('r \<times> 's) outcome" where
  "mock_value zero (RFun f) a s = Ret (f a s)"
| "mock_value zero (RVal r) a s = Ret (r, s)"
| "mock_value (Some z) RNil a s = Ret (z, s)"
| "mock_value zero _ a s = Panic"

fun mock_error :: "nat \<Rightarrow> ('s, 'a, 'r) retval list \<Rightarrow> 'a \<Rightarrow> 's \<Rightarrow> (gerr option \<times> 's) outcome" where
  "mock_error k [] a s = Panic"
| "mock_error (Suc k) (v # ret) a s = mock_error k ret a s"
| "mock_error 0 (RErrFun f # ret) a s = Ret (f a s)"
| "mock_error 0 (RErr e # ret) a s = Ret (Some e, s)"
| "mock_error 0 (RNil # ret) a s = Ret (None, s)"
| "mock_error 0 (_ # ret) a s = Panic"

definition mock_results :: "'r option \<Rightarrow> ('s, 'a, 'r) retval list \<Rightarrow> 'a \<Rightarrow> 's \<Rightarrow> ('r gret \<times> 's) outcome" where
  "mock_results zero ret a s = (case ret of
     [] \<Rightarrow> Panic
   | RBoth f # _ \<Rightarrow> Ret (f a s)
   | v # _ \<Rightarrow> (case mock_value zero v a s of
       Panic \<Rightarrow> Panic
     | Ret (r0, s1) \<Rightarrow> (case mock_error 1 ret a s1 of
         Panic \<Rightarrow> Panic
       | Ret (r1, s2) \<Rightarrow> Ret ((r0, r1), s2))))"

section \<open>Calls\<close>

text \<open>
  \<open>Called\<close> of the library: it looks for an expectation that matches the arguments, runs the function
  given to \<open>Run\<close> and returns the return arguments, or panics.
\<close>

type_synonym ('m, 's, 'a, 'r) called = "'a \<Rightarrow> 'm \<times> 's \<Rightarrow> (('s, 'a, 'r) retval list \<times> 'm \<times> 's) outcome"

definition mock_call ::
  "(('s, 'a, 'r) retval list \<Rightarrow> 'a \<Rightarrow> 's \<Rightarrow> ('t \<times> 's) outcome) \<Rightarrow> ('m, 's, 'a, 'r) called \<Rightarrow>
     'a \<Rightarrow> 'm \<times> 's \<Rightarrow> ('t \<times> 'm \<times> 's) outcome" where
  "mock_call results called a x = (case called a x of
     Panic \<Rightarrow> Panic
   | Ret (ret, m, s) \<Rightarrow> (case results ret a s of
       Panic \<Rightarrow> Panic
     | Ret (r, s') \<Rightarrow> Ret (r, m, s')))"

definition mock_Close :: "('m, 's, unit, unit) called \<Rightarrow> 'm \<times> 's \<Rightarrow> ('m \<times> 's) outcome" where
  "mock_Close called x = (case called () x of Panic \<Rightarrow> Panic | Ret (ret, m, s) \<Rightarrow> Ret (m, s))"

definition mock_DeleteUserURLs ::
  "('m, 's, URL list, int) called \<Rightarrow> URL list \<Rightarrow> 'm \<times> 's \<Rightarrow> (int gret \<times> 'm \<times> 's) outcome" where
  "mock_DeleteUserURLs = mock_call (mock_results None)"

definition mock_Get :: "('m, 's, string, string) called \<Rightarrow> string \<Rightarrow> 'm \<times> 's \<Rightarrow> (string gret \<times> 'm \<times> 's) outcome" where
  "mock_Get = mock_call (mock_results None)"

definition mock_ListUserURLs ::
  "('m, 's, string, URL list) called \<Rightarrow> string \<Rightarrow> 'm \<times> 's \<Rightarrow> (URL list gret \<times> 'm \<times> 's) outcome" where
  "mock_ListUserURLs = mock_call (mock_results (Some []))"

definition mock_Ping :: "('m, 's, unit, unit) called \<Rightarrow> unit \<Rightarrow> 'm \<times> 's \<Rightarrow> (gerr option \<times> 'm \<times> 's) outcome" where
  "mock_Ping = mock_call (mock_error 0)"

definition mock_Stats ::
  "('m, 's, unit, Stats option) called \<Rightarrow> unit \<Rightarrow> 'm \<times> 's \<Rightarrow> (Stats option gret \<times> 'm \<times> 's) outcome" where
  "mock_Stats = mock_call (mock_results (Some None))"

definition mock_Store ::
  "('m, 's, URL \<times> bool, string) called \<Rightarrow> URL \<times> bool \<Rightarrow> 'm \<times> 's \<Rightarrow> (string gret \<times> 'm \<times> 's) outcome" where
  "mock_Store = mock_call (mock_results None)"

definition mock_StoreBatch ::
  "('m, 's, URL list, unit) called \<Rightarrow> URL list \<Rightarrow> 'm \<times> 's \<Rightarrow> (gerr option \<times> 'm \<times> 's) outcome" where
  "mock_StoreBatch = mock_call (mock_error 0)"

section \<open>Expectations\<close>

text \<open>
  The library's record of an expected call, as far as the typed methods fill it in: \<open>Run\<close> sets the
  function to run, \<open>Return\<close> and \<open>RunAndReturn\<close> the return arguments; they are used in any number and order.
\<close>

record ('s, 'a, 'r) call =
  ReturnArguments :: "('s, 'a, 'r) retval list"
  RunFn :: "('a \<Rightarrow> 's \<Rightarrow> 's) option"

definition new_call :: "('s, 'a, 'r) call" where
  "new_call = \<lparr>ReturnArguments = [], RunFn = None\<rparr>"

datatype ('s, 'a, 'r) telling =
    Run "'a \<Rightarrow> 's \<Rightarrow> 's"
  | Return 'r "gerr option"
  | RunAndReturn "'a \<Rightarrow> 's \<Rightarrow> 'r gret \<times> 's"

fun set_up :: "('s, 'a, 'r) telling \<Rightarrow> ('s, 'a, 'r) call \<Rightarrow> ('s, 'a, 'r) call" where
  "set_up (Run f) c = c\<lparr>RunFn := Some f\<rparr>"
| "set_up (Return r e) c = c\<lparr>ReturnArguments := [RVal r, RError e]\<rparr>"
| "set_up (RunAndReturn f) c = c\<lparr>ReturnArguments := [RBoth f]\<rparr>"

text \<open>Methods whose only result is an error.\<close>

datatype ('s, 'a) telling1 =
    Run1 "'a \<Rightarrow> 's \<Rightarrow> 's"
  | Return1 "gerr option"
  | RunAndReturn1 "'a \<Rightarrow> 's \<Rightarrow> gerr option \<times> 's"

fun set_up1 :: "('s, 'a) telling1 \<Rightarrow> ('s, 'a, unit) call \<Rightarrow> ('s, 'a, unit) call" where
  "set_up1 (Run1 f) c = c\<lparr>RunFn := Some f\<rparr>"
| "set_up1 (Return1 e) c = c\<lparr>ReturnArguments := [RError e]\<rparr>"
| "set_up1 (RunAndReturn1 f) c = c\<lparr>ReturnArguments := [RErrFun f]\<rparr>"

text \<open>\<open>Close\<close> has no results; what \<open>RunAndReturn\<close> is given becomes a return argument nobody looks at.\<close>

fun Storage_Close_Call :: "('s, unit) telling1 \<Rightarrow> ('s, unit, unit) call \<Rightarrow> ('s, unit, unit) call" where
  "Storage_Close_Call (Run1 f) c = c\<lparr>RunFn := Some f\<rparr>"
| "Storage_Close_Call (Return1 _) c = c\<lparr>ReturnArguments := []\<rparr>"
| "Storage_Close_Call (RunAndReturn1 _) c = c\<lparr>ReturnArguments := [ROther]\<rparr>"

definition Storage_DeleteUserURLs_Call ::
  "('s, URL list, int) telling \<Rightarrow> ('s, URL list, int) call \<Rightarrow> ('s, URL list, int) call" where
  "Storage_DeleteUserURLs_Call = set_up"

definition Storage_Get_Call :: "('s, string, string) telling \<Rightarrow> ('s, string, string) call \<Rightarrow> ('s, string, string) call" where
  "Storage_Get_Call = set_up"

definition Storage_ListUserURLs_Call ::
  "('s, string, URL list) telling \<Rightarrow> ('s, string, URL list) call \<Rightarrow> ('s, string, URL list) call" where
  "Storage_ListUserURLs_Call = set_up"

definition Storage_Ping_Call :: "('s, unit) telling1 \<Rightarrow> ('s, unit, unit) call \<Rightarrow> ('s, unit, unit) call" where
  "Storage_Ping_Call = set_up1"

definition Storage_Stats_Call ::
  "('s, unit, Stats option) telling \<Rightarrow> ('s, unit, Stats option) call \<Rightarrow> ('s, unit, Stats option) call" where
  "Storage_Stats_Call = set_up"

definition Storage_Store_Call ::
  "('s, URL \<times> bool, string) telling \<Rightarrow> ('s, URL \<times> bool, string) call \<Rightarrow> ('s, URL \<times> bool, string) call" where
  "Storage_Store_Call = set_up"

definition Storage_StoreBatch_Call :: "('s, URL list) telling1 \<Rightarrow> ('s, URL list, unit) call \<Rightarrow> ('s, URL list, unit) call" where
  "Storage_StoreBatch_Call = set_up1"

text \<open>
  The library, as documented: \<open>on\<close> adds a finished expectation for arguments that match to a mock
  that has none for the method, and a call that matches runs its function, if any, and gets its
  return arguments.
\<close>

definition testify_ok ::
  "('m \<Rightarrow> bool) \<Rightarrow> (('a \<Rightarrow> bool) \<Rightarrow> ('s, 'a, 'r) call \<Rightarrow> 'm \<Rightarrow> 'm) \<Rightarrow> ('m, 's, 'a, 'r) called \<Rightarrow> bool" where
  "testify_ok fresh on called \<longleftrightarrow> (\<forall>m mt c a s. fresh m \<longrightarrow> mt a \<longrightarrow>
     (\<exists>m'. called a (on mt c m, s) =
        Ret (ReturnArguments c, m', case RunFn c of None \<Rightarrow> s | Some f \<Rightarrow> f a s)))"

lemma testifyE:
  assumes "testify_ok fresh on called" and "fresh m" and "mt a"
  obtains m' where "called a (on mt c m, s) = Ret (ReturnArguments c, m', case RunFn c of None \<Rightarrow> s | Some f \<Rightarrow> f a s)"
  using assms unfolding testify_ok_def by blast

lemma mock_results_simps [simp]:
  "mock_results zero [RVal r, RError e] a s = Ret ((r, e), s)"
  "mock_results zero [RBoth f] a s = Ret (f a s)"
  "mock_error 0 [RError e] a s = Ret (e, s)"
  by (simp_all add: mock_results_def RError_def split: option.split)

text \<open>What a method of the mock answers once it was told, for any of its two kinds of results.\<close>

definition told ::
  "('m \<Rightarrow> bool) \<Rightarrow> (('a \<Rightarrow> bool) \<Rightarrow> ('s, 'a, 'r) call \<Rightarrow> 'm \<Rightarrow> 'm) \<Rightarrow> ('a \<Rightarrow> 'm \<times> 's \<Rightarrow> ('t \<times> 'm \<times> 's) outcome) \<Rightarrow>
     ('s, 'a, 'r) call \<Rightarrow> ('a \<Rightarrow> 's \<Rightarrow> 't \<times> 's) \<Rightarrow> bool" where
  "told fresh on meth c f \<longleftrightarrow> (\<forall>m mt a s. fresh m \<longrightarrow> mt a \<longrightarrow>
     (\<exists>m'. meth a (on mt c m, s) = Ret (fst (f a s), m', snd (f a s))))"

lemma told_call:
  fixes called :: "('m, 's, 'a, 'r) called"
  assumes "testify_ok fresh on called" and "\<And>a s. results (ReturnArguments c) a s = Ret (f a s)"
  shows "told fresh on (mock_call results called) c
    (\<lambda>a s. f a (case RunFn c of None \<Rightarrow> s | Some g \<Rightarrow> g a s))"
  unfolding told_def
proof (intro allI impI)
  fix m :: 'm and mt :: "'a \<Rightarrow> bool" and a s
  assume "fresh m" "mt a"
  with assms(1) obtain m' where
    "called a (on mt c m, s) = Ret (ReturnArguments c, m', case RunFn c of None \<Rightarrow> s | Some f \<Rightarrow> f a s)"
    by (rule testifyE)
  then show "\<exists>m'. mock_call results called a (on mt c m, s) =
      Ret (fst (f a (case RunFn c of None \<Rightarrow> s | Some g \<Rightarrow> g a s)), m',
        snd (f a (case RunFn c of None \<Rightarrow> s | Some g \<Rightarrow> g a s)))"
    by (auto simp: mock_call_def assms(2) split: prod.split)
qed

lemma told_RunAndReturn: "testify_ok fresh on called \<Longrightarrow>
    told fresh on (mock_call (mock_results zero) called) (set_up (RunAndReturn f) new_call) f"
  using told_call [of fresh on called "mock_results zero" "set_up (RunAndReturn f) new_call" f]
  by (simp add: new_call_def)

lemma told_RunAndReturn1: "testify_ok fresh on called \<Longrightarrow>
    told fresh on (mock_call (mock_error 0) called) (set_up1 (RunAndReturn1 f) new_call) f"
  using told_call [of fresh on called "mock_error 0" "set_up1 (RunAndReturn1 f) new_call" f]
  by (simp add: new_call_def)

lemma told_Return: "testify_ok fresh on called \<Longrightarrow>
    told fresh on (mock_call (mock_results zero) called) (set_up (Return r e) (set_up (Run f) new_call)) (\<lambda>a s. ((r, e), f a s))"
  using told_call [of fresh on called "mock_results zero" "set_up (Return r e) (set_up (Run f) new_call)" "\<lambda>a s. ((r, e), s)"]
  by (simp add: new_call_def)

section \<open>Properties\<close>

text \<open>The mock can play any storage: a method that was told by \<open>RunAndReturn\<close> to run the method of a storage
  on the test's state answers as that method does and does not panic; one that was told results by
  \<open>Return\<close>, after a \<open>Run\<close>, gives these results and has run the function.\<close>

theorem mock_plays_storage:
  assumes "testify_ok fresh onG calledG" and "testify_ok fresh onS calledS" and "testify_ok fresh onB calledB"
    and "testify_ok fresh onL calledL" and "testify_ok fresh onD calledD" and "testify_ok fresh onP calledP"
    and "testify_ok fresh onT calledT"
  shows "told fresh onG (mock_Get calledG) (Storage_Get_Call (RunAndReturn (\<lambda>k s. st_Get st s k)) new_call)
      (\<lambda>k s. st_Get st s k) \<and>
    told fresh onS (mock_Store calledS) (Storage_Store_Call (RunAndReturn (\<lambda>(u, ow) s. st_Store st s u ow)) new_call)
      (\<lambda>(u, ow) s. st_Store st s u ow) \<and>
    told fresh onB (mock_StoreBatch calledB) (Storage_StoreBatch_Call (RunAndReturn1 (\<lambda>us s. st_StoreBatch st s us)) new_call)
      (\<lambda>us s. st_StoreBatch st s us) \<and>
    told fresh onL (mock_ListUserURLs calledL)
      (Storage_ListUserURLs_Call (RunAndReturn (\<lambda>k s. st_ListUserURLs st s k)) new_call) (\<lambda>k s. st_ListUserURLs st s k) \<and>
    told fresh onD (mock_DeleteUserURLs calledD)
      (Storage_DeleteUserURLs_Call (RunAndReturn (\<lambda>us s. st_DeleteUserURLs st s us)) new_call)
      (\<lambda>us s. st_DeleteUserURLs st s us) \<and>
    told fresh onP (mock_Ping calledP) (Storage_Ping_Call (RunAndReturn1 (\<lambda>_. st_Ping st)) new_call) (\<lambda>_. st_Ping st) \<and>
    told fresh onT (mock_Stats calledT) (Storage_Stats_Call (RunAndReturn (\<lambda>_. st_Stats st)) new_call) (\<lambda>_. st_Stats st) \<and>
    told fresh onG (mock_Get calledG) (Storage_Get_Call (Return url err) (Storage_Get_Call (Run f) new_call))
      (\<lambda>k s. ((url, err), f k s))"
proof -
  show ?thesis
    unfolding mock_Get_def mock_Store_def mock_StoreBatch_def mock_ListUserURLs_def mock_DeleteUserURLs_def mock_Ping_def
      mock_Stats_def Storage_Get_Call_def Storage_Store_Call_def Storage_StoreBatch_Call_def Storage_ListUserURLs_Call_def
      Storage_DeleteUserURLs_Call_def Storage_Ping_Call_def Storage_Stats_Call_def
    by (intro conjI told_RunAndReturn told_RunAndReturn1 told_Return assms)
qed

text \<open>A library that keeps one expectation for each method.\<close>

type_synonym ('s, 'a, 'r) expected = "(('a \<Rightarrow> bool) \<times> ('s, 'a, 'r) call) option"

record 's sample_mock =
  x_Get :: "('s, string, string) expected"
  x_Store :: "('s, URL \<times> bool, string) expected"
  x_StoreBatch :: "('s, URL list, unit) expected"
  x_List :: "('s, string, URL list) expected"
  x_Delete :: "('s, URL list, int) expected"
  x_Ping :: "('s, unit, unit) expected"
  x_Stats :: "('s, unit, Stats option) expected"

definition sample_called :: "('m \<Rightarrow> ('s, 'a, 'r) expected) \<Rightarrow> ('m, 's, 'a, 'r) called" where
  "sample_called sel a x = (case x of (m, s) \<Rightarrow> (case sel m of
     None \<Rightarrow> Panic
   | Some (mt, c) \<Rightarrow>
       if mt a then Ret (ReturnArguments c, m, case RunFn c of None \<Rightarrow> s | Some f \<Rightarrow> f a s) else Panic))"

definition empty_mock :: "'s sample_mock" where
  "empty_mock = \<lparr>x_Get = None, x_Store = None, x_StoreBatch = None, x_List = None, x_Delete = None, x_Ping = None,
     x_Stats = None\<rparr>"

lemma sample_testify:
  "(\<And>m v. sel (upd (\<lambda>_. v) m) = v) \<Longrightarrow>
     testify_ok (\<lambda>m. m = empty_mock) (\<lambda>mt c. upd (\<lambda>_. Some (mt, c))) (sample_called sel)"
  by (simp add: testify_ok_def sample_called_def)

lemma sample_testify_all:
  "testify_ok (\<lambda>m. m = (empty_mock :: 's sample_mock)) (\<lambda>mt c. x_Get_update (\<lambda>_. Some (mt, c))) (sample_called x_Get)"
  "testify_ok (\<lambda>m. m = (empty_mock :: 's sample_mock)) (\<lambda>mt c. x_Store_update (\<lambda>_. Some (mt, c))) (sample_called x_Store)"
  "testify_ok (\<lambda>m. m = (empty_mock :: 's sample_mock)) (\<lambda>mt c. x_StoreBatch_update (\<lambda>_. Some (mt, c))) (sample_called x_StoreBatch)"
  "testify_ok (\<lambda>m. m = (empty_mock :: 's sample_mock)) (\<lambda>mt c. x_List_update (\<lambda>_. Some (mt, c))) (sample_called x_List)"
  "testify_ok (\<lambda>m. m = (empty_mock :: 's sample_mock)) (\<lambda>mt c. x_Delete_update (\<lambda>_. Some (mt, c))) (sample_called x_Delete)"
  "testify_ok (\<lambda>m. m = (empty_mock :: 's sample_mock)) (\<lambda>mt c. x_Ping_update (\<lambda>_. Some (mt, c))) (sample_called x_Ping)"
  "testify_ok (\<lambda>m. m = (empty_mock :: 's sample_mock)) (\<lambda>mt c. x_Stats_update (\<lambda>_. Some (mt, c))) (sample_called x_Stats)"
  by (rule sample_testify; simp)+

theorem mock_plays_storage_witness:
  "\<exists>m'. mock_Store (sample_called x_Store) (\<lparr>Short = ''ab'', Orig = ''u'', UserID = ''1'', TS = 0\<rparr>, False)
     (x_Store_update (\<lambda>_. Some (\<lambda>_. True, Storage_Store_Call
        (RunAndReturn (\<lambda>(u, ow) s. st_Store memory_storage s u ow)) new_call)) empty_mock,
      \<lparr>DB = [], gen = (\<lambda>_. Inr ''0'')\<rparr>) =
    Ret (([], None), m', \<lparr>DB = [(''ab'', \<lparr>UUID = ''0'', ShortURL = ''ab'', OriginalURL = ''u'', RUserID = ''1'',
      Deleted = False\<rparr>)], gen = (\<lambda>_. Inr ''0'')\<rparr>)"
proof -
  let ?u = "\<lparr>Short = ''ab'', Orig = ''u'', UserID = ''1'', TS = 0\<rparr>" and ?m = "\<lparr>DB = [], gen = (\<lambda>_. Inr ''0'')\<rparr>"
  let ?f = "\<lambda>(u, ow) s. st_Store memory_storage s u ow"
  have "told (\<lambda>m. m = empty_mock) (\<lambda>mt c. x_Store_update (\<lambda>_. Some (mt, c))) (mock_Store (sample_called x_Store))
      (Storage_Store_Call (RunAndReturn ?f) new_call) ?f"
    by (rule mock_plays_storage [OF sample_testify_all, THEN conjunct2, THEN conjunct1])
  from this [unfolded told_def, rule_format, OF refl, of "\<lambda>_. True" "(?u, False)" ?m, OF TrueI]
  obtain m' where "mock_Store (sample_called x_Store) (?u, False)
     (x_Store_update (\<lambda>_. Some (\<lambda>_. True, Storage_Store_Call (RunAndReturn ?f) new_call)) empty_mock, ?m) =
     Ret (fst (?f (?u, False) ?m), m', snd (?f (?u, False) ?m))"
    by (elim exE)
  moreover have "?f (?u, False) ?m = (([], None), \<lparr>DB = [(''ab'', \<lparr>UUID = ''0'', ShortURL = ''ab'', OriginalURL = ''u'',
      RUserID = ''1'', Deleted = False\<rparr>)], gen = (\<lambda>_. Inr ''0'')\<rparr>)"
    by (simp add: memory_storage_def Memory_Store_def mk_record_def next_src_def taken_def)
  ultimately show ?thesis by auto
qed

end
