(* ===== verification/Lint.thy ===== *)
theory Lint
  imports Prelude
begin

text \<open>
  The repository's own static checks: \<open>internal/analyzers/exitcheck/exitcheck.go\<close>, which reports
  direct calls of \<open>os.Exit\<close> in \<open>main\<close>, and \<open>internal/analyzers/nolint/nolint.go\<close>, which makes an
  analyzer skip marked files.
\<close>

section \<open>Syntax trees\<close>

text \<open>
  What the analyzer looks at of \<open>go/ast\<close>; every other kind of node has only its children.
  A call carries its position.
\<close>

datatype node =
    Ident string
  | SelectorExpr node string
  | CallExpr nat node "node list"
  | ExprStmt node
  | FuncDecl string "node list"
  | OtherNode "node list"

text \<open>A file: package name, file name, the texts of its comment groups, its declarations.\<close>

record gofile =
  f_package :: string
  f_name :: string
  f_comments :: "string list list"
  f_decls :: "node list"

text \<open>
  The order in which \<open>ast.Inspect\<close> visits the nodes under a node, itself first. The children of a
  function declaration are its receiver, name, type and body.
\<close>

fun visits :: "node \<Rightarrow> node list" where
  "visits (Ident s) = [Ident s]"
| "visits (SelectorExpr x s) = SelectorExpr x s # visits x @ [Ident s]"
| "visits (CallExpr p f as) = CallExpr p f as # visits f @ concat (map visits as)"
| "visits (ExprStmt x) = ExprStmt x # visits x"
| "visits (FuncDecl n cs) = FuncDecl n cs # concat (map visits cs)"
| "visits (OtherNode cs) = OtherNode cs # concat (map visits cs)"

section \<open>exitcheck.go\<close>

definition IsExported :: "string \<Rightarrow> bool" where
  "IsExported s = (case s of [] \<Rightarrow> False | c # _ \<Rightarrow> (let n = of_char c :: nat in 65 \<le> n \<and> n \<le> 90))"

definition inspectExpr :: "node \<Rightarrow> bool \<Rightarrow> nat list" where
  "inspectExpr x insideMainFunc =
     (if \<not> insideMainFunc then []
      else (case x of
          CallExpr pos fn args \<Rightarrow> (case fn of
              SelectorExpr y sel \<Rightarrow>
                if \<not> IsExported sel then []
                else (case y of
                    Ident pkg \<Rightarrow> if sel = ''Exit'' \<and> pkg = ''os'' then [pos] else []
                  | _ \<Rightarrow> [])
            | _ \<Rightarrow> [])
        | _ \<Rightarrow> []))"

text \<open>One call of the closure that \<open>inspect\<close> returns: the flag and the reports so far.\<close>

fun inspect :: "node \<Rightarrow> bool \<times> nat list \<Rightarrow> bool \<times> nat list" where
  "inspect (ExprStmt x) (inside, reports) = (inside, reports @ inspectExpr x inside)"
| "inspect (FuncDecl name cs) (inside, reports) = (name = ''main'', reports)"
| "inspect _ s = s"

definition HasSuffix :: "string \<Rightarrow> string \<Rightarrow> bool" where
  "HasSuffix s p = is_prefix (rev p) (rev s)"

fun exit_run :: "gofile list \<Rightarrow> nat list" where
  "exit_run [] = []"
| "exit_run (file # files) =
     (if f_package file \<noteq> ''main'' then exit_run files
      else if \<not> HasSuffix (f_name file) ''.go'' then exit_run files
      else snd (fold inspect (concat (map visits (f_decls file))) (False, [])) @ exit_run files)"

section \<open>nolint.go\<close>

definition noLintPrefix :: string where
  "noLintPrefix = ''//lint:file-ignore ''"

definition codeGeneratedByPrefix :: string where
  "codeGeneratedByPrefix = ''// Code generated by ''"

definition marked :: "gofile \<Rightarrow> bool" where
  "marked file = (case f_comments file of
     [] \<Rightarrow> False
   | grp # _ \<Rightarrow> list_ex (\<lambda>comment. list_ex (\<lambda>p. is_prefix p comment \<and> length p < length comment)
       [noLintPrefix, codeGeneratedByPrefix]) grp)"

fun new_files :: "gofile list \<Rightarrow> gofile list" where
  "new_files [] = []"
| "new_files (file # files) = (if marked file then new_files files else file # new_files files)"

text \<open>\<open>Wrap\<close>, on an analyzer's run function and the value it returns when no file is left.\<close>

definition Wrap_run :: "'r \<Rightarrow> (gofile list \<Rightarrow> 'r) \<Rightarrow> gofile list \<Rightarrow> 'r" where
  "Wrap_run resultType realRun files = (case new_files files of
     [] \<Rightarrow> resultType
   | fs \<Rightarrow> realRun fs)"

section \<open>Facts\<close>

fun is_func :: "node \<Rightarrow> bool" where
  "is_func (FuncDecl n cs) = True"
| "is_func _ = False"

text \<open>The position of a statement \<open>os.Exit(...)\<close>, and of those under a node.\<close>

definition exit_of :: "node \<Rightarrow> nat list" where
  "exit_of n = (case n of ExprStmt x \<Rightarrow> inspectExpr x True | _ \<Rightarrow> [])"

definition exits :: "node \<Rightarrow> nat list" where
  "exits n = concat (map exit_of (visits n))"

lemma inspectExpr_iff:
  "p \<in> set (inspectExpr x b) \<longleftrightarrow> b \<and> (\<exists>args. x = CallExpr p (SelectorExpr (Ident ''os'') ''Exit'') args)"
proof -
  have "IsExported ''Exit''" by (simp add: IsExported_def)
  then show ?thesis by (auto simp: inspectExpr_def split: node.splits if_splits)
qed

lemma exit_of_iff:
  "p \<in> set (exit_of n) \<longleftrightarrow> (\<exists>args. n = ExprStmt (CallExpr p (SelectorExpr (Ident ''os'') ''Exit'') args))"
  by (cases n) (simp_all add: exit_of_def inspectExpr_iff)

lemma exits_iff:
  "p \<in> set (exits n) \<longleftrightarrow> (\<exists>args. ExprStmt (CallExpr p (SelectorExpr (Ident ''os'') ''Exit'') args) \<in> set (visits n))"
  by (auto simp: exits_def exit_of_iff)

text \<open>The last function declared so far is \<open>main\<close>.\<close>

definition in_main :: "bool \<Rightarrow> node list \<Rightarrow> bool" where
  "in_main b ds = fold (\<lambda>d b. case d of FuncDecl name cs \<Rightarrow> name = ''main'' | _ \<Rightarrow> b) ds b"

lemma inspect_eq: "inspect n (b, rs) =
   ((case n of FuncDecl name cs \<Rightarrow> name = ''main'' | _ \<Rightarrow> b), rs @ (if b then exit_of n else []))"
  by (cases n) (auto simp: exit_of_def inspectExpr_def)

lemma fold_inspect_plain:
  "\<forall>n \<in> set ns. \<not> is_func n \<Longrightarrow>
     fold inspect ns (b, rs) = (b, rs @ (if b then concat (map exit_of ns) else []))"
proof (induction ns arbitrary: rs)
  case (Cons n ns)
  then show ?case by (cases n) (simp_all add: inspect_eq del: inspect.simps)
qed simp

text \<open>Go declares functions only at the top of a file.\<close>

definition plain :: "node \<Rightarrow> bool" where
  "plain d \<longleftrightarrow> (\<forall>n \<in> set (tl (visits d)). \<not> is_func n)"

lemma visits_head: "visits d = d # tl (visits d)"
  by (cases d) simp_all

lemma fold_inspect_decl:
  assumes "plain d"
  shows "fold inspect (visits d) (b, rs) =
    (in_main b [d], rs @ (if in_main b [d] then exits d else []))"
proof -
  have "fold inspect (visits d) (b, rs) = fold inspect (tl (visits d)) (inspect d (b, rs))"
    by (subst visits_head) simp
  then show ?thesis
    using fold_inspect_plain [of "tl (visits d)"] assms
    by (cases d) (simp_all add: plain_def exits_def in_main_def inspect_eq exit_of_def del: inspect.simps)
qed

lemma fold_inspect_file:
  "list_all plain ds \<Longrightarrow> fold inspect (concat (map visits ds)) (b, rs) = (in_main b ds,
     rs @ concat (map (\<lambda>i. if in_main b (take (Suc i) ds) then exits (ds ! i) else []) [0..<length ds]))"
proof (induction ds arbitrary: b rs)
  case (Cons d ds)
  have m: "in_main b (d # xs) = in_main (in_main b [d]) xs" for xs by (simp add: in_main_def)
  have "map (\<lambda>i. if in_main b (take (Suc i) (d # ds)) then exits ((d # ds) ! i) else []) [0..<length (d # ds)] =
    (if in_main b [d] then exits d else []) #
      map (\<lambda>i. if in_main (in_main b [d]) (take (Suc i) ds) then exits (ds ! i) else []) [0..<length ds]"
    by (simp only: length_Cons map_upt_Suc take_Suc_Cons take_0 nth_Cons_0 nth_Cons_Suc m [of "take (Suc _) ds"])
  moreover have "fold inspect (concat (map visits (d # ds))) (b, rs) =
    fold inspect (concat (map visits ds)) (in_main b [d], rs @ (if in_main b [d] then exits d else []))"
    using Cons.prems by (simp add: fold_inspect_decl)
  ultimately show ?case using Cons.IH Cons.prems m [of ds] by simp
qed (simp add: in_main_def)

lemma new_files_filter: "new_files fs = filter (\<lambda>f. \<not> marked f) fs"
  by (induction fs) auto

lemma exit_run_iff: "p \<in> set (exit_run fs) \<longleftrightarrow> (\<exists>f \<in> set fs. p \<in> set (exit_run [f]))"
  by (induction fs) auto

section \<open>Properties\<close>

text \<open>C32. What the wrapped analyzer reports: the positions of the statements \<open>os.Exit(...)\<close> in a go file
  of package \<open>main\<close> that is not marked in its first comment group, under a declaration at or after a
  function \<open>main\<close> and before the next function. So a deferred \<open>os.Exit\<close>, which is no expression
  statement, is never reported.\<close>

theorem exitcheck_reports:
  assumes "\<forall>f \<in> set files. list_all plain (f_decls f)"
  shows "p \<in> set (Wrap_run [] exit_run files) \<longleftrightarrow>
    (\<exists>f \<in> set files. \<not> marked f \<and> f_package f = ''main'' \<and> HasSuffix (f_name f) ''.go'' \<and>
      (\<exists>i < length (f_decls f). in_main False (take (Suc i) (f_decls f)) \<and>
        (\<exists>args. ExprStmt (CallExpr p (SelectorExpr (Ident ''os'') ''Exit'') args) \<in> set (visits (f_decls f ! i)))))"
proof -
  have "Wrap_run [] exit_run files = exit_run (filter (\<lambda>f. \<not> marked f) files)"
    by (cases "new_files files") (simp_all add: Wrap_run_def new_files_filter)
  moreover have "p \<in> set (exit_run [f]) \<longleftrightarrow> f_package f = ''main'' \<and> HasSuffix (f_name f) ''.go'' \<and>
      (\<exists>i < length (f_decls f). in_main False (take (Suc i) (f_decls f)) \<and> p \<in> set (exits (f_decls f ! i)))"
    if "f \<in> set files" for f
    using fold_inspect_file [of "f_decls f" False "[]"] assms that by auto
  ultimately show ?thesis by (auto simp: exit_run_iff exits_iff)
qed

text \<open>
  A marked file and one like \<open>cmd/shortener/main.go\<close>: a function \<open>main\<close> that calls \<open>os.Exit\<close> at
  position 7 and defers a call of it at position 9.
\<close>

definition sample_go :: "string list \<Rightarrow> gofile" where
  "sample_go cs = \<lparr>f_package = ''main'', f_name = ''main.go'', f_comments = [cs], f_decls =
     [FuncDecl ''main'' [ExprStmt (CallExpr 7 (SelectorExpr (Ident ''os'') ''Exit'') []),
       OtherNode [CallExpr 9 (SelectorExpr (Ident ''os'') ''Exit'') []]]]\<rparr>"

theorem exitcheck_reports_witness:
  "7 \<in> set (Wrap_run [] exit_run [sample_go [], sample_go [''//lint:file-ignore x'']]) \<and>
   9 \<notin> set (Wrap_run [] exit_run [sample_go [], sample_go [''//lint:file-ignore x'']]) \<and>
   7 \<notin> set (Wrap_run [] exit_run [sample_go [''//lint:file-ignore x'']])"
proof -
  let ?m = "[''//lint:file-ignore x'']"
  have pl: "\<forall>f \<in> set [sample_go [], sample_go ?m]. list_all plain (f_decls f)"
    "\<forall>f \<in> set [sample_go ?m]. list_all plain (f_decls f)"
    by (simp_all add: sample_go_def plain_def)
  have m: "\<not> marked (sample_go [])" "marked (sample_go ?m)" by code_simp+
  have s: "HasSuffix (f_name (sample_go cs)) ''.go''" for cs by (simp add: sample_go_def HasSuffix_def)
  show ?thesis
    unfolding exitcheck_reports [OF pl(1)] exitcheck_reports [OF pl(2)]
    using m s by (auto simp: sample_go_def in_main_def)
qed

end
