(* ===== verification/LintDriver.thy ===== *)
theory LintDriver
  imports Lint
begin

text \<open>
  The driver of the static checks: \<open>internal/analyzers/multichecker/multichecker.go\<close>, which collects
  the analyzers, \<open>WrapSlice\<close> of \<open>internal/analyzers/nolint/nolint.go\<close>, which changes them in place,
  and \<open>cmd/staticlint/main.go\<close>. The analyzers of other packages and the driver that runs them are
  parameters.
\<close>

section \<open>Analyzers\<close>

text \<open>
  An analyzer is a pointer: its fields are looked up in a heap. Its run function is given the files of
  a pass; \<open>'r\<close> is what it reports and returns. \<open>a_result\<close> is what a wrapped analyzer returns when no
  file is left, \<open>reflect.TypeOf(a.ResultType)\<close> without reports.
\<close>

record 'r analyzer =
  a_name :: string
  a_result :: 'r
  a_run :: "gofile list \<Rightarrow> 'r"

type_synonym 'r analyzers = "nat \<Rightarrow> 'r analyzer"

definition exitcheck_New :: "nat list analyzer" where
  "exitcheck_New = \<lparr>a_name = ''exitcheck'', a_result = [], a_run = exit_run\<rparr>"

definition Wrap :: "nat \<Rightarrow> 'r analyzers \<Rightarrow> 'r analyzers" where
  "Wrap a h = h(a := (h a)\<lparr>a_run := Wrap_run (a_result (h a)) (a_run (h a))\<rparr>)"

fun WrapSlice :: "nat list \<Rightarrow> 'r analyzers \<Rightarrow> 'r analyzers" where
  "WrapSlice [] h = h"
| "WrapSlice (a # as) h = WrapSlice as (Wrap a h)"

text \<open>The four groups of \<open>honnef.co/go/tools\<close>, as the pointers they list.\<close>

record staticcheck_groups =
  staticcheck_Analyzers :: "nat list"
  simple_Analyzers :: "nat list"
  quickfix_Analyzers :: "nat list"
  stylecheck_Analyzers :: "nat list"

definition getStaticCheckAnalyzers :: "staticcheck_groups \<Rightarrow> nat list" where
  "getStaticCheckAnalyzers g = staticcheck_Analyzers g @ simple_Analyzers g @ quickfix_Analyzers g @ stylecheck_Analyzers g"

text \<open>\<open>Run\<close> up to \<open>multichecker.Main\<close>: the analyzers it hands over, and the heap they are in.\<close>

definition multichecker_Run ::
  "staticcheck_groups \<Rightarrow> nat \<Rightarrow> nat \<Rightarrow> nat \<Rightarrow> 'r analyzers \<Rightarrow> nat list \<times> 'r analyzers" where
  "multichecker_Run g loggercheck interfacebloat exitcheck h =
     (let checks = getStaticCheckAnalyzers g @ [loggercheck, interfacebloat, exitcheck]
      in (checks, WrapSlice checks h))"

section \<open>Wrapping\<close>

lemma Wrap_run_eq: "Wrap_run r f fs = (case filter (\<lambda>x. \<not> marked x) fs of [] \<Rightarrow> r | xs \<Rightarrow> f xs)"
  by (simp add: Wrap_run_def new_files_filter)

lemma Wrap_run_twice: "Wrap_run r (Wrap_run r f) = Wrap_run r f"
proof
  fix fs
  have "filter (\<lambda>x. \<not> marked x) (filter (\<lambda>x. \<not> marked x) fs) = filter (\<lambda>x. \<not> marked x) fs" by simp
  then show "Wrap_run r (Wrap_run r f) fs = Wrap_run r f fs"
    by (cases "filter (\<lambda>x. \<not> marked x) fs") (auto simp: Wrap_run_eq)
qed

lemma WrapSlice_nth:
  "WrapSlice as h i = (if i \<in> set as then (h i)\<lparr>a_run := Wrap_run (a_result (h i)) (a_run (h i))\<rparr> else h i)"
  by (induction as arbitrary: h) (auto simp: Wrap_def Wrap_run_twice)

section \<open>Properties\<close>

text \<open>What the linter runs: every analyzer that is handed to the driver sees the unmarked files only, and
  does not run when there is none, even when it is listed more than once; no other analyzer is changed;
  and the check for \<open>os.Exit\<close> is among them.\<close>

theorem driver_skips_marked:
  "case multichecker_Run g l b e h of (checks, h') \<Rightarrow>
     set checks = set (staticcheck_Analyzers g) \<union> set (simple_Analyzers g) \<union> set (quickfix_Analyzers g) \<union>
       set (stylecheck_Analyzers g) \<union> {l, b, e} \<and>
     a_name (h' i) = a_name (h i) \<and>
     a_run (h' i) files =
       (if i \<in> set checks
        then (case filter (\<lambda>f. \<not> marked f) files of [] \<Rightarrow> a_result (h i) | fs \<Rightarrow> a_run (h i) fs)
        else a_run (h i) files)"
  by (auto simp: multichecker_Run_def getStaticCheckAnalyzers_def Let_def WrapSlice_nth Wrap_run_eq)

end
