(* ===== verification/RepoTests.thy ===== *)
theory RepoTests
  imports IPFilter Resolver MemStore LintDriver
begin

text \<open>
  The tables of the repository's own tests, run on the model: \<open>internal/filter/filter_test.go\<close>,
  \<open>internal/services/resolver/resolver_test.go\<close>, \<open>internal/storage/memory/simple_test.go\<close> and the packages
  under \<open>internal/analyzers/exitcheck/testdata\<close>. The definitions give what the tests want.
\<close>

section \<open>The filter\<close>

text \<open>\<open>TestFilter\<close>: the arguments, and whether the address is to match or the configuration to fail.\<close>

record filter_case =
  fx_xFF :: string
  fx_xRealIP :: string
  fx_remote :: string
  fx_trusted :: string
  fx_trustXFF :: bool
  fx_trustXRealIP :: bool
  fx_want :: "bool option"

definition filter_case_ok :: "filter_case \<Rightarrow> bool" where
  "filter_case_ok t = (case filter_New \<lparr>fc_Subnets = fx_trusted t, fc_TrustXFF = fx_trustXFF t, fc_TrustXRealIP = fx_trustXRealIP t\<rparr> of
     Inl e \<Rightarrow> fx_want t = None
   | Inr f \<Rightarrow> fx_want t = Some (CheckRequestParams f (fx_remote t) (fx_xRealIP t) (fx_xFF t)))"

definition fx :: "string \<Rightarrow> string \<Rightarrow> string \<Rightarrow> string \<Rightarrow> bool \<Rightarrow> bool \<Rightarrow> bool option \<Rightarrow> filter_case" where
  "fx xff real remote trust txff treal want = \<lparr>fx_xFF = xff, fx_xRealIP = real, fx_remote = remote, fx_trusted = trust,
     fx_trustXFF = txff, fx_trustXRealIP = treal, fx_want = want\<rparr>"

definition TestFilter :: "filter_case list" where
  "TestFilter = [
     fx [] [] ''127.0.0.1:1111'' ''127.0.0.0/8'' False False (Some True),
     fx ''10.10.10.10'' [] ''127.0.0.1:1111'' ''10.10.10.0/24'' True False (Some True),
     fx [] ''10.10.10.10'' ''127.0.0.1:1111'' ''10.10.10.0/24'' False True (Some True),
     fx ''10.10.10.10'' ''20.10.10.10'' [] ''10.10.10.0/24'' True True (Some True),
     fx ''10.10.10.10'' ''20.10.10.10'' [] ''20.10.10.0/24'' True True (Some True),
     fx ''10.10.10.10, asdasd'' ''20.10.10.10'' [] ''20.10.10.0/24'' True True (Some True),
     fx ''10.10.10.10, asdasd'' [] [] ''10.10.10.0/24'' True False (Some False),
     fx [] [] [] ''10.10.10.0/24'' False True (Some False),
     fx [] [] [] ''10.10.10.0/24'' True False (Some False),
     fx [] [] [] [] False False (Some False),
     fx ''5.5.5.5, 6.6.6.6'' ''4.4.4.4'' ''127.0.0.1:1111'' ''1.1.1.0/24,2.2.2.0/24,3.3.3.0/24'' True True (Some False),
     fx [] [] [] ''1.1.1.1/1, 2.2.2.2'' False False None,
     fx ''5.5.5.5, 6.6.6.6'' ''2000::1'' ''127.0.0.1:1111'' ''2000::/16'' True True (Some True),
     fx ''2000::1, 6.6.6.6'' [] ''127.0.0.1:1111'' ''2000::/16'' True False (Some False),
     fx ''2000::1, ff00::1'' [] ''[::1]:1111'' ''2000::/16,ff00::/16'' True True (Some True),
     fx [] [] ''[abcd::abcd]:1111'' ''abcd::/16'' False False (Some True),
     fx [] [] ''[abcd::abcd]:1111'' ''abce::/16'' False False (Some False)]"

lemma TestFilter_passes: "list_all filter_case_ok TestFilter"
  by code_simp

section \<open>The resolver\<close>

text \<open>\<open>TestService_Redirect\<close>: a path, the urls in the storage, and the url or the error that is wanted.\<close>

definition stored :: "(string \<times> string) list \<Rightarrow> Memory" where
  "stored kvs = \<lparr>DB = map (\<lambda>(k, v). (k, \<lparr>UUID = [], ShortURL = [], OriginalURL = v, RUserID = [], Deleted = False\<rparr>)) kvs,
     gen = (\<lambda>_. Inr ''0'')\<rparr>"

definition resolve_case_ok :: "string \<times> (string \<times> string) list \<times> (sentinel + string) \<Rightarrow> bool" where
  "resolve_case_ok t = (case t of (path, kvs, want) \<Rightarrow> (case Resolve memory_storage path (stored kvs) of
     Panic \<Rightarrow> False
   | Ret ((orig, err), _) \<Rightarrow> (case want of
       Inl e \<Rightarrow> orig = [] \<and> (case err of None \<Rightarrow> False | Some x \<Rightarrow> errors_is x (Sentinel e))
     | Inr u \<Rightarrow> orig = u \<and> err = None)))"

definition TestService_Redirect :: "(string \<times> (string \<times> string) list \<times> (sentinel + string)) list" where
  "TestService_Redirect = [
     (''/qweasdzxcr'', [(''qweasdzxcr'', ''https://aaa.bbb'')], Inr ''https://aaa.bbb''),
     (''/qweasd1xcr'', [(''qweasdzxcr'', ''https://aaa.bbb'')], Inl ErrNotFound),
     (''/qweasd&*zxcr'' @ [CHR 0xD0, CHR 0xB0, CHR 0xD0, CHR 0xB1], [(''qweasdzxcr123'', ''https://aaa.bbb'')], Inl ErrInvalidPath),
     (''qweasdzxcr123'', [(''qweasdzxcr123'', ''https://aaa.bbb'')], Inl ErrInvalidPath)]"

lemma TestService_Redirect_passes: "list_all resolve_case_ok TestService_Redirect"
  by code_simp

section \<open>The memory storage\<close>

text \<open>\<open>TestNewSimple_Store\<close>: the url stored under \<open>aaa\<close> before, the new one, overwrite, the map after and the error.\<close>

definition store_case_ok ::
  "(string \<times> string) list \<times> string \<times> bool \<times> (string \<times> string) list \<times> sentinel option \<Rightarrow> bool" where
  "store_case_ok t = (case t of (kvs, u, ow, want, err) \<Rightarrow>
     (case Memory_Store (stored kvs) \<lparr>Short = ''aaa'', Orig = u, UserID = [], TS = 0\<rparr> ow of
        ((_, e), m) \<Rightarrow> e = map_option Sentinel err \<and> DB_Map (DB m) = want))"

definition TestNewSimple_Store :: "((string \<times> string) list \<times> string \<times> bool \<times> (string \<times> string) list \<times> sentinel option) list" where
  "TestNewSimple_Store = [
     ([(''aaa'', ''https://bbb.ccc'')], ''https://ddd.eee'', True, [(''aaa'', ''https://ddd.eee'')], None),
     ([(''aaa'', ''https://bbb.ccc'')], ''https://ddd.eee'', False, [(''aaa'', ''https://bbb.ccc'')], Some ErrAlreadyExists),
     ([], ''https://bbb.ccc'', False, [(''aaa'', ''https://bbb.ccc'')], None)]"

lemma TestNewSimple_Store_passes: "list_all store_case_ok TestNewSimple_Store"
  by code_simp

section \<open>The check for exit\<close>

text \<open>The two packages of the test data; only the call at line 7 of the first is wanted to be reported.\<close>

definition pkg_decls :: "node list" where
  "pkg_decls = [OtherNode [],
     FuncDecl ''main'' [OtherNode [], OtherNode [ExprStmt (CallExpr 7 (SelectorExpr (Ident ''os'') ''Exit'') [OtherNode []])]],
     FuncDecl ''dummy'' [OtherNode [], OtherNode [ExprStmt (CallExpr 11 (SelectorExpr (Ident ''os'') ''Exit'') [OtherNode []])]]]"

definition pkg1 :: gofile where
  "pkg1 = \<lparr>f_package = ''main'', f_name = ''pkg1.go'', f_comments = [[''//lint:file-ignore test data''],
     [''// want \"direct os.Exit call in main func\"'']], f_decls = pkg_decls\<rparr>"

definition pkg2 :: gofile where
  "pkg2 = \<lparr>f_package = ''pkg2'', f_name = ''pkg2.go'', f_comments = [[''//lint:file-ignore test data'']], f_decls = pkg_decls\<rparr>"

lemma TestExitCheck_passes:
  "a_run exitcheck_New [pkg1] = [7]" "a_run exitcheck_New [pkg2] = []"
  by code_simp+

text \<open>The linter itself skips both, as they are marked.\<close>

lemma linter_skips_testdata:
  "Wrap_run (a_result exitcheck_New) (a_run exitcheck_New) [pkg1, pkg2] = []"
  by code_simp

end
