(* ===== verification/Spec2Isabelle.thy ===== *)
theory Spec2Isabelle
  imports App FileClose RestartSafe BatchRun GoroutineLinks Shutdown Wiring MockStorage RepoTests
begin

text \<open>
  A verification library for the url shortener of this repository (a Go program with an http and
  a grpc interface, three storage backends and an asynchronous delete queue).

  \<^bold>\<open>The program.\<close> \<open>cmd/shortener/main.go\<close> builds a configuration (\<open>internal/config\<close>) and calls
  \<open>app.Run\<close> (\<open>internal/app\<close>), which chooses a storage (\<open>internal/storage\<close>), makes the three services
  (\<open>internal/services\<close>) and runs the servers (\<open>internal/http\<close>, \<open>internal/grpc\<close>) and the delete queue
  (\<open>internal/buffer\<close>) as goroutines until a signal or an error. A request passes the middlewares or
  interceptors (request id, logging, compression, authentication by \<open>internal/auth\<close>, filtering by
  \<open>internal/filter\<close>), reaches a handler, which calls one service, which calls the storage or, for
  deletions, the queue, whose flush function calls the storage later.

  \<^bold>\<open>Theories, from the bottom up.\<close>
  \<^item> \<open>Prelude\<close>, \<open>Goerr\<close>: Go maps as association lists, streams of random values, strings, error values
    with \<open>errors.Is\<close>, \<open>errors.As\<close> and \<open>errors.Join\<close>, and results that may be a panic.
  \<^item> \<open>Model\<close>, \<open>Generators\<close>: \<open>internal/model\<close>, \<open>internal/user\<close>, \<open>internal/session\<close>, \<open>internal/generators\<close>.
  \<^item> \<open>Storage_If\<close>: the interface \<open>Storage\<close> of \<open>internal/app/app.go\<close> as a record of methods, and the locale
    \<open>url_storage\<close>: an abstract map from paths to entries (url, owner, deleted) and what each method does
    to it. Everything above the storages is proved once in this locale. \<open>batch_storage\<close> extends it by atomic
    batches and by the law that a path in the storage is never given out again; the database meets it.
  \<^item> \<open>MemStore\<close>, \<open>FileStore\<close>, \<open>Database\<close>: the three storages, each with its invariant, its behaviour in
    every branch, and its interpretation of \<open>url_storage\<close>. \<open>FileStore\<close> has the file as bytes, the
    buffered writer, disks that fail or run full, loading and the persistence loop; \<open>FileRace\<close> has its
    goroutines with the flags that no mutex protects, \<open>FileClose\<close> adds \<open>Close\<close> and its channels; the steps of
    both carry labels, so that a theorem can say which steps a run takes. \<open>Database\<close> works against a pool with the laws of the
    locale \<open>pgx_pool\<close>, interpreted on a table with the constraints of the migration script; it also has
    the settings of the pool and the tracers of its connections.
  \<^item> \<open>Flusher\<close>: \<open>internal/buffer/buffer.go\<close>, with \<open>Push\<close> as a function and as steps of any number of
    callers next to the loop \<open>Run\<close>; invariants by rule induction over the reachable states.
  \<^item> \<open>Resolver\<close>, \<open>Shortener\<close>, \<open>Status\<close>: the services; \<open>EndToEnd\<close>: sequences of requests to them.
    \<open>Concurrent\<close>: the goroutines of requests, interleaved between their calls of the storage and of \<open>Push\<close>.
  \<^item> \<open>Netip\<close>, \<open>IPFilter\<close>, \<open>Auth\<close>: addresses as words of 32 and 128 bits, the request filter, sessions.
  \<^item> \<open>Http\<close>: the response writers of the logging and the compression middleware on a model of
    \<open>http.ResponseWriter\<close>, with interim statuses and statuses that allow no body. \<open>HttpServer\<close>: handlers, the other middlewares, routes, the whole chain
    \<^const>\<open>http_serve\<close>. \<open>HttpRun\<close>: every http request is at most one request to the services. \<open>Grpc\<close>: the
    same for the grpc server, \<^const>\<open>grpc_serve\<close>. \<open>AppRun\<close>: sequences of requests to both servers;
    \<open>BatchRun\<close>: the links of batches and of json bodies in them, with the sublocale \<open>batch_storage\<close>.
    \<open>Goroutines\<close>: every request to both servers in its own goroutine, with the handlers cut at their
    call of a service, and lemmas that one alone does what \<^const>\<open>http_serve\<close> and \<^const>\<open>grpc_serve\<close> do;
    \<open>GoroutineLinks\<close>: what every interleaving of these goroutines and of the flusher keeps.
    \<open>Restart\<close>: the same on the file storage with saves, a shutdown and a new start; \<open>RestartSafe\<close>: which
    requests keep every record such that the file can be opened again.
  \<^item> \<open>AppConfig\<close>: flags, file, environment and the values derived from them. \<open>Process\<close>: the goroutines
    of the servers and of \<open>app.Run\<close> as a step relation. \<open>Shutdown\<close>: these goroutines together with the
    delete queue and the requests being handled. \<open>App\<close>: choice of the storage, creation of services
    and servers, \<open>main.go\<close>. \<open>Wiring\<close>: \<open>NewServer\<close> of both servers and \<open>New\<close> of the profiler, with the
    middleware objects and their mutable handlers, the access log, server options, timeouts and TLS.
  \<^item> \<open>Lint\<close>, \<open>LintDriver\<close>: the repository's own static check for \<open>os.Exit\<close> and the linter around it.
    \<open>MockStorage\<close>: the generated mock of the storage. \<open>RepoTests\<close>: tables of the repository's own tests
    (filter, resolver, memory storage, the check for \<open>os.Exit\<close>), run on the definitions.

  \<^bold>\<open>How state corresponds.\<close> A Go struct is a record with the same fields, without the logger. A method
  that changes its receiver returns the new record; a Go error is a \<^typ>\<open>gerr\<close> option beside the value, as
  in Go, because some callers use both. A nil pointer that is dereferenced and an index out of range are the
  result \<open>Panic\<close>, and the recovery of the middlewares acts on it. A call that can block for ever returns an
  option. The state of a whole server is the record \<open>world\<close>: storage, delete queue, and the streams of
  random numbers and uuids.

  \<^bold>\<open>What the groups of properties show.\<close> End to end: a link that was created resolves after any later
  requests of others, on the database, in memory when it was created over grpc, and across a restart of the
  file storage; every http request acts as at most one request to the services and deletes only in the name of a valid session; all links of a batch lead to their urls on both servers;
  links of requests served at the same time by both servers, single or in batches,
  do not spoil each other on the database, and no two clients are given the same path. Storages: exact
  results of store and delete, redirects of every path on the database, durability (every operation keeps the file
  invariant, and a save keeps it when the records can be read back), when a file can always be opened again, and the cases where
  the file or the queue loses data.
  Delete queue: nothing accepted is lost or duplicated, progress, and the deadlock at shutdown. Servers:
  status of every outcome, access to statistics, transparency of compression for every status. Sessions: only
  tokens signed with the secret are accepted, and issued ones are. Wiring: the servers that \<open>NewServer\<close> builds
  are the chains the other theorems speak of; TLS is on for both or for none. Configuration: what
  the eight environment variables, the flags and the file make of every field, and the filter made of it.
  Process: start, a bound on its steps, and in which states it ends or hangs for ever; with the delete queue and the
  handlers in the picture, exactly when a shutdown can still complete, and two runs after which it never does,
  without a server that failed. Where the code does something else than its comments say, the theorem
  states what the code does.

  \<^bold>\<open>Bounds and fuel.\<close> Only \<open>ServeHTTP\<close> of \<open>Wiring\<close> runs on fuel, the number of handler pointers it follows:
  seven are enough for every request, as its property states. The retries of \<open>storeURL\<close> recur on the number of tries
  left (three), \<open>bw_Write\<close> on the bytes left to write, loops on their lists. Timestamps, counters and
  lengths are integers: none of them comes near 64 bits in the code. Addresses are words.

  \<^bold>\<open>Parameters.\<close> What the code calls in other modules is an argument: the jwt library (\<open>jwtlib\<close>, laws
  \<open>jwt_ok\<close>), the chi router (\<open>chiFind\<close>, law \<open>chi_ok\<close>), gzip and zlib (\<open>complib\<close>, law \<open>comp_ok\<close>), pgx
  (\<open>Pool\<close>, laws \<open>pgx_pool\<close>), testify (law \<open>testify_ok\<close>), json and url parsing, flag parsing and certificates. Each law has a concrete
  instance on which the witnesses compute.

  \<^bold>\<open>Not modelled.\<close> Log messages other than the access log, and the text of traces, as they return
  nothing to the program; what happens when a timeout or the deadline of a call passes, whose only effect is
  that calls of the storage may fail, which the models of the storages allow; cryptography and the encoding of
  certificates (their template is modelled); the generated marshalling and client code of \<open>shorty.pb.go\<close> and
  \<open>shorty_grpc.pb.go\<close>; the libraries behind the linter and the mock. A call of a storage is one step: the
  interleaving inside it is modelled for the file storage, where the code has no lock around it.

  \<^bold>\<open>Plan.\<close> The restarts of \<open>RestartSafe\<close> in every interleaving of the requests; more of the repository's
  test tables.
\<close>

end
